(* ===== verification/Prelude.thy ===== *)
theory Prelude
  imports Main "HOL-Library.Word"
begin

text \<open>
  What every component shares: bytes and strings as the code has them, the ways a call can
  fail, the string searches of \<open>std::string_view\<close>, and the lemmas about them.

  A C++ \<open>char\<close> or \<open>uint8_t\<close> is one byte, HOL's type \<open>char\<close>; a
  \<open>std::string\<close> or \<open>std::string_view\<close> is a \<open>string\<close>, a list of bytes. The position
  \<open>npos\<close> is \<open>None\<close>.
\<close>

named_theorems search_simps \<open>facts about the string searches\<close>
named_theorems fault_simps \<open>facts about calls that may fail\<close>

type_synonym byte = char

section \<open>Failures\<close>

text \<open>
  The ways a modelled call goes wrong: \<open>std::out_of_range\<close> thrown by \<open>substr\<close>, a
  failed \<open>assert\<close>, and behaviour the language leaves undefined (a read outside an object, or of
  a member no constructor has initialised). \<open>Unfinished\<close> is no failure of the code: a loop
  driven by its environment is modelled over a script of the environment's answers, and is still
  running when the script ends.
\<close>

datatype fault = Out_of_range | Assertion | Undefined | Unfinished

type_synonym 'a res = "fault + 'a"

fun bindE :: "'e + 'a \<Rightarrow> ('a \<Rightarrow> 'e + 'b) \<Rightarrow> 'e + 'b" where
  "bindE (Inl e) f = Inl e"
| "bindE (Inr x) f = f x"

lemma bindE_Inr [fault_simps]: "bindE m f = Inr y \<longleftrightarrow> (\<exists>x. m = Inr x \<and> f x = Inr y)"
  by (cases m) auto

lemma bindE_Inl [fault_simps]:
  "bindE m f = Inl e \<longleftrightarrow> m = Inl e \<or> (\<exists>x. m = Inr x \<and> f x = Inl e)"
  by (cases m) auto

lemma bindE_assoc: "bindE (bindE m f) g = bindE m (\<lambda>x. bindE (f x) g)"
  by (cases m) auto

lemma bindE_right [simp]: "bindE m Inr = m"
  by (cases m) auto

section \<open>Bytes\<close>

definition code :: "char \<Rightarrow> nat" where
  "code c = of_char c"

text \<open>The value of a byte read as a (signed) \<open>char\<close>, and the byte an integer narrows to.\<close>

definition schar :: "char \<Rightarrow> int" where
  "schar c = (if code c < 128 then int (code c) else int (code c) - 256)"

definition narrow :: "int \<Rightarrow> char" where
  "narrow n = char_of (nat (n mod 256))"

lemma code_lt: "code c < 256"
  by (simp add: code_def)

lemma char_of_code [simp]: "char_of (code c) = c"
  by (simp add: code_def)

lemma code_Char [simp]:
  "code (Char b0 b1 b2 b3 b4 b5 b6 b7) = horner_sum of_bool 2 [b0, b1, b2, b3, b4, b5, b6, b7]"
  by (simp add: code_def)

lemma code_char_of: "code (char_of (n :: nat)) = n mod 256"
  by (simp add: code_def)

lemma code_eq_iff: "code c = code d \<longleftrightarrow> c = d"
  by (metis char_of_code)

lemma code_narrow: "code (narrow n) = nat (n mod 256)"
proof -
  have "nat (n mod 256) < 256" by simp
  then show ?thesis by (simp add: narrow_def code_char_of)
qed

lemma narrow_code [simp]: "narrow (int (code c)) = c"
proof -
  have "nat (int (code c) mod 256) = code c" using code_lt [of c] by (simp add: nat_mod_distrib)
  then show ?thesis by (simp add: narrow_def)
qed

section \<open>String searches\<close>

primrec find_if :: "('a \<Rightarrow> bool) \<Rightarrow> 'a list \<Rightarrow> nat option" where
  "find_if P [] = None"
| "find_if P (x # xs) = (if P x then Some 0 else map_option Suc (find_if P xs))"

definition find_char :: "char \<Rightarrow> string \<Rightarrow> nat option" where
  "find_char c s = find_if (\<lambda>x. x = c) s"

definition find_from :: "char \<Rightarrow> nat \<Rightarrow> string \<Rightarrow> nat option" where
  "find_from c i s = map_option (\<lambda>k. i + k) (find_char c (drop i s))"

primrec find_last_char :: "char \<Rightarrow> string \<Rightarrow> nat option" where
  "find_last_char c [] = None"
| "find_last_char c (x # xs) =
     (case find_last_char c xs of
        Some i \<Rightarrow> Some (Suc i)
      | None \<Rightarrow> (if x = c then Some 0 else None))"

text \<open>
  \<open>s.substr(pos, count)\<close>: throws when \<open>pos > s.size()\<close>, and stops at the end of the string;
  \<open>None\<close> as the count is \<open>npos\<close>.
\<close>

definition substr :: "string \<Rightarrow> nat \<Rightarrow> nat option \<Rightarrow> string res" where
  "substr s pos count =
     (if length s < pos then Inl Out_of_range
      else Inr (case count of None \<Rightarrow> drop pos s | Some n \<Rightarrow> take n (drop pos s)))"

lemma find_if_None [search_simps]: "find_if P xs = None \<longleftrightarrow> (\<forall>x \<in> set xs. \<not> P x)"
  by (induction xs) auto

lemma find_if_SomeD:
  "find_if P xs = Some i \<Longrightarrow> i < length xs \<and> P (xs ! i) \<and> (\<forall>x \<in> set (take i xs). \<not> P x)"
  by (induction xs arbitrary: i) (auto split: if_splits)

lemma find_if_append:
  "\<forall>x \<in> set xs. \<not> P x \<Longrightarrow> find_if P (xs @ ys) = map_option (\<lambda>k. length xs + k) (find_if P ys)"
  by (induction xs) (cases "find_if P ys"; auto)+

lemma find_char_Nil [simp]: "find_char c [] = None"
  by (simp add: find_char_def)

lemma find_char_Cons [simp]:
  "find_char c (x # xs) = (if x = c then Some 0 else map_option Suc (find_char c xs))"
  by (simp add: find_char_def)

lemma find_char_None [search_simps]: "find_char c s = None \<longleftrightarrow> c \<notin> set s"
  by (auto simp: find_char_def find_if_None)

lemma find_char_split [search_simps]:
  "c \<notin> set s \<Longrightarrow> find_char c (s @ c # t) = Some (length s)"
  by (induction s) auto

lemma find_char_append [search_simps]:
  "c \<notin> set s \<Longrightarrow> find_char c (s @ t) = map_option (\<lambda>k. length s + k) (find_char c t)"
  by (auto simp: find_char_def intro!: find_if_append)

lemma find_char_SomeD: "find_char c s = Some i \<Longrightarrow> i < length s \<and> s ! i = c \<and> c \<notin> set (take i s)"
  by (auto simp: find_char_def dest: find_if_SomeD)

lemma find_char_SomeE:
  assumes "find_char c s = Some i"
  obtains u v where "s = u @ c # v" and "c \<notin> set u" and "length u = i"
  using find_char_SomeD [OF assms] id_take_nth_drop [of i s] by force

lemma find_last_char_None [search_simps]: "find_last_char c s = None \<longleftrightarrow> c \<notin> set s"
  by (induction s) (auto split: option.splits)

lemma find_last_char_split [search_simps]:
  "c \<notin> set t \<Longrightarrow> find_last_char c (s @ c # t) = Some (length s)"
  by (induction s) (auto simp: find_last_char_None split: option.splits)

lemma find_last_char_less: "find_last_char c s = Some i \<Longrightarrow> i < length s"
  by (induction s arbitrary: i) (auto split: option.splits if_splits)

lemma substr_ok [simp]: "pos \<le> length s \<Longrightarrow> substr s pos None = Inr (drop pos s)"
  by (simp add: substr_def)

lemma substr_take_ok [simp]: "pos \<le> length s \<Longrightarrow> substr s pos (Some n) = Inr (take n (drop pos s))"
  by (simp add: substr_def)

lemma substr_throws: "length s < pos \<Longrightarrow> substr s pos n = Inl Out_of_range"
  by (simp add: substr_def)

section \<open>Lists updated by index\<close>

lemma take_list_update_beyond: "n \<le> i \<Longrightarrow> take n (xs[i := x]) = take n xs"
  by simp

lemma set_drop_takeD: "x \<in> set (drop i (take j xs)) \<Longrightarrow> x \<in> set xs"
  by (meson in_set_dropD in_set_takeD)

end
