(* ===== verification/Header_Names.thy ===== *)
theory Header_Names
  imports Prelude
begin

text \<open>
  The character helpers of \<open>util.cc\<close>, the case-insensitive comparison \<open>streq_l\<close>, the header
  names the server tells apart (\<open>util::HttpHeader\<close>) and \<open>lookup_header\<close>, the switch over
  length and last byte that recognises them. The switch is proved equal to a lookup in a plain
  table.
\<close>

section \<open>Characters\<close>

definition is_lower :: "char \<Rightarrow> bool" where
  "is_lower c \<longleftrightarrow> schar (CHR ''a'') \<le> schar c \<and> schar c \<le> schar (CHR ''z'')"

definition is_upper :: "char \<Rightarrow> bool" where
  "is_upper c \<longleftrightarrow> schar (CHR ''A'') \<le> schar c \<and> schar c \<le> schar (CHR ''Z'')"

definition is_alpha :: "char \<Rightarrow> bool" where
  "is_alpha c \<longleftrightarrow>
     (schar (CHR ''a'') \<le> schar c \<and> schar c \<le> schar (CHR ''z'')) \<or>
     (schar (CHR ''A'') \<le> schar c \<and> schar c \<le> schar (CHR ''Z''))"

definition is_digit :: "char \<Rightarrow> bool" where
  "is_digit c \<longleftrightarrow> schar (CHR ''0'') \<le> schar c \<and> schar c \<le> schar (CHR ''9'')"

definition is_hex_digit :: "char \<Rightarrow> bool" where
  "is_hex_digit c \<longleftrightarrow> is_digit c \<or>
     (schar (CHR ''A'') \<le> schar c \<and> schar c \<le> schar (CHR ''F'')) \<or>
     (schar (CHR ''a'') \<le> schar c \<and> schar c \<le> schar (CHR ''f''))"

definition to_lower :: "char \<Rightarrow> char" where
  "to_lower c =
     (if is_alpha c then
        (if is_upper c then narrow (schar c - schar (CHR ''A'') + schar (CHR ''a'')) else c)
      else c)"

lemma schar_lits [simp]:
  "schar (CHR ''a'') = 97" "schar (CHR ''z'') = 122" "schar (CHR ''f'') = 102"
  "schar (CHR ''A'') = 65" "schar (CHR ''Z'') = 90" "schar (CHR ''F'') = 70"
  "schar (CHR ''0'') = 48" "schar (CHR ''9'') = 57"
  by (simp_all add: schar_def)

lemma is_upper_code: "is_upper c \<longleftrightarrow> 65 \<le> code c \<and> code c \<le> 90"
  using code_lt [of c] by (auto simp: is_upper_def schar_def)

lemma is_alpha_code: "is_alpha c \<longleftrightarrow> (97 \<le> code c \<and> code c \<le> 122) \<or> is_upper c"
  using code_lt [of c] by (auto simp: is_alpha_def is_upper_code schar_def)

lemma is_digit_code: "is_digit c \<longleftrightarrow> 48 \<le> code c \<and> code c \<le> 57"
  using code_lt [of c] by (auto simp: is_digit_def schar_def)

lemma code_to_lower: "code (to_lower c) = (if is_upper c then code c + 32 else code c)"
  by (auto simp: to_lower_def is_alpha_code is_upper_code schar_def code_narrow
      simp flip: of_nat_add)

lemma to_lower_idem [simp]: "to_lower (to_lower c) = to_lower c"
  by (simp add: code_eq_iff [symmetric] code_to_lower is_upper_code)

lemma to_lower_fixed: "\<not> is_upper c \<Longrightarrow> to_lower c = c"
  by (simp add: code_eq_iff [symmetric] code_to_lower)

section \<open>Case-insensitive comparison\<close>

text \<open>The loop of \<open>streq_l\<close> over two strings of the same length.\<close>

fun streq_loop :: "string \<Rightarrow> string \<Rightarrow> bool" where
  "streq_loop (x # xs) (y # ys) = (if to_lower x \<noteq> to_lower y then False else streq_loop xs ys)"
| "streq_loop _ _ = True"

definition streq_l :: "string \<Rightarrow> string \<Rightarrow> bool" where
  "streq_l a b = (if length a \<noteq> length b then False else streq_loop a b)"

text \<open>\<open>streq_l(a, b, blen)\<close> compares with the first \<open>blen\<close> bytes of \<open>b\<close>.\<close>

definition streq_l_n :: "string \<Rightarrow> string \<Rightarrow> nat \<Rightarrow> bool" where
  "streq_l_n a b blen = streq_l a (take blen b)"

lemma streq_loop_iff: "length a = length b \<Longrightarrow> streq_loop a b \<longleftrightarrow> map to_lower a = map to_lower b"
  by (induction a b rule: streq_loop.induct) auto

lemma streq_l_iff: "streq_l a b \<longleftrightarrow> map to_lower a = map to_lower b"
  using map_eq_imp_length_eq by (auto simp: streq_l_def streq_loop_iff)

lemma streq_l_refl [simp]: "streq_l a a"
  by (simp add: streq_l_iff)

lemma streq_l_sym: "streq_l a b \<longleftrightarrow> streq_l b a"
  by (auto simp: streq_l_iff)

section \<open>Header names\<close>

datatype HttpHeader =
    pAUTHORITY | pHOST | pMETHOD | pPATH | pPROTOCOL | pSCHEME | pSTATUS
  | ACCEPT_ENCODING | ACCEPT_LANGUAGE | ALT_SVC | CACHE_CONTROL | CONNECTION
  | CONTENT_LENGTH | CONTENT_TYPE | COOKIE | DATE | EARLY_DATA | EXPECT | FORWARDED
  | HOST | HTTP2_SETTINGS | IF_MODIFIED_SINCE | KEEP_ALIVE | LINK | LOCATION
  | PROXY_CONNECTION | SEC_WEBSOCKET_ACCEPT | SEC_WEBSOCKET_KEY | SERVER | TE | TRAILER
  | TRANSFER_ENCODING | UPGRADE | USER_AGENT | VIA | X_FORWARDED_FOR | X_FORWARDED_PROTO
  | MAXIDX | eNOTFOUND

text \<open>
  \<open>lookup_header\<close> is one switch over \<open>name.size()\<close>; \<open>lookup_header_long\<close> holds its cases from
  10 on. In each case the switch over the last byte has distinct labels, so it is a chain of tests.
\<close>

definition lookup_header_long :: "string \<Rightarrow> HttpHeader" where
  "lookup_header_long name =
    (if length name = 10 then
      (if name ! 9 = CHR ''a'' \<and> streq_l_n ''early-dat'' name 9 then EARLY_DATA else
      (if name ! 9 = CHR ''e'' \<and> streq_l_n ''keep-aliv'' name 9 then KEEP_ALIVE else
      (if name ! 9 = CHR ''n'' \<and> streq_l_n ''connectio'' name 9 then CONNECTION else
      (if name ! 9 = CHR ''t'' \<and> streq_l_n ''user-agen'' name 9 then USER_AGENT else
      (if name ! 9 = CHR ''y'' \<and> streq_l_n '':authorit'' name 9 then pAUTHORITY else
       eNOTFOUND)))))
     else if length name = 12 then
      (if name ! 11 = CHR ''e'' \<and> streq_l_n ''content-typ'' name 11 then CONTENT_TYPE else
       eNOTFOUND)
     else if length name = 13 then
      (if name ! 12 = CHR ''l'' \<and> streq_l_n ''cache-contro'' name 12 then CACHE_CONTROL else
       eNOTFOUND)
     else if length name = 14 then
      (if name ! 13 = CHR ''h'' \<and> streq_l_n ''content-lengt'' name 13 then CONTENT_LENGTH else
      (if name ! 13 = CHR ''s'' \<and> streq_l_n ''http2-setting'' name 13 then HTTP2_SETTINGS else
       eNOTFOUND))
     else if length name = 15 then
      (if name ! 14 = CHR ''e'' \<and> streq_l_n ''accept-languag'' name 14 then ACCEPT_LANGUAGE else
      (if name ! 14 = CHR ''g'' \<and> streq_l_n ''accept-encodin'' name 14 then ACCEPT_ENCODING else
      (if name ! 14 = CHR ''r'' \<and> streq_l_n ''x-forwarded-fo'' name 14 then X_FORWARDED_FOR else
       eNOTFOUND)))
     else if length name = 16 then
      (if name ! 15 = CHR ''n'' \<and> streq_l_n ''proxy-connectio'' name 15 then PROXY_CONNECTION else
       eNOTFOUND)
     else if length name = 17 then
      (if name ! 16 = CHR ''e'' \<and> streq_l_n ''if-modified-sinc'' name 16 then IF_MODIFIED_SINCE else
      (if name ! 16 = CHR ''g'' \<and> streq_l_n ''transfer-encodin'' name 16 then TRANSFER_ENCODING else
      (if name ! 16 = CHR ''o'' \<and> streq_l_n ''x-forwarded-prot'' name 16 then X_FORWARDED_PROTO else
      (if name ! 16 = CHR ''y'' \<and> streq_l_n ''sec-websocket-ke'' name 16 then SEC_WEBSOCKET_KEY else
       eNOTFOUND))))
     else if length name = 20 then
      (if name ! 19 = CHR ''t'' \<and> streq_l_n ''sec-websocket-accep'' name 19 then SEC_WEBSOCKET_ACCEPT else
       eNOTFOUND)
     else eNOTFOUND)"

definition lookup_header :: "string \<Rightarrow> HttpHeader" where
  "lookup_header name =
    (if length name = 2 then
      (if name ! 1 = CHR ''e'' \<and> streq_l_n ''t'' name 1 then TE else
       eNOTFOUND)
     else if length name = 3 then
      (if name ! 2 = CHR ''a'' \<and> streq_l_n ''vi'' name 2 then VIA else
       eNOTFOUND)
     else if length name = 4 then
      (if name ! 3 = CHR ''e'' \<and> streq_l_n ''dat'' name 3 then DATE else
      (if name ! 3 = CHR ''k'' \<and> streq_l_n ''lin'' name 3 then LINK else
      (if name ! 3 = CHR ''t'' \<and> streq_l_n ''hos'' name 3 then HOST else
       eNOTFOUND)))
     else if length name = 5 then
      (if name ! 4 = CHR ''h'' \<and> streq_l_n '':pat'' name 4 then pPATH else
      (if name ! 4 = CHR ''t'' \<and> streq_l_n '':hos'' name 4 then HOST else
       eNOTFOUND))
     else if length name = 6 then
      (if name ! 5 = CHR ''e'' \<and> streq_l_n ''cooki'' name 5 then COOKIE else
      (if name ! 5 = CHR ''r'' \<and> streq_l_n ''serve'' name 5 then SERVER else
      (if name ! 5 = CHR ''t'' \<and> streq_l_n ''expec'' name 5 then EXPECT else
       eNOTFOUND)))
     else if length name = 7 then
      (if name ! 6 = CHR ''c'' \<and> streq_l_n ''alt-sv'' name 6 then ALT_SVC else
      (if name ! 6 = CHR ''d'' \<and> streq_l_n '':metho'' name 6 then pMETHOD else
      (if name ! 6 = CHR ''e'' \<and> streq_l_n '':schem'' name 6 then pSCHEME else
      (if name ! 6 = CHR ''e'' \<and> streq_l_n ''upgrad'' name 6 then UPGRADE else
      (if name ! 6 = CHR ''r'' \<and> streq_l_n ''traile'' name 6 then TRAILER else
      (if name ! 6 = CHR ''s'' \<and> streq_l_n '':statu'' name 6 then pSTATUS else
       eNOTFOUND))))))
     else if length name = 8 then
      (if name ! 7 = CHR ''n'' \<and> streq_l_n ''locatio'' name 7 then LOCATION else
       eNOTFOUND)
     else if length name = 9 then
      (if name ! 8 = CHR ''d'' \<and> streq_l_n ''forwarde'' name 8 then FORWARDED else
      (if name ! 8 = CHR ''l'' \<and> streq_l_n '':protoco'' name 8 then pPROTOCOL else
       eNOTFOUND))
     else lookup_header_long name)"

section \<open>The switch is a table lookup\<close>

definition header_table :: "(string \<times> HttpHeader) list" where
  "header_table =
    [(''te'', TE),
     (''via'', VIA),
     (''date'', DATE),
     (''link'', LINK),
     (''host'', HOST),
     ('':path'', pPATH),
     ('':host'', HOST),
     (''cookie'', COOKIE),
     (''server'', SERVER),
     (''expect'', EXPECT),
     (''alt-svc'', ALT_SVC),
     ('':method'', pMETHOD),
     ('':scheme'', pSCHEME),
     (''upgrade'', UPGRADE),
     (''trailer'', TRAILER),
     ('':status'', pSTATUS),
     (''location'', LOCATION),
     (''forwarded'', FORWARDED),
     ('':protocol'', pPROTOCOL),
     (''early-data'', EARLY_DATA),
     (''keep-alive'', KEEP_ALIVE),
     (''connection'', CONNECTION),
     (''user-agent'', USER_AGENT),
     ('':authority'', pAUTHORITY),
     (''content-type'', CONTENT_TYPE),
     (''cache-control'', CACHE_CONTROL),
     (''content-length'', CONTENT_LENGTH),
     (''http2-settings'', HTTP2_SETTINGS),
     (''accept-language'', ACCEPT_LANGUAGE),
     (''accept-encoding'', ACCEPT_ENCODING),
     (''x-forwarded-for'', X_FORWARDED_FOR),
     (''proxy-connection'', PROXY_CONNECTION),
     (''if-modified-since'', IF_MODIFIED_SINCE),
     (''transfer-encoding'', TRANSFER_ENCODING),
     (''x-forwarded-proto'', X_FORWARDED_PROTO),
     (''sec-websocket-key'', SEC_WEBSOCKET_KEY),
     (''sec-websocket-accept'', SEC_WEBSOCKET_ACCEPT)]"

text \<open>The name with all bytes but the last folded to lower case: what the switch looks at.\<close>

definition fold_name :: "string \<Rightarrow> string" where
  "fold_name name = map to_lower (butlast name) @ drop (length name - 1) name"

lemma length_fold_name [simp]: "length (fold_name name) = length name"
  by (simp add: fold_name_def)

lemma fold_name_lower: "map to_lower name = name \<Longrightarrow> fold_name name = name"
  by (cases name rule: rev_cases) (auto simp: fold_name_def)

lemma case_test:
  assumes "length name = n" and "n = Suc k" and "length lit = k" and "map to_lower lit = lit"
  shows "name ! k = c \<and> streq_l_n lit name k \<longleftrightarrow> fold_name name = lit @ [c]"
proof -
  obtain u d where name: "name = u @ [d]" and "length u = k"
    using assms(1,2) by (metis length_Suc_conv_rev)
  then show ?thesis
    using assms(3,4) by (auto simp: fold_name_def streq_l_n_def streq_l_iff)
qed

lemma length_neq: "length s \<noteq> length t \<Longrightarrow> (s = t) = False"
  by auto

lemma to_lower_lit:
  "to_lower CHR ''a'' = CHR ''a''" "to_lower CHR ''b'' = CHR ''b''"
  "to_lower CHR ''c'' = CHR ''c''" "to_lower CHR ''d'' = CHR ''d''"
  "to_lower CHR ''e'' = CHR ''e''" "to_lower CHR ''f'' = CHR ''f''"
  "to_lower CHR ''g'' = CHR ''g''" "to_lower CHR ''h'' = CHR ''h''"
  "to_lower CHR ''i'' = CHR ''i''" "to_lower CHR ''j'' = CHR ''j''"
  "to_lower CHR ''k'' = CHR ''k''" "to_lower CHR ''l'' = CHR ''l''"
  "to_lower CHR ''m'' = CHR ''m''" "to_lower CHR ''n'' = CHR ''n''"
  "to_lower CHR ''o'' = CHR ''o''" "to_lower CHR ''p'' = CHR ''p''"
  "to_lower CHR ''q'' = CHR ''q''" "to_lower CHR ''r'' = CHR ''r''"
  "to_lower CHR ''s'' = CHR ''s''" "to_lower CHR ''t'' = CHR ''t''"
  "to_lower CHR ''u'' = CHR ''u''" "to_lower CHR ''v'' = CHR ''v''"
  "to_lower CHR ''w'' = CHR ''w''" "to_lower CHR ''x'' = CHR ''x''"
  "to_lower CHR ''y'' = CHR ''y''" "to_lower CHR ''z'' = CHR ''z''"
  "to_lower CHR ''0'' = CHR ''0''" "to_lower CHR ''1'' = CHR ''1''"
  "to_lower CHR ''2'' = CHR ''2''" "to_lower CHR ''3'' = CHR ''3''"
  "to_lower CHR ''4'' = CHR ''4''" "to_lower CHR ''5'' = CHR ''5''"
  "to_lower CHR ''6'' = CHR ''6''" "to_lower CHR ''7'' = CHR ''7''"
  "to_lower CHR ''8'' = CHR ''8''" "to_lower CHR ''9'' = CHR ''9''"
  "to_lower CHR ''-'' = CHR ''-''" "to_lower CHR '':'' = CHR '':''"
  by (simp_all add: to_lower_fixed is_upper_code)

lemmas lookup_simps = case_test to_lower_lit header_table_def length_neq

lemma lookup_header_long_table:
  assumes "10 \<le> length name"
  shows "lookup_header_long name =
     (case map_of header_table (fold_name name) of Some h \<Rightarrow> h | None \<Rightarrow> eNOTFOUND)"
proof -
  have "length name = 10 \<or> length name = 12 \<or> length name = 13 \<or> length name = 14 \<or>
      length name = 15 \<or> length name = 16 \<or> length name = 17 \<or> length name = 20 \<or>
      length name \<notin> {10, 12, 13, 14, 15, 16, 17, 20}"
    by blast
  then show ?thesis
    using assms by (elim disjE) (simp_all add: lookup_header_long_def lookup_simps)
qed

lemma lookup_header_eq_table:
  "lookup_header name =
     (case map_of header_table (fold_name name) of Some h \<Rightarrow> h | None \<Rightarrow> eNOTFOUND)"
proof (cases "10 \<le> length name")
  case True
  then have "lookup_header name = lookup_header_long name"
    by (simp add: lookup_header_def)
  with True show ?thesis by (simp add: lookup_header_long_table)
next
  case False
  then have "length name = 0 \<or> length name = 1 \<or> length name = 2 \<or> length name = 3 \<or> length name = 4 \<or>
      length name = 5 \<or> length name = 6 \<or> length name = 7 \<or> length name = 8 \<or> length name = 9"
    by arith
  then show ?thesis
    by (elim disjE) (simp_all add: lookup_header_def lookup_header_long_def lookup_simps)
qed

text \<open>
  On lower-case names, the only ones HTTP/2 allows, the switch is a lookup in the table of
  known headers, and every other name is \<open>eNOTFOUND\<close>; on any name it looks at all bytes but
  the last without regard to case.
\<close>

theorem lookup_header_table:
  "lookup_header (map to_lower name) =
     (case map_of header_table (map to_lower name) of Some h \<Rightarrow> h | None \<Rightarrow> eNOTFOUND) \<and>
   lookup_header name =
     (case map_of header_table (fold_name name) of Some h \<Rightarrow> h | None \<Rightarrow> eNOTFOUND)"
  by (simp add: lookup_header_eq_table fold_name_lower comp_def)

end
