(* ===== verification/Route_Path.thy ===== *)
theory Route_Path
  imports Header_Names
begin

text \<open>
  Request methods, and the pieces of a route that \<open>httprouter.cc\<close> works with: the level a path
  starts with and the path that is left (\<open>insert_path\<close> and \<open>match\<close> both cut a path this way),
  the node data a level of a route pattern stands for, and which request levels a node accepts.
  The lemmas read a path as the list of its levels.
\<close>

section \<open>Methods\<close>

datatype HttpMethod = GET | POST | PUT | HEAD | PATCH | DELETE | OPTIONS

definition method_from_string :: "string \<Rightarrow> HttpMethod" where
  "method_from_string str =
     (if streq_l str ''GET'' then GET
      else if streq_l str ''POST'' then POST
      else if streq_l str ''PUT'' then PUT
      else if streq_l str ''HEAD'' then HEAD
      else if streq_l str ''PATCH'' then PATCH
      else if streq_l str ''DELETE'' then DELETE
      else if streq_l str ''OPTIONS'' then OPTIONS
      else GET)"

text \<open>\<open>(uint32_t)method\<close>, and the bit \<open>1 << m\<close>.\<close>

primrec method_index :: "HttpMethod \<Rightarrow> nat" where
  "method_index GET = 0"
| "method_index POST = 1"
| "method_index PUT = 2"
| "method_index HEAD = 3"
| "method_index PATCH = 4"
| "method_index DELETE = 5"
| "method_index OPTIONS = 6"

definition method_bit :: "HttpMethod \<Rightarrow> 32 word" where
  "method_bit m = push_bit (method_index m) 1"

lemma method_index_less [simp]: "method_index m < 8"
  by (cases m) auto

lemma method_index_inject [simp]: "method_index m = method_index m' \<longleftrightarrow> m = m'"
  by (cases m; cases m') auto

text \<open>The methods as a finite type, so that statements about all of them are computed.\<close>

lemma UNIV_HttpMethod: "UNIV = {GET, POST, PUT, HEAD, PATCH, DELETE, OPTIONS}"
  by (auto intro: HttpMethod.exhaust)

instantiation HttpMethod :: enum
begin

definition enum_HttpMethod_def:
  "Enum.enum = [GET, POST, PUT, HEAD, PATCH, DELETE, OPTIONS]"

definition enum_all_HttpMethod_def:
  "Enum.enum_all P \<longleftrightarrow> list_all P [GET, POST, PUT, HEAD, PATCH, DELETE, OPTIONS]"

definition enum_ex_HttpMethod_def:
  "Enum.enum_ex P \<longleftrightarrow> list_ex P [GET, POST, PUT, HEAD, PATCH, DELETE, OPTIONS]"

instance
  by standard (simp_all only: enum_HttpMethod_def enum_all_HttpMethod_def enum_ex_HttpMethod_def UNIV_HttpMethod,
    simp_all)

end

primrec method_name :: "HttpMethod \<Rightarrow> string" where
  "method_name GET = ''GET''"
| "method_name POST = ''POST''"
| "method_name PUT = ''PUT''"
| "method_name HEAD = ''HEAD''"
| "method_name PATCH = ''PATCH''"
| "method_name DELETE = ''DELETE''"
| "method_name OPTIONS = ''OPTIONS''"

text \<open>
  No name is another one in another case, so the order of the comparisons does not matter; what is
  no method's name is taken for GET.
\<close>

lemma all_methods: "(\<forall>m. P m) \<longleftrightarrow> list_all P (Enum.enum :: HttpMethod list)"
  by (simp add: list_all_iff enum_UNIV)

lemma method_names_differ: "\<forall>m m'. streq_l (method_name m) (method_name m') \<longrightarrow> m = m'"
proof -
  have "to_lower x = to_lower y \<longleftrightarrow> code (to_lower x) = code (to_lower y)" for x y by (simp add: code_eq_iff)
  then show ?thesis by (simp add: all_methods enum_HttpMethod_def streq_l_iff code_to_lower is_upper_code)
qed

lemma method_from_string_name: "streq_l str (method_name m) \<Longrightarrow> method_from_string str = m"
proof -
  assume str: "streq_l str (method_name m)"
  then have "streq_l str (method_name m') \<longleftrightarrow> m' = m" for m'
    using method_names_differ by (auto simp: streq_l_iff)
  then have "streq_l str ''GET'' \<longleftrightarrow> GET = m" "streq_l str ''POST'' \<longleftrightarrow> POST = m" "streq_l str ''PUT'' \<longleftrightarrow> PUT = m"
    "streq_l str ''HEAD'' \<longleftrightarrow> HEAD = m" "streq_l str ''PATCH'' \<longleftrightarrow> PATCH = m"
    "streq_l str ''DELETE'' \<longleftrightarrow> DELETE = m" "streq_l str ''OPTIONS'' \<longleftrightarrow> OPTIONS = m"
    by (metis method_name.simps)+
  then show ?thesis by (cases m) (simp_all add: method_from_string_def)
qed

lemma method_from_string_other: "\<forall>m. \<not> streq_l str (method_name m) \<Longrightarrow> method_from_string str = GET"
  by (simp add: all_methods enum_HttpMethod_def method_from_string_def)

section \<open>Node data\<close>

datatype NodeType = ROOT | CONSTANT | PARAM_INT | PARAM_FLOAT | PARAM_STRING

record RouteNodeData =
  dtype :: NodeType
  label :: string

text \<open>\<open>operator==(const RouteNodeData &, const RouteNodeData &)\<close>.\<close>

definition data_eq :: "RouteNodeData \<Rightarrow> RouteNodeData \<Rightarrow> bool" where
  "data_eq a b \<longleftrightarrow> dtype a = dtype b \<and> (dtype a = ROOT \<or> label a = label b)"

definition is_param :: "RouteNodeData \<Rightarrow> bool" where
  "is_param d \<longleftrightarrow> dtype d \<in> {PARAM_FLOAT, PARAM_INT, PARAM_STRING}"

text \<open>
  The data of a non-empty pattern level: a parameter when it is braced, with an optional type
  after a colon; the level itself otherwise.
\<close>

definition parse_level :: "string \<Rightarrow> RouteNodeData" where
  "parse_level level =
     (if hd level = CHR ''{'' \<and> last level = CHR ''}'' then
        (let type_end = length level - 1 in
         case find_char (CHR '':'') level of
           None \<Rightarrow> \<lparr>dtype = PARAM_STRING, label = take (type_end - 1) (drop 1 level)\<rparr>
         | Some type_beg \<Rightarrow>
             (let type = take (type_end - type_beg - 1) (drop (type_beg + 1) level) in
              \<lparr>dtype = (if type = ''int'' then PARAM_INT
                       else if type = ''float'' then PARAM_FLOAT
                       else PARAM_STRING),
               label = take (type_beg - 1) (drop 1 level)\<rparr>))
      else \<lparr>dtype = CONSTANT, label = level\<rparr>)"

section \<open>Which levels a node accepts\<close>

text \<open>The loop over a level at a float node: digits and at most one dot.\<close>

fun float_ok :: "nat \<Rightarrow> string \<Rightarrow> bool" where
  "float_ok n_dot [] = True"
| "float_ok n_dot (ch # s) =
     (if \<not> is_digit ch \<and> ch \<noteq> CHR ''.'' then False
      else if ch = CHR ''.'' then (if n_dot \<noteq> 0 then False else float_ok (n_dot + 1) s)
      else float_ok n_dot s)"

definition accepts :: "RouteNodeData \<Rightarrow> string \<Rightarrow> bool" where
  "accepts d level =
     (case dtype d of
        ROOT \<Rightarrow> True
      | CONSTANT \<Rightarrow> label d = ''*'' \<or> label d = level
      | PARAM_INT \<Rightarrow> list_all is_digit level
      | PARAM_FLOAT \<Rightarrow> float_ok 0 level
      | PARAM_STRING \<Rightarrow> True)"

lemma float_ok_iff:
  "float_ok n s \<longleftrightarrow> list_all (\<lambda>c. is_digit c \<or> c = CHR ''.'') s \<and>
     length (filter (\<lambda>c. c = CHR ''.'') s) + n \<le> max 1 n"
  by (induction n s rule: float_ok.induct) auto

section \<open>Cutting a path\<close>

text \<open>
  \<open>end = path.find_first_of('/', 1)\<close>, \<open>level = path.substr(1, end - 1)\<close> and
  \<open>next_path\<close>, which is \<open>"/"\<close> when no second slash is found.
\<close>

definition split_level :: "string \<Rightarrow> string \<times> string" where
  "split_level path =
     (case find_from (CHR ''/'') 1 path of
        None \<Rightarrow> (drop 1 path, ''/'')
      | Some end' \<Rightarrow> (take (end' - 1) (drop 1 path), drop end' path))"

text \<open>A path as the list of its levels, and back.\<close>

definition join :: "string list \<Rightarrow> string" where
  "join ss = concat (map (\<lambda>s. CHR ''/'' # s) ss)"

fun pieces :: "string \<Rightarrow> string list" where
  "pieces [] = [[]]"
| "pieces (c # s) =
     (case pieces s of
        [] \<Rightarrow> []
      | p # ps \<Rightarrow> (if c = CHR ''/'' then [] # p # ps else (c # p) # ps))"

definition levels :: "string \<Rightarrow> string list" where
  "levels path = pieces (drop 1 path)"

definition plain :: "string \<Rightarrow> bool" where
  "plain s \<longleftrightarrow> CHR ''/'' \<notin> set s"

lemma join_Nil [simp]: "join [] = []"
  by (simp add: join_def)

lemma join_Cons [simp]: "join (s # ss) = CHR ''/'' # s @ join ss"
  by (simp add: join_def)

lemma join_eq_Nil [simp]: "join ss = [] \<longleftrightarrow> ss = []"
  by (cases ss) auto

lemma join_eq_slash [simp]: "join ss = ''/'' \<longleftrightarrow> ss = [[]]"
  by (cases ss; cases "tl ss") auto

lemma split_level_join:
  assumes "plain s"
  shows "split_level (join (s # ss)) = (s, if ss = [] then ''/'' else join ss)"
proof (cases ss)
  case Nil
  with assms show ?thesis
    by (simp add: split_level_def find_from_def find_char_None [THEN iffD2] plain_def)
next
  case (Cons t ts)
  with assms have "find_char (CHR ''/'') (s @ join ss) = Some (length s)"
    by (simp add: find_char_split plain_def)
  with Cons show ?thesis by (simp add: split_level_def find_from_def)
qed

lemma pieces_neq_Nil [simp]: "pieces s \<noteq> []"
  by (induction s) (auto split: list.splits)

lemma plain_pieces: "list_all plain (pieces s)"
proof (induction s)
  case (Cons c s)
  then show ?case by (cases "pieces s") (auto simp: plain_def)
qed (simp add: plain_def)

lemma join_pieces: "join (pieces s) = CHR ''/'' # s"
proof (induction s)
  case (Cons c s)
  then show ?case by (cases "pieces s") auto
qed simp

text \<open>Every path that begins with a slash is the join of its levels.\<close>

lemma join_levels: "path \<noteq> [] \<Longrightarrow> hd path = CHR ''/'' \<Longrightarrow> join (levels path) = path"
  by (cases path) (auto simp: levels_def join_pieces)

lemma levels_neq_Nil [simp]: "levels path \<noteq> []"
  by (simp add: levels_def)

lemma plain_levels: "list_all plain (levels path)"
  by (simp add: levels_def plain_pieces)

lemma split_level_shorter:
  "(level, next_path) = split_level path \<Longrightarrow> path \<noteq> [] \<Longrightarrow> next_path \<noteq> ''/'' \<Longrightarrow>
     length next_path < length path"
  by (auto simp: split_level_def find_from_def split: option.splits)

end
