(* ===== verification/Router.thy ===== *)
theory Router
  imports Route_Path
begin

unbundle bit_operations_syntax

text \<open>
  The route tree of \<open>httprouter.cc\<close>: \<open>RouteNode\<close>, \<open>insert_path\<close>, \<open>match\<close>, and
  \<open>HttpRouter\<close> with \<open>add_route\<close> and \<open>dispatch_route\<close>; \<open>HttpRequest::get_param\<close> reads
  the router's tables and is here too.

  Two members have no initialiser in the constructors the code uses: \<open>methods\<close> of the root and of
  a node built from \<open>RouteNodeData\<close>, and the eight slots of \<open>route_index\<close>. The value found in
  the first is a parameter (\<open>junk\<close>, by the handler index and the path being inserted when the node
  is built); a slot is an option, and reading an empty one is \<open>Undefined\<close>. Failed assertions are
  \<open>Assertion\<close>: the build sets no \<open>NDEBUG\<close>.
\<close>

section \<open>The tree\<close>

datatype RouteNode =
  RouteNode (ndata: RouteNodeData) (terminal: bool) (methods: "32 word")
    (route_index: "16 word option list") (children: "RouteNode list")

type_synonym junk = "nat \<Rightarrow> string \<Rightarrow> 32 word"

text \<open>\<open>RouteNode()\<close>: the label is empty, \<open>methods\<close> and \<open>route_index\<close> are not set.\<close>

definition new_root :: "32 word \<Rightarrow> RouteNode" where
  "new_root garbage = RouteNode \<lparr>dtype = ROOT, label = []\<rparr> False garbage (replicate 8 None) []"

definition find_child :: "RouteNodeData \<Rightarrow> RouteNode list \<Rightarrow> nat option" where
  "find_child d cs = find_if (\<lambda>c. data_eq (ndata c) d) cs"

definition set_slot :: "HttpMethod \<Rightarrow> nat \<Rightarrow> 16 word option list \<Rightarrow> 16 word option list" where
  "set_slot m handler_index ri = ri[method_index m := Some (of_nat handler_index)]"

text \<open>
  The last step on an existing child: \<open>terminal = true\<close>, the method's bit, the slot.
\<close>

definition make_terminal :: "HttpMethod \<Rightarrow> nat \<Rightarrow> RouteNode \<Rightarrow> RouteNode" where
  "make_terminal m h c =
     RouteNode (ndata c) True (methods c OR method_bit m) (set_slot m h (route_index c)) (children c)"

function insert_path :: "junk \<Rightarrow> HttpMethod \<Rightarrow> string \<Rightarrow> nat \<Rightarrow> RouteNode \<Rightarrow> RouteNode res" where
  "insert_path junk m path h (RouteNode d t ms ri cs) =
     (let ms' = ms OR method_bit m in
      if path = [] then Inl Undefined
      else if hd path \<noteq> CHR ''/'' then Inl Assertion
      else
        (let (level, next_path) = split_level path in
         if level \<noteq> [] then
           (let new_data = parse_level level; is_terminal = (next_path = ''/'') in
            case find_child new_data cs of
              None \<Rightarrow>
                if \<not> is_terminal then
                  bindE (insert_path junk m next_path h
                           (RouteNode new_data False (junk h path) (replicate 8 None) []))
                    (\<lambda>child. Inr (RouteNode d t ms' ri (cs @ [child])))
                else
                  Inr (RouteNode d t ms' ri
                    (cs @ [RouteNode new_data True (method_bit m) (set_slot m h (replicate 8 None)) []]))
            | Some i \<Rightarrow>
                if \<not> is_terminal then
                  bindE (insert_path junk m next_path h (cs ! i))
                    (\<lambda>child. Inr (RouteNode d t ms' ri (cs[i := child])))
                else Inr (RouteNode d t ms' ri (cs[i := make_terminal m h (cs ! i)])))
         else if dtype d = ROOT then Inr (RouteNode d True ms' (set_slot m h ri) cs)
         else Inl Assertion))"
  by pat_completeness auto
termination
  by (relation "measure (\<lambda>(junk, m, path, h, n). length path)") (auto intro: split_level_shorter)

declare insert_path.simps [simp del]

section \<open>Matching\<close>

text \<open>
  \<open>npos\<close> is \<open>None\<close>. The vector \<open>vars\<close> is shared by the whole descent and is passed on and
  returned.
\<close>

fun match_node :: "HttpMethod \<Rightarrow> string \<Rightarrow> string list \<Rightarrow> RouteNode \<Rightarrow> (nat option \<times> string list) res"
  and match_children ::
    "HttpMethod \<Rightarrow> string \<Rightarrow> string list \<Rightarrow> RouteNode list \<Rightarrow> (nat option \<times> string list) res"
where
  "match_node m path vars (RouteNode d t ms ri cs) =
     (if ms AND method_bit m = 0 then Inr (None, vars)
      else if path = [] then Inl Undefined
      else if hd path \<noteq> CHR ''/'' then Inl Assertion
      else
        (let (level, rest) = split_level path;
             next_path = (if dtype d = ROOT then path else rest) in
         if \<not> accepts d level then Inr (None, vars)
         else
           (let vars' = (if is_param d then vars @ [level] else vars) in
            bindE (if next_path \<noteq> ''/'' then match_children m next_path vars' cs
                   else Inr (None, vars'))
              (\<lambda>(r, vars'').
                case r of
                  Some i \<Rightarrow> Inr (Some i, vars'')
                | None \<Rightarrow>
                    if t then
                      (case ri ! method_index m of
                         None \<Rightarrow> Inl Undefined
                       | Some w \<Rightarrow> Inr (Some (unat w), vars''))
                    else Inr (None, if is_param d then butlast vars'' else vars'')))))"
| "match_children m path vars [] = Inr (None, vars)"
| "match_children m path vars (c # cs) =
     bindE (match_node m path vars c)
       (\<lambda>(r, vars'). case r of
          Some i \<Rightarrow> Inr (Some i, vars')
        | None \<Rightarrow> match_children m path vars' cs)"

declare match_node.simps [simp del]

section \<open>The router\<close>

datatype HandlerKind = Func | CoroFunc

record HttpRouter =
  router_root :: RouteNode
  handlers :: "HandlerKind list"
  route_paths :: "string list"

definition new_router :: "32 word \<Rightarrow> HttpRouter" where
  "new_router garbage = \<lparr>router_root = new_root garbage, handlers = [], route_paths = []\<rparr>"

definition add_route :: "junk \<Rightarrow> HttpMethod \<Rightarrow> string \<Rightarrow> HandlerKind \<Rightarrow> HttpRouter \<Rightarrow> HttpRouter res" where
  "add_route junk m route_path handler r =
     (if length (handlers r) \<noteq> length (route_paths r) then Inl Assertion
      else
        (let handler_index = length (handlers r) in
         bindE (insert_path junk m route_path handler_index (router_root r))
           (\<lambda>root'. Inr \<lparr>router_root = root', handlers = handlers r @ [handler],
                         route_paths = route_paths r @ [route_path]\<rparr>)))"

text \<open>
  What a dispatch does: \<open>NotFound\<close> is the result \<open>false\<close>; \<open>Invoke\<close> sets the request's
  handler index, leaves the path variables in the thread's vector and calls the handler, whose
  result becomes the stream's coroutine when it is one.
\<close>

datatype dispatch = NotFound | Invoke nat HandlerKind "string list"

definition dispatch_route :: "HttpMethod \<Rightarrow> string \<Rightarrow> HttpRouter \<Rightarrow> dispatch res" where
  "dispatch_route m path r =
     bindE (match_node m path [] (router_root r))
       (\<lambda>(index, vars). case index of
          None \<Rightarrow> Inr NotFound
        | Some i \<Rightarrow>
            if i < length (handlers r) then Inr (Invoke i (handlers r ! i) vars)
            else Inl Undefined)"

text \<open>
  \<open>HttpRequest::get_param\<close>: walks over the opening braces of the route's text, comparing
  \<open>label.size()\<close> bytes after each with the label.
\<close>

function get_param_loop :: "string list \<Rightarrow> string \<Rightarrow> string \<Rightarrow> nat \<Rightarrow> string option res" where
  "get_param_loop vars lbl route index =
     (case find_char (CHR ''{'') route of
        None \<Rightarrow> Inr None
      | Some pos \<Rightarrow>
          if take (length lbl) (drop (pos + 1) route) = lbl then
            (if index < length vars then Inr (Some (vars ! index)) else Inl Undefined)
          else get_param_loop vars lbl (drop (pos + 1) route) (index + 1))"
  by pat_completeness auto
termination
  by (relation "measure (\<lambda>(vars, lbl, route, index). length route)")
    (auto dest!: find_char_SomeD)

declare get_param_loop.simps [simp del]

definition get_param :: "HttpRouter \<Rightarrow> nat \<Rightarrow> string list \<Rightarrow> string \<Rightarrow> string option res" where
  "get_param r handler_index vars lbl =
     (if handler_index < length (route_paths r)
      then get_param_loop vars lbl (route_paths r ! handler_index) 0
      else Inl Undefined)"

end
