(* ===== verification/Router_Facts.thy ===== *)
theory Router_Facts
  imports Router
begin

text \<open>
  What the route tree stores and what a match finds, over paths read as lists of levels:
  \<open>entries\<close> is the set of handlers the tree holds with the node data leading to each,
  \<open>covers\<close> says that some terminal node accepts a request.
\<close>

section \<open>The tree invariant\<close>

fun proper :: "RouteNode \<Rightarrow> bool" where
  "proper (RouteNode d t ms ri cs) \<longleftrightarrow>
     length ri = 8 \<and> (\<forall>c \<in> set cs. dtype (ndata c) \<noteq> ROOT \<and> proper c)"

fun entries :: "RouteNode \<Rightarrow> (RouteNodeData list \<times> nat \<times> 16 word) set" where
  "entries (RouteNode d t ms ri cs) =
     {([d], k, w) |k w. k < length ri \<and> ri ! k = Some w} \<union>
     (\<Union>c \<in> set cs. (\<lambda>(ds, k, w). (d # ds, k, w)) ` entries c)"

text \<open>The levels of a pattern that \<open>insert_path\<close> walks: a final empty level is dropped.\<close>

fun strip :: "string list \<Rightarrow> string list" where
  "strip [] = []"
| "strip (l # ls) = (if l = [] then [] else l # strip ls)"

definition pattern :: "string \<Rightarrow> RouteNodeData list" where
  "pattern path = map parse_level (strip (levels path))"

text \<open>
  \<open>final ss\<close>: nothing but a trailing slash is left, which the code treats as the end of the
  path. \<open>fits ds ss\<close>: the request's levels begin with ones the nodes accept, a final empty
  level not being looked at; \<open>accepted\<close> is the same from inside the first node. \<open>params\<close>:
  the request's levels at the parameters.
\<close>

definition final :: "string list \<Rightarrow> bool" where
  "final ss \<longleftrightarrow> ss = [] \<or> ss = [[]]"

fun fits :: "RouteNodeData list \<Rightarrow> string list \<Rightarrow> bool" where
  "fits [] ss = True"
| "fits (d # ds) [] = False"
| "fits (d # ds) (s # ss) \<longleftrightarrow> \<not> final (s # ss) \<and> accepts d s \<and> fits ds ss"

fun accepted :: "RouteNodeData list \<Rightarrow> string list \<Rightarrow> bool" where
  "accepted [] ss = True"
| "accepted (d # ds) [] = False"
| "accepted (d # ds) (s # ss) \<longleftrightarrow> accepts d s \<and> fits ds ss"

definition params :: "RouteNodeData list \<Rightarrow> string list \<Rightarrow> string list" where
  "params ds ss = map snd (filter (\<lambda>(d, s). is_param d) (zip ds ss))"

lemma accepted_fits: "accepted ds ss \<Longrightarrow> \<not> final ss \<Longrightarrow> fits ds ss"
  by (cases ds; cases ss) auto

lemma params_Nil [simp]: "params [] ss = []"
  by (simp add: params_def)

lemma params_Cons [simp]:
  "params (d # ds) (s # ss) = (if is_param d then [s] else []) @ params ds ss"
  by (simp add: params_def)

lemma dtype_parse_level [simp]: "dtype (parse_level l) \<noteq> ROOT" "ROOT \<noteq> dtype (parse_level l)"
  by (auto simp: parse_level_def Let_def split: option.splits)

lemma root_not_param [simp]: "dtype d = ROOT \<Longrightarrow> \<not> is_param d"
  by (auto simp: is_param_def)

lemma root_accepts [simp]: "dtype d = ROOT \<Longrightarrow> accepts d s"
  by (simp add: accepts_def)

lemma has_method: "ms AND method_bit m = 0 \<longleftrightarrow> \<not> bit ms (method_index m)"
  by (simp add: method_bit_def push_bit_of_1 and_exp_eq_0_iff_not_bit)

lemma bit_method_bit: "bit (method_bit m) k \<longleftrightarrow> k = method_index m"
proof -
  have "method_index m < 32" using method_index_less [of m] by linarith
  then show ?thesis by (auto simp: method_bit_def push_bit_of_1 bit_exp_iff)
qed

section \<open>Matching over levels\<close>

text \<open>\<open>match_node\<close> on a path given by its levels.\<close>

lemma match_node_join:
  assumes "plain s"
  shows "match_node m (join (s # ss)) vars (RouteNode d t ms ri cs) =
    (if \<not> bit ms (method_index m) \<or> \<not> accepts d s then Inr (None, vars)
     else
       (let ss' = (if dtype d = ROOT then s # ss else ss);
            vars' = (if is_param d then vars @ [s] else vars) in
        bindE (if final ss' then Inr (None, vars') else match_children m (join ss') vars' cs)
          (\<lambda>(r, vars''). case r of
             Some i \<Rightarrow> Inr (Some i, vars'')
           | None \<Rightarrow>
               if t then
                 (case ri ! method_index m of
                    None \<Rightarrow> Inl Undefined
                  | Some w \<Rightarrow> Inr (Some (unat w), vars''))
               else Inr (None, if is_param d then butlast vars'' else vars''))))"
  using split_level_join [OF assms, of ss]
  by (auto simp: match_node.simps has_method Let_def final_def)


text \<open>
  What a match leaves behind: the variables as they were when it fails; when it finds an index,
  an entry for the method whose data the request's levels fit, and the values at its parameters.
\<close>

fun outcome ::
  "HttpMethod \<Rightarrow> string list \<Rightarrow> string list \<Rightarrow> (RouteNodeData list \<times> nat \<times> 16 word) set \<Rightarrow>
     (nat option \<times> string list) res \<Rightarrow> bool" where
  "outcome m ss vars E (Inl _) = True"
| "outcome m ss vars E (Inr (None, v)) = (v = vars)"
| "outcome m ss vars E (Inr (Some i, v)) =
     (\<exists>ds w. (ds, method_index m, w) \<in> E \<and> i = unat w \<and> accepted ds ss \<and> v = vars @ params ds ss)"

lemma outcome_cases:
  assumes "outcome m ss vars E r"
  obtains (err) f where "r = Inl f" | (none) "r = Inr (None, vars)"
    | (some) ds w where "r = Inr (Some (unat w), vars @ params ds ss)"
        "(ds, method_index m, w) \<in> E" "accepted ds ss"
  using assms by (cases r; cases "fst (projr r)") auto

lemma outcome_someI:
  "(ds, method_index m, w) \<in> E \<Longrightarrow> accepted ds ss \<Longrightarrow> v = vars @ params ds ss \<Longrightarrow>
     outcome m ss vars E (Inr (Some (unat w), v))"
  by auto

lemma outcome_mono: "outcome m ss vars E r \<Longrightarrow> E \<subseteq> F \<Longrightarrow> outcome m ss vars F r"
  by (erule outcome_cases) (auto intro: outcome_someI simp del: outcome.simps(3))

lemma outcome_children:
  "\<forall>c \<in> set cs. outcome m ss vars (entries c) (match_node m (join ss) vars c) \<Longrightarrow>
   outcome m ss vars (\<Union>c \<in> set cs. entries c) (match_children m (join ss) vars cs)"
proof (induction cs)
  case (Cons c cs)
  let ?r = "match_node m (join ss) vars c"
  have c: "outcome m ss vars (entries c) ?r"
    and rest: "outcome m ss vars (\<Union>c \<in> set cs. entries c) (match_children m (join ss) vars cs)"
    using Cons by auto
  show ?case
    using c by (rule outcome_cases)
      (use rest in \<open>auto intro: outcome_mono outcome_someI simp del: outcome.simps(3)\<close>)
qed simp

text \<open>The levels a node sees: the root takes none of the path, as if fed an empty one.\<close>

definition seen :: "RouteNode \<Rightarrow> string list \<Rightarrow> string list" where
  "seen n ss = (if dtype (ndata n) = ROOT then [] # ss else ss)"

lemma match_node_outcome:
  "proper n \<Longrightarrow> ss \<noteq> [] \<Longrightarrow> list_all plain ss \<Longrightarrow>
     outcome m (seen n ss) vars (entries n) (match_node m (join ss) vars n)"
proof (induction n arbitrary: ss vars)
  case (RouteNode d t ms ri cs)
  obtain s rest where ss: "ss = s # rest" and "plain s" and "list_all plain rest"
    using RouteNode.prems by (cases ss) auto
  let ?ss = "if dtype d = ROOT then s # rest else rest"
  let ?vars = "if is_param d then vars @ [s] else vars"
  let ?down = "if final ?ss then Inr (None, ?vars) else match_children m (join ?ss) ?vars cs"
  have "outcome m ?ss ?vars (\<Union>c \<in> set cs. entries c) (match_children m (join ?ss) ?vars cs)"
    if "?ss \<noteq> []"
  proof (rule outcome_children, rule ballI)
    fix c assume c: "c \<in> set cs"
    then have "proper c" and "dtype (ndata c) \<noteq> ROOT" using RouteNode.prems by auto
    moreover have "list_all plain ?ss" using \<open>plain s\<close> \<open>list_all plain rest\<close> by simp
    ultimately have "outcome m (seen c ?ss) ?vars (entries c) (match_node m (join ?ss) ?vars c)"
      using RouteNode.IH [OF c _ that] by blast
    then show "outcome m ?ss ?vars (entries c) (match_node m (join ?ss) ?vars c)"
      using \<open>dtype (ndata c) \<noteq> ROOT\<close> by (simp add: seen_def)
  qed
  then have down: "outcome m ?ss ?vars (\<Union>c \<in> set cs. entries c) ?down"
    by (auto simp: final_def)
  let ?step = "\<lambda>(r, v). case r of Some i \<Rightarrow> Inr (Some i, v)
     | None \<Rightarrow> if t then (case ri ! method_index m of None \<Rightarrow> Inl Undefined
                          | Some w \<Rightarrow> Inr (Some (unat w), v))
                else Inr (None, if is_param d then butlast v else v)"
  have step: "match_node m (join ss) vars (RouteNode d t ms ri cs) =
      (if \<not> bit ms (method_index m) \<or> \<not> accepts d s then Inr (None, vars) else bindE ?down ?step)"
    unfolding ss match_node_join [OF \<open>plain s\<close>] Let_def by simp
  have len: "length ri = 8" using RouteNode.prems by simp
  have E: "entries (RouteNode d t ms ri cs) = {([d], k, w) |k w. k < length ri \<and> ri ! k = Some w} \<union>
     (\<Union>c \<in> set cs. (\<lambda>(ds, k, w). (d # ds, k, w)) ` entries c)" by simp
  show ?case
  proof (cases "\<not> bit ms (method_index m) \<or> \<not> accepts d s")
    case False
    then have acc: "accepts d s" by simp
    let ?E = "entries (RouteNode d t ms ri cs)" and ?seen = "seen (RouteNode d t ms ri cs) ss"
    from down show ?thesis
    proof (cases rule: outcome_cases)
      case err
      then show ?thesis using step False by simp
    next
      case none
      have here: "outcome m ?seen vars ?E (Inr (Some (unat w), ?vars))"
        if "t" "ri ! method_index m = Some w" for w
      proof (rule outcome_someI)
        show "([d], method_index m, w) \<in> ?E" using that len by simp
        show "accepted [d] ?seen" using acc by (simp add: seen_def ss)
        show "?vars = vars @ params [d] ?seen" by (simp add: seen_def ss)
      qed
      show ?thesis
        using step False here unfolding none
        by (auto simp del: entries.simps outcome.simps(3) split: option.splits)
    next
      case (some ds w)
      have "outcome m ?seen vars ?E (Inr (Some (unat w), ?vars @ params ds ?ss))"
      proof (rule outcome_someI)
        show "(d # ds, method_index m, w) \<in> ?E" using some(2) by force
        have "\<not> final ?ss" using some(1) by (auto split: if_splits)
        with some(3) have "fits ds ?ss" by (rule accepted_fits)
        then show "accepted (d # ds) ?seen" using acc by (auto simp: seen_def ss split: if_splits)
        show "?vars @ params ds ?ss = vars @ params (d # ds) ?seen" by (simp add: seen_def ss)
      qed
      then show ?thesis
        using step False unfolding some(1) by (simp del: entries.simps outcome.simps(3))
    qed
  qed (use step in auto)
qed


section \<open>Insertion over levels\<close>

text \<open>The five ways a node changes when a route is inserted, over the route's levels.\<close>

inductive inserts :: "HttpMethod \<Rightarrow> nat \<Rightarrow> string list \<Rightarrow> RouteNode \<Rightarrow> RouteNode \<Rightarrow> bool"
  for m :: HttpMethod and h :: nat where
  new_leaf:
    "l \<noteq> [] \<Longrightarrow> final ls \<Longrightarrow> find_child (parse_level l) cs = None \<Longrightarrow>
     inserts m h (l # ls) (RouteNode d t ms ri cs)
       (RouteNode d t (ms OR method_bit m) ri
         (cs @ [RouteNode (parse_level l) True (method_bit m) (set_slot m h (replicate 8 None)) []]))"
| new_branch:
    "l \<noteq> [] \<Longrightarrow> \<not> final ls \<Longrightarrow> find_child (parse_level l) cs = None \<Longrightarrow>
     inserts m h ls (RouteNode (parse_level l) False g (replicate 8 None) []) c \<Longrightarrow>
     inserts m h (l # ls) (RouteNode d t ms ri cs)
       (RouteNode d t (ms OR method_bit m) ri (cs @ [c]))"
| old_leaf:
    "l \<noteq> [] \<Longrightarrow> final ls \<Longrightarrow> find_child (parse_level l) cs = Some i \<Longrightarrow>
     inserts m h (l # ls) (RouteNode d t ms ri cs)
       (RouteNode d t (ms OR method_bit m) ri (cs[i := make_terminal m h (cs ! i)]))"
| old_branch:
    "l \<noteq> [] \<Longrightarrow> \<not> final ls \<Longrightarrow> find_child (parse_level l) cs = Some i \<Longrightarrow>
     inserts m h ls (cs ! i) c \<Longrightarrow>
     inserts m h (l # ls) (RouteNode d t ms ri cs)
       (RouteNode d t (ms OR method_bit m) ri (cs[i := c]))"
| root_itself:
    "dtype d = ROOT \<Longrightarrow>
     inserts m h ([] # ls) (RouteNode d t ms ri cs)
       (RouteNode d True (ms OR method_bit m) (set_slot m h ri) cs)"

lemma insert_path_inserts:
  "insert_path junk m (join ls) h n = Inr n' \<Longrightarrow> ls \<noteq> [] \<Longrightarrow> list_all plain ls \<Longrightarrow> inserts m h ls n n'"
proof (induction ls arbitrary: n n')
  case (Cons l ls)
  obtain d t ms ri cs where n: "n = RouteNode d t ms ri cs" by (cases n)
  have cut: "split_level (join (l # ls)) = (l, if ls = [] then ''/'' else join ls)"
    using Cons.prems(3) by (intro split_level_join) simp
  have next': "(if ls = [] then ''/'' else join ls) = ''/'' \<longleftrightarrow> final ls"
    by (simp add: final_def)
  note step = insert_path.simps [of junk m "join (l # ls)" h d t ms ri cs]
  show ?case
  proof (cases "l = []")
    case True
    then show ?thesis
      using Cons.prems(1) cut unfolding n step
      by (auto simp: Let_def split: if_splits intro: root_itself)
  next
    case l: False
    show ?thesis
    proof (cases "final ls")
      case True
      then show ?thesis
        using Cons.prems(1) cut l next' unfolding n step
        by (auto simp: Let_def split: option.splits intro: new_leaf old_leaf)
    next
      case False
      then have "ls \<noteq> []" by (auto simp: final_def)
      moreover have "list_all plain ls" using Cons.prems(3) by simp
      ultimately show ?thesis
        using Cons.prems(1) cut l next' False Cons.IH unfolding n step
        by (auto simp: Let_def fault_simps split: option.splits intro: new_branch old_branch)
    qed
  qed
qed simp

lemma find_child_SomeD:
  "find_child (parse_level l) cs = Some i \<Longrightarrow> i < length cs \<and> ndata (cs ! i) = parse_level l"
  by (auto simp: find_child_def data_eq_def dest!: find_if_SomeD intro!: RouteNodeData.equality)


lemma ndata_make_terminal [simp]: "ndata (make_terminal m h c) = ndata c"
  by (simp add: make_terminal_def)

lemma length_set_slot [simp]: "length (set_slot m h ri) = length ri"
  by (simp add: set_slot_def)

lemma proper_make_terminal: "proper c \<Longrightarrow> proper (make_terminal m h c)"
  by (cases c) (simp add: make_terminal_def)

lemma inserts_ndata: "inserts m h ls n n' \<Longrightarrow> ndata n' = ndata n"
  by (induction rule: inserts.induct) auto

lemma in_set_update: "x \<in> set (xs[i := y]) \<Longrightarrow> x = y \<or> x \<in> set xs"
  using set_update_subset_insert [of xs i y] by blast

lemma inserts_proper: "inserts m h ls n n' \<Longrightarrow> proper n \<Longrightarrow> proper n'"
proof (induction rule: inserts.induct)
  case (new_branch l ls cs g c d t ms ri)
  then show ?case by (auto dest: inserts_ndata)
next
  case (old_leaf l ls cs i d t ms ri)
  then show ?case
    by (auto dest!: in_set_update find_child_SomeD intro: proper_make_terminal)
next
  case (old_branch l ls cs i c d t ms ri)
  then show ?case
    by (auto dest!: in_set_update find_child_SomeD inserts_ndata)
qed auto

text \<open>Insertion adds at most the route's own entry.\<close>

lemma nth_set_slot:
  "k < length ri \<Longrightarrow> set_slot m h ri ! k = (if k = method_index m then Some (of_nat h) else ri ! k)"
  by (simp add: set_slot_def nth_list_update)

lemma entries_make_terminal:
  "proper c \<Longrightarrow> entries (make_terminal m h c) \<subseteq> entries c \<union> {([ndata c], method_index m, of_nat h)}"
  by (cases c) (auto simp: make_terminal_def nth_set_slot split: if_splits)

lemma inserts_entries:
  "inserts m h ls n n' \<Longrightarrow> proper n \<Longrightarrow>
     entries n' \<subseteq> entries n \<union> {(ndata n # map parse_level (strip ls), method_index m, of_nat h)}"
proof (induction rule: inserts.induct)
  case (new_leaf l ls cs d t ms ri)
  then have "strip (l # ls) = [l]" by (auto simp: final_def)
  then show ?case by (auto simp: nth_set_slot split: if_splits)
next
  case (new_branch l ls cs g c d t ms ri)
  then show ?case by (auto split: if_splits dest: inserts_ndata)
next
  case (old_leaf l ls cs i d t ms ri)
  then have c: "cs ! i \<in> set cs" "ndata (cs ! i) = parse_level l" and "strip (l # ls) = [l]"
    by (auto simp: final_def dest: find_child_SomeD)
  have "entries (make_terminal m h (cs ! i)) \<subseteq>
      entries (cs ! i) \<union> {([parse_level l], method_index m, of_nat h)}"
    using entries_make_terminal [of "cs ! i" m h] old_leaf.prems c by auto
  with c \<open>strip (l # ls) = [l]\<close> show ?case
    by (fastforce dest!: in_set_update)
next
  case (old_branch l ls cs i c d t ms ri)
  then have c: "cs ! i \<in> set cs" "ndata (cs ! i) = parse_level l"
    by (auto dest: find_child_SomeD)
  then have "entries c \<subseteq>
      entries (cs ! i) \<union> {(parse_level l # map parse_level (strip ls), method_index m, of_nat h)}"
    using old_branch by auto
  with c \<open>l \<noteq> []\<close> show ?case
    by (fastforce dest!: in_set_update)
qed (auto simp: nth_set_slot split: if_splits)


section \<open>Which requests a tree serves\<close>

text \<open>
  \<open>covers m ss n\<close>: from inside \<open>n\<close>, whose own level is first in \<open>ss\<close>, some terminal node is
  reached through nodes that carry the method's bit and accept the levels.
\<close>

fun covers :: "HttpMethod \<Rightarrow> string list \<Rightarrow> RouteNode \<Rightarrow> bool" where
  "covers m [] n = False"
| "covers m (s # ss) (RouteNode d t ms ri cs) \<longleftrightarrow>
     bit ms (method_index m) \<and> accepts d s \<and> (t \<or> (\<not> final ss \<and> (\<exists>c \<in> set cs. covers m ss c)))"

lemma covers_bit: "covers m ss n \<Longrightarrow> bit (methods n) (method_index m)"
  by (cases "(m, ss, n)" rule: covers.cases) auto

definition fails :: "(nat option \<times> string list) res \<Rightarrow> bool" where
  "fails r \<longleftrightarrow> (\<exists>v. r = Inr (None, v))"

lemma fails_children:
  assumes "\<forall>c \<in> set cs. outcome m ss vars (entries c) (match_node m (join ss) vars c)"
    and "c \<in> set cs" and "\<not> fails (match_node m (join ss) vars c)"
  shows "\<not> fails (match_children m (join ss) vars cs)"
  using assms
proof (induction cs)
  case (Cons a cs)
  then have "outcome m ss vars (entries a) (match_node m (join ss) vars a)" by simp
  then show ?case
    using Cons by (cases rule: outcome_cases) (auto simp: fails_def)
qed simp

text \<open>A tree that covers a request never answers \<open>npos\<close>.\<close>

lemma covers_not_fails:
  "covers m (seen n ss) n \<Longrightarrow> proper n \<Longrightarrow> ss \<noteq> [] \<Longrightarrow> list_all plain ss \<Longrightarrow>
     \<not> fails (match_node m (join ss) vars n)"
proof (induction n arbitrary: ss vars)
  case (RouteNode d t ms ri cs)
  obtain s rest where ss: "ss = s # rest" and s: "plain s" and rest: "list_all plain rest"
    using RouteNode.prems by (cases ss) auto
  let ?ss = "if dtype d = ROOT then s # rest else rest"
  let ?vars = "if is_param d then vars @ [s] else vars"
  have bit: "bit ms (method_index m)" and acc: "accepts d s"
    and down: "t \<or> (\<not> final ?ss \<and> (\<exists>c \<in> set cs. covers m ?ss c))"
    using RouteNode.prems(1) by (auto simp: seen_def ss split: if_splits)
  have plain: "list_all plain ?ss" using s rest by simp
  have kids: "\<forall>c \<in> set cs. outcome m ?ss ?vars (entries c) (match_node m (join ?ss) ?vars c)"
    if "?ss \<noteq> []"
    using RouteNode.prems(2) match_node_outcome [OF _ that plain] by (fastforce simp: seen_def)
  note step = match_node_join [OF s, of m rest vars d t ms ri cs]
  show ?case
  proof (cases t)
    case True
    then show ?thesis
      using step bit acc unfolding ss Let_def
      by (auto simp: fails_def fault_simps split: option.splits)
  next
    case False
    with down obtain c where c: "c \<in> set cs" "covers m ?ss c" and nf: "\<not> final ?ss" by auto
    then have ne: "?ss \<noteq> []" by (auto simp: final_def)
    have "\<not> fails (match_node m (join ?ss) ?vars c)"
      using RouteNode.IH [OF c(1) _ _ ne plain] c RouteNode.prems(2) by (auto simp: seen_def)
    then have "\<not> fails (match_children m (join ?ss) ?vars cs)"
      using fails_children [OF kids [OF ne] c(1)] by simp
    then show ?thesis
      using step bit acc nf unfolding ss Let_def
      by (auto simp: fails_def fault_simps split: option.splits)
  qed
qed

lemma covers_make_terminal:
  "covers m' ss c \<Longrightarrow> covers m' ss (make_terminal m h c)"
  by (cases c; cases ss) (auto simp: make_terminal_def bit_or_iff)

text \<open>Insertion never takes a request away from the tree \<dots>\<close>

lemma inserts_covers_mono: "inserts m h ls n n' \<Longrightarrow> covers m' ss n \<Longrightarrow> covers m' ss n'"
proof (induction arbitrary: ss rule: inserts.induct)
  case (old_leaf l ls cs i d t ms ri)
  then have i: "i < length cs" by (auto dest: find_child_SomeD)
  have "\<exists>c \<in> set (cs[i := make_terminal m h (cs ! i)]). covers m' rs c"
    if "c \<in> set cs" "covers m' rs c" for c rs
    using that i covers_make_terminal [of m' rs c m h]
    by (metis in_set_conv_nth length_list_update nth_list_update_eq nth_list_update_neq)
  then show ?case using old_leaf.prems by (cases ss) (auto simp: bit_or_iff)
next
  case (old_branch l ls cs i c d t ms ri)
  then have i: "i < length cs" by (auto dest: find_child_SomeD)
  have "\<exists>c \<in> set (cs[i := c]). covers m' rs c" if "a \<in> set cs" "covers m' rs a" for a rs
    using that i old_branch.IH
    by (metis in_set_conv_nth length_list_update nth_list_update_eq nth_list_update_neq)
  then show ?case using old_branch.prems by (cases ss) (auto simp: bit_or_iff)
next
  case (new_leaf l ls cs d t ms ri)
  then show ?case by (cases ss) (auto simp: bit_or_iff)
next
  case (new_branch l ls cs g c d t ms ri)
  then show ?case by (cases ss) (auto simp: bit_or_iff)
next
  case (root_itself d ls t ms ri cs)
  then show ?case by (cases ss) (auto simp: bit_or_iff)
qed

text \<open>\dots and adds the requests that fit the route's pattern.\<close>

lemma inserts_covers_new:
  "inserts m h ls n n' \<Longrightarrow> accepts (ndata n) s \<Longrightarrow> fits (map parse_level (strip ls)) ss \<Longrightarrow>
     covers m (s # ss) n'"
proof (induction arbitrary: s ss rule: inserts.induct)
  case (new_leaf l ls cs d t ms ri)
  then have "strip (l # ls) = [l]" by (auto simp: final_def)
  then show ?case
    using new_leaf.prems by (cases ss) (auto simp: bit_or_iff bit_method_bit)
next
  case (new_branch l ls cs g c d t ms ri)
  then show ?case by (cases ss) (auto simp: bit_or_iff bit_method_bit)
next
  case (old_leaf l ls cs i d t ms ri)
  then have "strip (l # ls) = [l]" and i: "i < length cs" "ndata (cs ! i) = parse_level l"
    by (auto simp: final_def dest: find_child_SomeD)
  obtain s' rest where ss: "ss = s' # rest" "\<not> final ss" "accepts (parse_level l) s'"
    using old_leaf.prems(2) \<open>strip (l # ls) = [l]\<close> by (cases ss) auto
  then have "covers m ss (make_terminal m h (cs ! i))"
    using i by (simp add: make_terminal_def bit_or_iff bit_method_bit)
  moreover have "make_terminal m h (cs ! i) \<in> set (cs[i := make_terminal m h (cs ! i)])"
    using i by (simp add: set_update_memI)
  ultimately show ?case
    using old_leaf.prems(1) ss(2) by (auto simp: bit_or_iff bit_method_bit)
next
  case (old_branch l ls cs i c d t ms ri)
  then have i: "i < length cs" "ndata (cs ! i) = parse_level l" by (auto dest: find_child_SomeD)
  obtain s' rest where ss: "ss = s' # rest" "\<not> final ss" "accepts (parse_level l) s'"
      "fits (map parse_level (strip ls)) rest"
    using old_branch.prems(2) old_branch.hyps(1) by (cases ss) auto
  then have "covers m ss c" using old_branch.IH i by simp
  moreover have "c \<in> set (cs[i := c])" using i by (simp add: set_update_memI)
  ultimately show ?case
    using old_branch.prems(1) ss(2) by (auto simp: bit_or_iff bit_method_bit)
next
  case (root_itself d ls t ms ri cs)
  then show ?case by (simp add: bit_or_iff bit_method_bit)
qed


section \<open>When no uninitialised slot is read\<close>

text \<open>Every terminal node has the method's slot set.\<close>

fun filled :: "HttpMethod \<Rightarrow> RouteNode \<Rightarrow> bool" where
  "filled m (RouteNode d t ms ri cs) \<longleftrightarrow>
     (t \<longrightarrow> ri ! method_index m \<noteq> None) \<and> (\<forall>c \<in> set cs. filled m c)"

lemma filled_make_terminal: "filled m c \<Longrightarrow> proper c \<Longrightarrow> filled m (make_terminal m h c)"
  by (cases c) (simp add: make_terminal_def nth_set_slot)

lemma inserts_filled: "inserts m h ls n n' \<Longrightarrow> proper n \<Longrightarrow> filled m n \<Longrightarrow> filled m n'"
proof (induction rule: inserts.induct)
  case (old_leaf l ls cs i d t ms ri)
  then show ?case
    by (auto dest!: in_set_update find_child_SomeD intro: filled_make_terminal)
next
  case (old_branch l ls cs i c d t ms ri)
  then show ?case by (auto dest!: in_set_update find_child_SomeD)
qed (auto simp: nth_set_slot)

lemma total_children:
  "\<forall>c \<in> set cs. \<forall>vars. \<exists>x. match_node m path vars c = Inr x \<Longrightarrow>
     \<exists>x. match_children m path vars cs = Inr x"
proof (induction cs arbitrary: vars)
  case (Cons c cs)
  then obtain i v where "match_node m path vars c = Inr (i, v)" by (auto, metis surj_pair)
  with Cons show ?case by (cases i) auto
qed simp

lemma total_if: "(\<not> b \<Longrightarrow> \<exists>x. r = Inr x) \<Longrightarrow> \<exists>x. (if b then Inr y else r) = Inr x"
  by auto

lemma filled_total:
  "filled m n \<Longrightarrow> ss \<noteq> [] \<Longrightarrow> list_all plain ss \<Longrightarrow> \<exists>x. match_node m (join ss) vars n = Inr x"
proof (induction n arbitrary: ss vars)
  case (RouteNode d t ms ri cs)
  obtain s rest where ss: "ss = s # rest" and s: "plain s" and rest: "list_all plain rest"
    using RouteNode.prems by (cases ss) auto
  let ?ss = "if dtype d = ROOT then s # rest else rest"
  let ?vars = "if is_param d then vars @ [s] else vars"
  have "\<exists>x. match_children m (join ?ss) ?vars cs = Inr x" if "\<not> final ?ss"
  proof (rule total_children, intro ballI allI)
    fix c v assume "c \<in> set cs"
    moreover have "?ss \<noteq> []" using that by (auto simp: final_def)
    moreover have "list_all plain ?ss" using s rest by simp
    ultimately show "\<exists>x. match_node m (join ?ss) v c = Inr x"
      using RouteNode.IH RouteNode.prems(1) by simp
  qed
  then have "\<exists>x. (if final ?ss then Inr (None, ?vars) else match_children m (join ?ss) ?vars cs) = Inr x"
    by (rule total_if)
  then obtain i v where
    down: "(if final ?ss then Inr (None, ?vars) else match_children m (join ?ss) ?vars cs) = Inr (i, v)"
    by (metis surj_pair)
  show ?case
    using RouteNode.prems(1) match_node_join [OF s, of m rest vars d t ms ri cs]
    unfolding ss Let_def down by (auto split: option.splits)
qed

end
