(* ===== verification/Route_Dispatch.thy ===== *)
theory Route_Dispatch
  imports Router_Facts
begin

text \<open>
  The router as its users see it: routes registered one after the other with \<open>add_route\<close>
  (through \<open>Server::get\<close> and \<open>Server::post\<close>) and requests dispatched. The properties of this
  file relate a dispatch to the list of registered routes and to nothing else.
\<close>

type_synonym route = "HttpMethod \<times> string \<times> HandlerKind"

fun add_routes :: "junk \<Rightarrow> route list \<Rightarrow> HttpRouter \<Rightarrow> HttpRouter res" where
  "add_routes junk [] r = Inr r"
| "add_routes junk ((m, p, k) # rs) r = bindE (add_route junk m p k r) (add_routes junk rs)"

section \<open>The router invariant\<close>

definition router_inv :: "route list \<Rightarrow> HttpRouter \<Rightarrow> bool" where
  "router_inv rs r \<longleftrightarrow>
     handlers r = map (\<lambda>(m, p, k). k) rs \<and> route_paths r = map (\<lambda>(m, p, k). p) rs \<and>
     proper (router_root r) \<and> dtype (ndata (router_root r)) = ROOT \<and>
     (\<forall>(ds, j, w) \<in> entries (router_root r). \<exists>i m p k. i < length rs \<and> rs ! i = (m, p, k) \<and>
        ds = ndata (router_root r) # pattern p \<and> j = method_index m \<and> w = of_nat i) \<and>
     (\<forall>(m, p, k) \<in> set rs. \<forall>ss. fits (pattern p) ss \<longrightarrow> covers m ([] # ss) (router_root r))"

lemma router_inv_new: "router_inv [] (new_router g)"
  by (auto simp: router_inv_def new_router_def new_root_def)

lemma insert_path_rooted:
  "insert_path junk m path h n = Inr n' \<Longrightarrow> path \<noteq> [] \<and> hd path = CHR ''/''"
  by (cases n) (auto simp: insert_path.simps Let_def split: if_splits)

lemma insert_path_levels:
  assumes "insert_path junk m path h n = Inr n'"
  shows "inserts m h (levels path) n n'"
  using insert_path_inserts [of junk m "levels path" h n n'] assms insert_path_rooted [OF assms]
  by (simp add: join_levels plain_levels)

lemma router_inv_add:
  assumes inv: "router_inv rs r" and add: "add_route junk m p k r = Inr r'"
  shows "router_inv (rs @ [(m, p, k)]) r'"
proof -
  let ?n = "router_root r" and ?n' = "router_root r'"
  have r': "handlers r' = handlers r @ [k]" "route_paths r' = route_paths r @ [p]"
    and ins: "inserts m (length rs) (levels p) ?n ?n'"
    using add inv insert_path_levels
    by (auto simp: add_route_def router_inv_def fault_simps Let_def split: if_splits)
  have nd: "ndata ?n' = ndata ?n" using ins by (rule inserts_ndata)
  have pr: "proper ?n'" using ins inv by (auto simp: router_inv_def intro: inserts_proper)
  have "entries ?n' \<subseteq> entries ?n \<union> {(ndata ?n # pattern p, method_index m, of_nat (length rs))}"
    using inserts_entries [OF ins] inv by (simp add: router_inv_def pattern_def)
  then have en: "\<exists>i m' p' k'. i < length (rs @ [(m, p, k)]) \<and> (rs @ [(m, p, k)]) ! i = (m', p', k') \<and>
      ds = ndata ?n' # pattern p' \<and> j = method_index m' \<and> w = of_nat i"
    if "(ds, j, w) \<in> entries ?n'" for ds j w
  proof (cases "(ds, j, w) \<in> entries ?n")
    case True
    then obtain i m' p' k' where "i < length rs" "rs ! i = (m', p', k')"
      "ds = ndata ?n # pattern p'" "j = method_index m'" "w = of_nat i"
      using inv unfolding router_inv_def by blast
    then show ?thesis
      unfolding nd by (intro exI [of _ i] exI [of _ m'] exI [of _ p'] exI [of _ k']) (simp add: nth_append)
  next
    case False
    with that \<open>entries ?n' \<subseteq> _\<close> have "ds = ndata ?n # pattern p" "j = method_index m" "w = of_nat (length rs)"
      by auto
    then show ?thesis
      unfolding nd by (intro exI [of _ "length rs"] exI [of _ m] exI [of _ p] exI [of _ k]) simp
  qed
  have "covers m ([] # ss) ?n'" if "fits (pattern p) ss" for ss
    using inserts_covers_new [OF ins] that inv by (simp add: router_inv_def pattern_def)
  then have "\<forall>(m', p', k') \<in> set (rs @ [(m, p, k)]). \<forall>ss. fits (pattern p') ss \<longrightarrow> covers m' ([] # ss) ?n'"
    using inv inserts_covers_mono [OF ins] by (fastforce simp: router_inv_def)
  then show ?thesis
    using inv r' nd pr en unfolding router_inv_def by force
qed

lemma router_inv_add_routes:
  "router_inv rs r \<Longrightarrow> add_routes junk rs' r = Inr r' \<Longrightarrow> router_inv (rs @ rs') r'"
proof (induction rs' arbitrary: rs r)
  case (Cons a rs')
  obtain m p k where "a = (m, p, k)" by (cases a)
  then show ?case
    using Cons.IH [of "rs @ [a]"] Cons.prems router_inv_add by (fastforce simp: fault_simps)
qed simp

lemma router_inv_routes: "add_routes junk rs (new_router g) = Inr r \<Longrightarrow> router_inv rs r"
  using router_inv_add_routes [OF router_inv_new] by fastforce

lemma add_routes_rooted:
  "add_routes junk rs r = Inr r' \<Longrightarrow> (m, p, k) \<in> set rs \<Longrightarrow> p \<noteq> [] \<and> hd p = CHR ''/''"
  by (induction junk rs r rule: add_routes.induct)
    (auto simp: fault_simps add_route_def Let_def dest: insert_path_rooted split: if_splits)

section \<open>Dispatch\<close>

lemma dispatch_outcome:
  assumes "router_inv rs r" and "path \<noteq> []" and "hd path = CHR ''/''"
  shows "outcome m ([] # levels path) [] (entries (router_root r)) (match_node m path [] (router_root r))"
  using match_node_outcome [of "router_root r" "levels path" m "[]"] assms
  by (simp add: router_inv_def join_levels plain_levels seen_def)

lemma dispatch_rooted:
  "dispatch_route m path r = Inr (Invoke i k vars) \<Longrightarrow> path \<noteq> [] \<and> hd path = CHR ''/''"
  by (cases "router_root r") (auto simp: dispatch_route_def match_node.simps split: if_splits)

lemma dispatch_found:
  assumes "add_routes junk rs (new_router g) = Inr r" and "length rs \<le> 2 ^ 16"
    and "dispatch_route m path r = Inr (Invoke i k vars)"
  shows "\<exists>p. i < length rs \<and> rs ! i = (m, p, k) \<and>
    fits (pattern p) (levels path) \<and> vars = params (pattern p) (levels path)"
proof -
  have inv: "router_inv rs r" using assms(1) by (rule router_inv_routes)
  have rooted: "path \<noteq> []" "hd path = CHR ''/''" using dispatch_rooted [OF assms(3)] by auto
  have m: "match_node m path [] (router_root r) = Inr (Some i, vars)" and k: "k = handlers r ! i"
    using assms(3) by (auto simp: dispatch_route_def fault_simps split: option.splits if_splits)
  have "outcome m ([] # levels path) [] (entries (router_root r)) (Inr (Some i, vars))"
    using dispatch_outcome [OF inv rooted, of m] unfolding m .
  then obtain ds w where e: "(ds, method_index m, w) \<in> entries (router_root r)"
    and i: "i = unat w" and acc: "accepted ds ([] # levels path)"
    and vars: "vars = params ds ([] # levels path)" by auto
  obtain i' p k' where i': "i' < length rs" "rs ! i' = (m, p, k')"
    "ds = ndata (router_root r) # pattern p" "w = of_nat i'"
    using inv e by (fastforce simp: router_inv_def)
  have "i = i'"
    using i i'(1,4) assms(2) by (simp add: unat_of_nat take_bit_nat_eq_self)
  moreover have "\<not> is_param (ndata (router_root r))" using inv by (simp add: router_inv_def)
  ultimately show ?thesis
    using i' acc vars k inv by (auto simp: router_inv_def)
qed

text \<open>
  C4. A dispatch that invokes a handler invokes one that was registered for this very method,
  with a pattern the request's levels fit (as a prefix: a route also serves the paths below it
  that no other route takes), and leaves in the path variables exactly the request's levels at
  the pattern's parameters, in order. Up to 65536 routes, the range of a slot of the tree.
\<close>

theorem dispatch_sound:
  assumes "add_routes junk rs (new_router g) = Inr r" and "length rs \<le> 2 ^ 16"
    and "dispatch_route m path r = Inr (Invoke i k vars)"
  shows "\<exists>p. i < length rs \<and> rs ! i = (m, p, k) \<and>
    fits (pattern p) (levels path) \<and> vars = params (pattern p) (levels path)"
  using assms by (rule dispatch_found)

text \<open>
  C5. Whatever the uninitialised members held, a request whose levels fit the pattern of some
  route of its method is never answered "not found", however many routes are registered before
  or after that one.
\<close>

theorem dispatch_complete:
  assumes "add_routes junk rs (new_router g) = Inr r"
    and "(m, p, k) \<in> set rs" and "fits (pattern p) (levels path)"
    and "path \<noteq> []" and "hd path = CHR ''/''"
  shows "dispatch_route m path r \<noteq> Inr NotFound"
proof -
  have inv: "router_inv rs r" using assms(1) by (rule router_inv_routes)
  then have "covers m (seen (router_root r) (levels path)) (router_root r)"
    using assms(2,3) by (fastforce simp: router_inv_def seen_def)
  then have "\<not> fails (match_node m path [] (router_root r))"
    using covers_not_fails [of m "router_root r" "levels path" "[]"] inv assms(4,5)
    by (simp add: router_inv_def join_levels plain_levels)
  then show ?thesis
    by (auto simp: dispatch_route_def fails_def fault_simps split: option.splits if_splits)
qed


section \<open>The slots that are never set\<close>

lemma filled_new: "filled m (router_root (new_router g))"
  by (simp add: new_router_def new_root_def)

lemma add_route_filled:
  assumes "router_inv rs r" and "add_route junk m p k r = Inr r'" and "filled m (router_root r)"
  shows "filled m (router_root r')"
proof -
  have "inserts m (length rs) (levels p) (router_root r) (router_root r')"
    using assms(1,2) insert_path_levels
    by (auto simp: add_route_def router_inv_def fault_simps Let_def split: if_splits)
  then show ?thesis using assms(1,3) inserts_filled by (auto simp: router_inv_def)
qed

lemma add_routes_filled:
  "router_inv rs r \<Longrightarrow> add_routes junk rs' r = Inr r' \<Longrightarrow> filled m (router_root r) \<Longrightarrow>
     \<forall>(m', p, k) \<in> set rs'. m' = m \<Longrightarrow> filled m (router_root r')"
proof (induction rs' arbitrary: rs r)
  case (Cons a rs')
  obtain m' p k where a: "a = (m', p, k)" by (cases a)
  then obtain r1 where "add_route junk m p k r = Inr r1" "add_routes junk rs' r1 = Inr r'"
    using Cons.prems by (auto simp: fault_simps)
  then show ?case
    using Cons.IH [of "rs @ [(m, p, k)]"] Cons.prems a router_inv_add add_route_filled by fastforce
qed simp

text \<open>
  When every route of the server is registered under one method, dispatching requests of that
  method is total and exact: it invokes a handler exactly when some pattern fits the request and
  answers "not found" otherwise, whatever the uninitialised members of the tree held.
\<close>

theorem dispatch_one_method:
  assumes "add_routes junk rs (new_router g) = Inr r" and "length rs \<le> 2 ^ 16"
    and "\<forall>(m', p, k) \<in> set rs. m' = m" and "path \<noteq> []" and "hd path = CHR ''/''"
  shows "if \<exists>(m', p, k) \<in> set rs. fits (pattern p) (levels path)
         then \<exists>i k vars. dispatch_route m path r = Inr (Invoke i k vars)
         else dispatch_route m path r = Inr NotFound"
proof -
  have inv: "router_inv rs r" using assms(1) by (rule router_inv_routes)
  have "filled m (router_root r)"
    using add_routes_filled [OF router_inv_new assms(1) filled_new assms(3)] .
  then obtain i vars where m: "match_node m path [] (router_root r) = Inr (i, vars)"
    using filled_total [of m "router_root r" "levels path" "[]"] assms(4,5) inv
    by (auto simp: join_levels plain_levels)
  have out: "outcome m ([] # levels path) [] (entries (router_root r)) (Inr (i, vars))"
    using dispatch_outcome [OF inv assms(4,5), of m] unfolding m .
  show ?thesis
  proof (cases i)
    case None
    have "\<not> fits (pattern p) (levels path)" if "(m', p, k) \<in> set rs" for m' p k
    proof
      assume "fits (pattern p) (levels path)"
      then have "covers m (seen (router_root r) (levels path)) (router_root r)"
        using that assms(3) inv by (fastforce simp: router_inv_def seen_def)
      then show False
        using covers_not_fails [of m "router_root r" "levels path" "[]"] inv m None assms(4,5)
        by (simp add: router_inv_def join_levels plain_levels fails_def)
    qed
    then show ?thesis using m None by (auto simp: dispatch_route_def)
  next
    case (Some j)
    then obtain ds w where e: "(ds, method_index m, w) \<in> entries (router_root r)" "j = unat w"
      "accepted ds ([] # levels path)"
      using out by auto
    then obtain i' m' p k where i': "i' < length rs" "rs ! i' = (m', p, k)" "w = of_nat i'"
      "ds = ndata (router_root r) # pattern p"
      using inv by (fastforce simp: router_inv_def)
    then have "j < length (handlers r)"
      using e(2) assms(2) inv by (simp add: router_inv_def unat_of_nat take_bit_nat_eq_self)
    moreover have "\<exists>(m', p, k) \<in> set rs. fits (pattern p) (levels path)"
      using i' e(3) nth_mem [OF i'(1)] by auto
    ultimately show ?thesis using m Some by (auto simp: dispatch_route_def)
  qed
qed

text \<open>
  With routes of two methods the tree can hand out a handler index that was never stored: after
  \<open>GET /a/b\<close> and \<open>POST /a\<close>, the node of \<open>a\<close> is terminal and carries the bit of GET, set
  while the first route passed through it, so \<open>GET /a\<close> reads the slot of GET, which no one has
  written. The answer should have been "not found".
\<close>

theorem dispatch_reads_unset_slot:
  "\<exists>r. add_routes junk [(GET, ''/a/b'', Func), (POST, ''/a'', Func)] (new_router g) = Inr r \<and>
     dispatch_route GET ''/a'' r = Inl Undefined"
  by (simp add: add_route_def new_router_def new_root_def insert_path.simps split_level_def find_from_def
      parse_level_def find_child_def data_eq_def set_slot_def make_terminal_def dispatch_route_def
      match_node.simps has_method bit_or_iff bit_method_bit accepts_def Let_def)


section \<open>Path parameters by name\<close>

definition starts_with :: "string \<Rightarrow> string \<Rightarrow> bool" where
  "starts_with u s \<longleftrightarrow> take (length u) s = u"

definition braced :: "string \<Rightarrow> bool" where
  "braced l \<longleftrightarrow> hd l = CHR ''{'' \<and> last l = CHR ''}''"

text \<open>The texts after the opening braces of a route's parameters.\<close>

definition param_texts :: "string \<Rightarrow> string list" where
  "param_texts path = map tl (filter braced (strip (levels path)))"

text \<open>Levels whose only opening brace, if any, is the first byte of a parameter.\<close>

definition brace_ok :: "string \<Rightarrow> bool" where
  "brace_ok l \<longleftrightarrow> l \<noteq> [] \<and> CHR ''{'' \<notin> set (if braced l then tl l else l)"

lemma braced_param: "l \<noteq> [] \<Longrightarrow> is_param (parse_level l) \<longleftrightarrow> braced l"
  by (auto simp: parse_level_def is_param_def braced_def Let_def split: option.splits)

lemma get_param_loop_skip:
  assumes "CHR ''{'' \<notin> set u"
  shows "get_param_loop vars lbl (u @ t) j = get_param_loop vars lbl t j"
proof (cases "find_char (CHR ''{'') t")
  case None
  then show ?thesis
    using find_char_append [OF assms, of t]
    by (simp add: get_param_loop.simps [of vars lbl "u @ t" j] get_param_loop.simps [of vars lbl t j])
next
  case (Some i)
  then show ?thesis
    using find_char_append [OF assms, of t]
    by (simp add: get_param_loop.simps [of vars lbl "u @ t" j] get_param_loop.simps [of vars lbl t j]
        add.assoc)
qed

lemma get_param_loop_brace:
  "get_param_loop vars lbl (CHR ''{'' # t) j =
     (if starts_with lbl t then (if j < length vars then Inr (Some (vars ! j)) else Inl Undefined)
      else get_param_loop vars lbl t (j + 1))"
  by (simp add: get_param_loop.simps [of vars lbl "CHR ''{'' # t" j] starts_with_def)

lemma starts_with_append:
  "CHR ''}'' \<notin> set lbl \<Longrightarrow> last b = CHR ''}'' \<Longrightarrow> b \<noteq> [] \<Longrightarrow> starts_with lbl (b @ t) \<longleftrightarrow> starts_with lbl b"
proof (induction lbl arbitrary: b)
  case (Cons c lbl)
  then obtain x b' where b: "b = x # b'" by (cases b) auto
  show ?case
    using Cons by (cases "b' = []") (auto simp: b starts_with_def)
qed (simp add: starts_with_def)

lemma get_param_loop_levels:
  "list_all brace_ok ls \<Longrightarrow> CHR ''{'' \<notin> set t \<Longrightarrow> CHR ''}'' \<notin> set lbl \<Longrightarrow>
   get_param_loop vars lbl (join ls @ t) j =
     (case find_if (starts_with lbl) (map tl (filter braced ls)) of
        None \<Rightarrow> Inr None
      | Some i \<Rightarrow> if j + i < length vars then Inr (Some (vars ! (j + i))) else Inl Undefined)"
proof (induction ls arbitrary: j)
  case Nil
  then show ?case by (simp add: get_param_loop.simps find_char_None [THEN iffD2])
next
  case (Cons l ls)
  let ?rest = "join ls @ t"
  have IH: "get_param_loop vars lbl ?rest j =
     (case find_if (starts_with lbl) (map tl (filter braced ls)) of
        None \<Rightarrow> Inr None
      | Some i \<Rightarrow> if j + i < length vars then Inr (Some (vars ! (j + i))) else Inl Undefined)" for j
    using Cons by simp
  show ?case
  proof (cases "braced l")
    case False
    then have "CHR ''{'' \<notin> set (CHR ''/'' # l)" using Cons.prems(1) by (simp add: brace_ok_def)
    then have "get_param_loop vars lbl (join (l # ls) @ t) j = get_param_loop vars lbl ?rest j"
      using get_param_loop_skip [of "CHR ''/'' # l" vars lbl ?rest j] by simp
    then show ?thesis using False IH by simp
  next
    case True
    then obtain b where l: "l = CHR ''{'' # b" and b: "CHR ''{'' \<notin> set b" "b \<noteq> []" "last b = CHR ''}''"
      using Cons.prems(1) by (cases l) (auto simp: braced_def brace_ok_def split: if_splits)
    have "get_param_loop vars lbl (join (l # ls) @ t) j = get_param_loop vars lbl (l @ ?rest) j"
      using get_param_loop_skip [of "''/''" vars lbl "l @ ?rest" j] by simp
    also have "\<dots> = (if starts_with lbl b
        then (if j < length vars then Inr (Some (vars ! j)) else Inl Undefined)
        else get_param_loop vars lbl (b @ ?rest) (j + 1))"
      using starts_with_append [OF Cons.prems(3) b(3,2), of ?rest] by (simp add: l get_param_loop_brace)
    also have "get_param_loop vars lbl (b @ ?rest) (j + 1) = get_param_loop vars lbl ?rest (j + 1)"
      using b(1) by (rule get_param_loop_skip)
    finally show ?thesis
      using True IH [of "j + 1"] by (auto simp: l split: option.splits)
  qed
qed


text \<open>No empty level inside the route, and braces only around whole levels.\<close>

definition well_braced :: "string \<Rightarrow> bool" where
  "well_braced p \<longleftrightarrow> list_all brace_ok (strip (levels p)) \<and>
     (levels p = strip (levels p) \<or> levels p = strip (levels p) @ [[]])"

lemma join_append [simp]: "join (xs @ ys) = join xs @ join ys"
  by (induction xs) auto

lemma length_params: "fits ds ss \<Longrightarrow> length (params ds ss) = length (filter is_param ds)"
  by (induction ds ss rule: fits.induct) auto

lemma param_texts_length:
  "list_all brace_ok (strip (levels p)) \<Longrightarrow>
     length (filter is_param (pattern p)) = length (param_texts p)"
proof -
  assume "list_all brace_ok (strip (levels p))"
  then have "filter braced (strip (levels p)) = filter (is_param \<circ> parse_level) (strip (levels p))"
    by (intro filter_cong refl) (auto simp: list_all_iff brace_ok_def braced_param)
  then show ?thesis by (simp add: pattern_def param_texts_def filter_map)
qed

text \<open>
  Inside a handler, \<open>get_param\<close> never reads past the path variables, and its answer is the
  request's level at the first parameter whose text in the route begins with the label asked for.
\<close>

theorem get_param_value:
  assumes "add_routes junk rs (new_router g) = Inr r" and "length rs \<le> 2 ^ 16"
    and "dispatch_route m path r = Inr (Invoke i k vars)"
    and "rs ! i = (m, p, k)" and "well_braced p" and "CHR ''}'' \<notin> set lbl"
  shows "get_param r i vars lbl =
    Inr (map_option (\<lambda>j. params (pattern p) (levels path) ! j)
           (find_if (starts_with lbl) (param_texts p)))"
proof -
  have inv: "router_inv rs r" using assms(1) by (rule router_inv_routes)
  have i: "i < length rs" and fit: "fits (pattern p) (levels path)"
    and vars: "vars = params (pattern p) (levels path)"
    using dispatch_found [OF assms(1-3)] assms(4) by auto
  have p: "route_paths r ! i = p" "i < length (route_paths r)"
    using inv i assms(4) by (auto simp: router_inv_def)
  have len: "length vars = length (param_texts p)"
    using length_params [OF fit] param_texts_length assms(5) vars by (simp add: well_braced_def)
  have rooted: "p \<noteq> [] \<and> hd p = CHR ''/''"
    using add_routes_rooted [OF assms(1)] i assms(4) by (metis nth_mem)
  obtain t where t: "p = join (strip (levels p)) @ t" "CHR ''{'' \<notin> set t"
  proof -
    have "p = join (strip (levels p)) @ (if levels p = strip (levels p) then [] else ''/'')"
      using assms(5) join_levels [of p] rooted by (auto simp: well_braced_def) (metis join_append join_Cons join_Nil append.right_neutral append_Nil)+
    then show ?thesis by (rule that) simp
  qed
  have "get_param_loop vars lbl p 0 =
     (case find_if (starts_with lbl) (param_texts p) of
        None \<Rightarrow> Inr None
      | Some i \<Rightarrow> if i < length vars then Inr (Some (vars ! i)) else Inl Undefined)"
  proof -
    have "get_param_loop vars lbl (join (strip (levels p)) @ t) 0 =
     (case find_if (starts_with lbl) (param_texts p) of
        None \<Rightarrow> Inr None
      | Some i \<Rightarrow> if 0 + i < length vars then Inr (Some (vars ! (0 + i))) else Inl Undefined)"
      using get_param_loop_levels [OF _ t(2) assms(6), of "strip (levels p)" vars 0] assms(5)
      by (simp add: well_braced_def param_texts_def)
    then show ?thesis by (simp only: t(1) [symmetric] add_0)
  qed
  then show ?thesis
    using p len vars by (auto simp: get_param_def split: option.splits dest: find_if_SomeD)
qed

section \<open>A server with three routes\<close>

definition sample_routes :: "route list" where
  "sample_routes =
     [(GET, ''/u/{user_id:int}/{user}'', Func), (GET, ''/f/*'', CoroFunc), (GET, ''/'', Func)]"

definition sample_router :: HttpRouter where
  "sample_router =
     (case add_routes (\<lambda>_ _. 0) sample_routes (new_router 0) of Inr r \<Rightarrow> r | Inl _ \<Rightarrow> new_router 0)"

lemmas path_eval = is_digit_def schar_def split_level_def find_from_def parse_level_def accepts_def Let_def
  levels_def pattern_def

lemma method_bit_neq [simp]: "method_bit m \<noteq> 0"
  by (metis bit_0_eq bit_method_bit bot_apply bot_bool_def)

lemma sample_router_built: "add_routes (\<lambda>_ _. 0) sample_routes (new_router 0) = Inr sample_router"
  by (simp add: sample_router_def sample_routes_def add_route_def new_router_def new_root_def
      insert_path.simps find_child_def data_eq_def path_eval)

lemma sample_dispatch:
  "dispatch_route GET ''/u/7/ann'' sample_router = Inr (Invoke 0 Func [''7'', ''ann''])"
  by (simp add: sample_router_def sample_routes_def add_route_def new_router_def new_root_def
      insert_path.simps find_child_def data_eq_def set_slot_def dispatch_route_def match_node.simps
      has_method bit_or_iff bit_method_bit is_param_def is_digit_def path_eval)

lemma sample_fits: "fits (pattern ''/u/{user_id:int}/{user}'') (levels ''/u/7/ann'')"
  by (simp add: path_eval final_def is_digit_def)

lemma sample_well_braced: "well_braced ''/u/{user_id:int}/{user}''"
  by (simp add: well_braced_def path_eval brace_ok_def braced_def)

theorem dispatch_sound_witness:
  "\<exists>p. 0 < length sample_routes \<and> sample_routes ! 0 = (GET, p, Func) \<and>
    fits (pattern p) (levels ''/u/7/ann'') \<and> [''7'', ''ann''] = params (pattern p) (levels ''/u/7/ann'')"
  using dispatch_sound [OF sample_router_built _ sample_dispatch] by (simp add: sample_routes_def)

theorem dispatch_complete_witness: "dispatch_route GET ''/u/7/ann'' sample_router \<noteq> Inr NotFound"
  by (rule dispatch_complete [OF sample_router_built _ sample_fits, of GET Func])
    (simp_all add: sample_routes_def)

theorem dispatch_one_method_witness:
  "if \<exists>(m', p, k) \<in> set sample_routes. fits (pattern p) (levels ''/u/7/ann'')
   then \<exists>i k vars. dispatch_route GET ''/u/7/ann'' sample_router = Inr (Invoke i k vars)
   else dispatch_route GET ''/u/7/ann'' sample_router = Inr NotFound"
  by (rule dispatch_one_method [OF sample_router_built]) (simp_all add: sample_routes_def)

text \<open>
  The prefix comparison at work: asked for \<open>user\<close>, a handler gets the value of
  \<open>user_id\<close>, the parameter before it.
\<close>

theorem get_param_value_witness:
  "get_param sample_router 0 [''7'', ''ann''] ''user'' = Inr (Some ''7'')"
proof -
  have "get_param sample_router 0 [''7'', ''ann''] ''user'' =
    Inr (map_option (\<lambda>j. params (pattern ''/u/{user_id:int}/{user}'') (levels ''/u/7/ann'') ! j)
           (find_if (starts_with ''user'') (param_texts ''/u/{user_id:int}/{user}'')))"
    by (rule get_param_value [OF sample_router_built _ sample_dispatch])
      (simp_all add: sample_routes_def sample_well_braced)
  also have "\<dots> = Inr (Some ''7'')"
    by (simp add: param_texts_def path_eval braced_def starts_with_def params_def is_param_def)
  finally show ?thesis .
qed

end
