(* ===== verification/Base64.thy ===== *)
theory Base64
  imports Prelude
begin

text \<open>
  \<open>base64_encode\<close> and \<open>base64_decode_to_file\<close> of \<open>common_util.cc\<close>. The decoder's file is the
  list of bytes put into it. Its counter \<open>j\<close> stays 0, as in the code.
\<close>

definition encoding_table :: string where
  "encoding_table = ''ABCDEFGHIJKLMNOPQRSTUVWXYZabcdefghijklmnopqrstuvwxyz0123456789+/''"

definition mod_table :: "nat list" where
  "mod_table = [0, 2, 1]"

section \<open>Encoding\<close>

definition encode_group :: "nat \<Rightarrow> nat \<Rightarrow> nat \<Rightarrow> string" where
  "encode_group octet_a octet_b octet_c =
     (let triple = octet_a * 2 ^ 16 + octet_b * 2 ^ 8 + octet_c in
      [encoding_table ! (triple div 2 ^ 18 mod 64), encoding_table ! (triple div 2 ^ 12 mod 64),
       encoding_table ! (triple div 2 ^ 6 mod 64), encoding_table ! (triple mod 64)])"

fun encode_loop :: "byte list \<Rightarrow> string" where
  "encode_loop [] = []"
| "encode_loop [a] = encode_group (code a) 0 0"
| "encode_loop [a, b] = encode_group (code a) (code b) 0"
| "encode_loop (a # b # c # bs) = encode_group (code a) (code b) (code c) @ encode_loop bs"

definition base64_encode :: "byte list \<Rightarrow> string" where
  "base64_encode bs =
     (let out = encode_loop bs; k = mod_table ! (length bs mod 3)
      in take (length out - k) out @ replicate k (CHR ''=''))"

section \<open>Decoding\<close>

text \<open>The table of 256 entries, zero where no character of the alphabet puts its index.\<close>

definition decoding_table :: "char \<Rightarrow> nat" where
  "decoding_table c = (case find_if (\<lambda>x. x = c) encoding_table of Some i \<Rightarrow> i | None \<Rightarrow> 0)"

definition sextet :: "char \<Rightarrow> nat" where
  "sextet c = (if c = CHR ''='' then 0 else decoding_table c)"

definition decode_group :: "nat \<Rightarrow> nat \<Rightarrow> char \<Rightarrow> char \<Rightarrow> char \<Rightarrow> char \<Rightarrow> byte list" where
  "decode_group j output_length a b c d =
     (let triple = sextet a * 2 ^ 18 + sextet b * 2 ^ 12 + sextet c * 2 ^ 6 + sextet d in
      (if j < output_length then [char_of (triple div 2 ^ 16 mod 256)] else []) @
      (if j < output_length then [char_of (triple div 2 ^ 8 mod 256)] else []) @
      (if j < output_length then [char_of (triple mod 256)] else []))"

text \<open>The loop reads past the end when the length is no multiple of 4, which was excluded.\<close>

fun decode_loop :: "nat \<Rightarrow> string \<Rightarrow> byte list res" where
  "decode_loop output_length [] = Inr []"
| "decode_loop output_length (a # b # c # d # s) =
     bindE (decode_loop output_length s) (\<lambda>rest. Inr (decode_group 0 output_length a b c d @ rest))"
| "decode_loop output_length _ = Inl Undefined"

text \<open>\<open>None\<close> is the result \<open>false\<close>, without a file.\<close>

definition base64_decode :: "string \<Rightarrow> byte list option res" where
  "base64_decode s =
     (if length s mod 4 \<noteq> 0 then Inr None
      else if length s < 2 then Inl Undefined
      else
        (let len = length s div 4 * 3;
             len = (if s ! (length s - 1) = CHR ''='' then len - 1 else len);
             len = (if s ! (length s - 2) = CHR ''='' then len - 1 else len)
         in bindE (decode_loop len s) (\<lambda>out. Inr (Some out))))"

section \<open>Round trip\<close>

lemma distinct_encoding_table: "distinct encoding_table" "length encoding_table = 64"
  by (simp_all add: encoding_table_def)

lemma find_if_distinct: "distinct xs \<Longrightarrow> i < length xs \<Longrightarrow> find_if (\<lambda>x. x = xs ! i) xs = Some i"
proof (induction xs arbitrary: i)
  case (Cons x xs)
  then show ?case by (cases i) auto
qed simp

lemma sextet_encoding: "i < 64 \<Longrightarrow> sextet (encoding_table ! i) = i"
proof -
  assume i: "i < 64"
  have "CHR ''='' \<notin> set encoding_table" by (simp add: encoding_table_def)
  then have "encoding_table ! i \<noteq> CHR ''=''"
    using i distinct_encoding_table(2) by (metis nth_mem)
  then show ?thesis
    using i find_if_distinct [OF distinct_encoding_table(1)] distinct_encoding_table(2)
    by (simp add: sextet_def decoding_table_def)
qed

lemma sextet_pad [simp]: "sextet (CHR ''='') = 0"
  by (simp add: sextet_def)

lemma sextets_of_triple:
  assumes "t < 2 ^ 24"
  shows "(t div 2 ^ 18 mod 64) * 2 ^ 18 + (t div 2 ^ 12 mod 64) * 2 ^ 12 + (t div 2 ^ 6 mod 64) * 2 ^ 6 +
      t mod 64 = (t :: nat)"
proof -
  have "t div 262144 < 64" using assms by (simp add: less_mult_imp_div_less)
  then have "t div 262144 mod 64 = t div 262144" by simp
  moreover have "t div 4096 = (t div 262144) * 64 + t div 4096 mod 64"
    using div_mult_mod_eq [of "t div 4096" 64] by (simp add: div_mult2_eq [symmetric])
  moreover have "t div 64 = (t div 4096) * 64 + t div 64 mod 64"
    using div_mult_mod_eq [of "t div 64" 64] by (simp add: div_mult2_eq [symmetric])
  moreover have "t = (t div 64) * 64 + t mod 64" by simp
  ultimately have "(t div 262144 mod 64) * 262144 + (t div 4096 mod 64) * 4096 + (t div 64 mod 64) * 64 +
      t mod 64 = t"
    by linarith
  moreover have "(2 :: nat) ^ 18 = 262144" "(2 :: nat) ^ 12 = 4096" "(2 :: nat) ^ 6 = 64" by simp_all
  ultimately show ?thesis by (simp only:)
qed

lemma octets_of_triple:
  assumes "a < 256" and "b < 256" and "c < 256"
  shows "(a * 2 ^ 16 + b * 2 ^ 8 + c) div 2 ^ 16 mod 256 = (a :: nat)"
    and "(a * 2 ^ 16 + b * 2 ^ 8 + c) div 2 ^ 8 mod 256 = b"
    and "(a * 2 ^ 16 + b * 2 ^ 8 + c) mod 256 = c"
proof -
  have "(a * 2 ^ 16 + b * 2 ^ 8 + c) div 2 ^ 16 = a" by (rule div_nat_eqI) (use assms in simp_all)
  then show "(a * 2 ^ 16 + b * 2 ^ 8 + c) div 2 ^ 16 mod 256 = a" using assms by simp
  have "(a * 2 ^ 16 + b * 2 ^ 8 + c) div 2 ^ 8 = a * 256 + b"
    by (rule div_nat_eqI) (use assms in simp_all)
  then have "(a * 2 ^ 16 + b * 2 ^ 8 + c) div 2 ^ 8 mod 256 = (b + a * 256) mod 256"
    by (simp only: add.commute)
  then show "(a * 2 ^ 16 + b * 2 ^ 8 + c) div 2 ^ 8 mod 256 = b" using assms by simp
  have "a * 2 ^ 16 + b * 2 ^ 8 + c = c + (b + a * 256) * 256" by simp
  then have "(a * 2 ^ 16 + b * 2 ^ 8 + c) mod 256 = c mod 256" by (simp only: mod_mult_self1)
  then show "(a * 2 ^ 16 + b * 2 ^ 8 + c) mod 256 = c" using assms by simp
qed

lemma char_of_eqI: "n mod 256 = code a \<Longrightarrow> char_of (n :: nat) = a"
  by (metis char_of_code char_of_mod_256)

lemma triple_less: "a < 256 \<Longrightarrow> b < 256 \<Longrightarrow> c < 256 \<Longrightarrow> a * 2 ^ 16 + b * 2 ^ 8 + c < (2 ^ 24 :: nat)"
  by simp

text \<open>A group decodes to its three bytes, padded or not.\<close>

lemma decode_triple:
  assumes "code a * 2 ^ 16 + code b * 2 ^ 8 + code c =
      sextet w * 2 ^ 18 + sextet x * 2 ^ 12 + sextet y * 2 ^ 6 + sextet z"
    and "0 < len"
  shows "decode_group 0 len w x y z = [a, b, c]"
proof -
  have "decode_group 0 len w x y z =
      [char_of ((code a * 2 ^ 16 + code b * 2 ^ 8 + code c) div 2 ^ 16),
       char_of ((code a * 2 ^ 16 + code b * 2 ^ 8 + code c) div 2 ^ 8),
       char_of (code a * 2 ^ 16 + code b * 2 ^ 8 + code c)]"
    unfolding assms(1) using assms(2) by (simp add: decode_group_def Let_def)
  then show ?thesis
    using octets_of_triple [OF code_lt code_lt code_lt, of a b c] by (simp only: char_of_eqI)
qed

lemma decode_encode_group:
  assumes "0 < len"
  shows "decode_loop len (encode_group (code a) (code b) (code c) @ s) =
      bindE (decode_loop len s) (\<lambda>rest. Inr ([a, b, c] @ rest))"
proof -
  define t where "t = code a * 2 ^ 16 + code b * 2 ^ 8 + code c"
  have "t < 2 ^ 24" using triple_less [OF code_lt code_lt code_lt] by (simp add: t_def)
  then have "t = sextet (encoding_table ! (t div 2 ^ 18 mod 64)) * 2 ^ 18 +
      sextet (encoding_table ! (t div 2 ^ 12 mod 64)) * 2 ^ 12 +
      sextet (encoding_table ! (t div 2 ^ 6 mod 64)) * 2 ^ 6 + sextet (encoding_table ! (t mod 64))"
    using sextets_of_triple by (simp add: sextet_encoding)
  then show ?thesis
    using decode_triple [OF _ assms] unfolding encode_group_def t_def [symmetric] Let_def
    by (simp add: t_def)
qed

text \<open>The last group: the sextets that padding replaces are 0 already.\<close>

lemma decode_padded_group:
  assumes "encode_group (code a) (code b) (code c) = [w, x, y, z]" and "0 < len"
  shows "decode_loop len [w, x, y, z] = Inr [a, b, c]"
    and "c = CHR 0x00 \<Longrightarrow> decode_loop len [w, x, y, CHR ''=''] = Inr [a, b, c]"
    and "c = CHR 0x00 \<Longrightarrow> b = CHR 0x00 \<Longrightarrow> decode_loop len [w, x, CHR ''='', CHR ''=''] = Inr [a, b, c]"
proof -
  show full: "decode_loop len [w, x, y, z] = Inr [a, b, c]"
    using decode_encode_group [OF assms(2), of a b c "[]"] assms(1) by simp
  let ?t = "code a * 2 ^ 16 + code b * 2 ^ 8 + code c"
  have "sextet z = ?t mod 64" "sextet y = ?t div 2 ^ 6 mod 64"
    using assms(1) by (auto simp: encode_group_def Let_def sextet_encoding)
  moreover have "(code a * 2 ^ 16 + code b * 2 ^ 8 + 0) mod 64 = 0"
  proof -
    have "code a * 2 ^ 16 + code b * 2 ^ 8 + 0 = 64 * (code a * 1024 + code b * 4)" by simp
    then show ?thesis by (simp only: mod_mult_self1_is_0)
  qed
  moreover have "(code a * 2 ^ 16 + 0 * 2 ^ 8 + 0) div 2 ^ 6 mod 64 = 0"
  proof -
    have "(code a * 2 ^ 16 + 0 * 2 ^ 8 + 0) div 2 ^ 6 = 64 * (code a * 16)"
      by (rule div_nat_eqI) simp_all
    then show ?thesis by (simp only: mod_mult_self1_is_0)
  qed
  moreover have "code (CHR 0x00) = 0" by simp
  ultimately have "c = CHR 0x00 \<Longrightarrow> sextet z = 0" "c = CHR 0x00 \<Longrightarrow> b = CHR 0x00 \<Longrightarrow> sextet y = 0"
    by (simp_all only:)
  then show "c = CHR 0x00 \<Longrightarrow> decode_loop len [w, x, y, CHR ''=''] = Inr [a, b, c]"
    "c = CHR 0x00 \<Longrightarrow> b = CHR 0x00 \<Longrightarrow> decode_loop len [w, x, CHR ''='', CHR ''=''] = Inr [a, b, c]"
    using full by (simp_all add: decode_group_def Let_def)
qed

lemma length_encode_group [simp]: "length (encode_group a b c) = 4"
  by (simp add: encode_group_def Let_def)

lemma length_encode_loop: "length (encode_loop bs) = 4 * ((length bs + 2) div 3)"
proof (induction bs rule: encode_loop.induct)
  case (4 a b c bs)
  have "(length (a # b # c # bs) + 2) div 3 = Suc ((length bs + 2) div 3)"
    using div_add_self2 [of 3 "length bs + 2"] by simp
  then show ?case using 4 by simp
qed simp_all

lemma mod3_cases: "n mod 3 = 0 \<or> n mod 3 = 1 \<or> n mod 3 = (2 :: nat)"
  by arith

lemma mod3_Suc3: "Suc (Suc (Suc n)) mod 3 = n mod 3"
proof -
  have "Suc (Suc (Suc n)) = n + 3" by simp
  then show ?thesis by (simp only: mod_add_self2)
qed

lemma mod_table_le: "mod_table ! (n mod 3) \<le> 2"
  using mod3_cases [of n] by (auto simp: mod_table_def)

definition zeros :: "byte list \<Rightarrow> byte list" where
  "zeros bs = replicate (mod_table ! (length bs mod 3)) (CHR 0x00)"

lemma base64_encode_Cons:
  "bs \<noteq> [] \<Longrightarrow> base64_encode (a # b # c # bs) = encode_group (code a) (code b) (code c) @ base64_encode bs"
proof -
  assume "bs \<noteq> []"
  have "4 \<le> length (encode_loop bs)"
    using \<open>bs \<noteq> []\<close> by (cases bs) (auto simp: length_encode_loop)
  then have "mod_table ! (length bs mod 3) \<le> length (encode_loop bs)"
    using mod_table_le [of "length bs"] by linarith
  then show ?thesis by (simp add: base64_encode_def Let_def mod3_Suc3)
qed

lemma encode_group_cells: "\<exists>w x y z. encode_group a b c = [w, x, y, z]"
  by (simp add: encode_group_def Let_def)

lemma replicate_2 [simp]: "replicate 2 x = [x, x]"
  by (simp add: numeral_2_eq_2)

lemma decode_loop_encode:
  "bs \<noteq> [] \<Longrightarrow> 0 < len \<Longrightarrow> decode_loop len (base64_encode bs) = Inr (bs @ zeros bs)"
proof (induction bs rule: encode_loop.induct)
  case (2 a)
  obtain w x y z where g: "encode_group (code a) (code (CHR 0x00)) (code (CHR 0x00)) = [w, x, y, z]"
    using encode_group_cells by blast
  then have "base64_encode [a] = [w, x, CHR ''='', CHR ''='']"
    by (simp add: base64_encode_def mod_table_def numeral_2_eq_2 [symmetric])
  then show ?case using decode_padded_group(3) [OF g 2(2)] by (simp add: zeros_def mod_table_def numeral_2_eq_2 [symmetric])
next
  case (3 a b)
  obtain w x y z where g: "encode_group (code a) (code b) (code (CHR 0x00)) = [w, x, y, z]"
    using encode_group_cells by blast
  then have "base64_encode [a, b] = [w, x, y, CHR ''='']"
    by (simp add: base64_encode_def mod_table_def numeral_2_eq_2 [symmetric])
  then show ?case using decode_padded_group(2) [OF g 3(2)] by (simp add: zeros_def mod_table_def numeral_2_eq_2 [symmetric])
next
  case (4 a b c bs)
  show ?case
  proof (cases "bs = []")
    case True
    then show ?thesis
      using decode_encode_group [OF 4(3), of a b c "[]"]
      by (simp add: base64_encode_def zeros_def mod_table_def)
  next
    case False
    have "zeros (a # b # c # bs) = zeros bs" by (simp add: zeros_def mod3_Suc3)
    then show ?thesis
      using False 4 decode_encode_group [OF 4(3), of a b c] by (simp add: base64_encode_Cons)
  qed
qed simp

lemma length_base64_encode: "length (base64_encode bs) = 4 * ((length bs + 2) div 3)"
proof (cases "bs = []")
  case False
  then have "4 \<le> length (encode_loop bs)" by (cases bs) (auto simp: length_encode_loop)
  then have "mod_table ! (length bs mod 3) \<le> length (encode_loop bs)"
    using mod_table_le [of "length bs"] by linarith
  then show ?thesis by (simp add: base64_encode_def Let_def length_encode_loop)
qed (simp add: base64_encode_def mod_table_def)

text \<open>
  C36. Decoding what was encoded gives the bytes back, but not only them: the decoder never
  advances the counter it compares with the output length, so the padding of the last group
  comes out as one or two NUL bytes at the end of the file.
\<close>

theorem base64_roundtrip:
  assumes "bs \<noteq> []"
  shows "base64_decode (base64_encode bs) =
    Inr (Some (bs @ replicate ((3 - length bs mod 3) mod 3) (CHR 0x00)))"
proof -
  have k: "mod_table ! (length bs mod 3) = (3 - length bs mod 3) mod 3"
    using mod3_cases [of "length bs"] by (auto simp: mod_table_def)
  have "4 \<le> length (base64_encode bs)"
    using assms by (cases bs) (auto simp: length_base64_encode)
  moreover from this have "1 \<le> length (base64_encode bs) div 4"
    by (simp add: div_greater_zero_iff Suc_le_eq)
  then have "0 < length (base64_encode bs) div 4 * 3 - 1 - 1" by linarith
  moreover have "length (base64_encode bs) mod 4 = 0" by (simp add: length_base64_encode)
  ultimately show ?thesis
    using decode_loop_encode [OF assms]
    by (auto simp: base64_decode_def Let_def zeros_def simp flip: k)
qed

theorem base64_roundtrip_witness:
  "base64_decode (base64_encode ''hi'') = Inr (Some (''hi'' @ [CHR 0x00]))"
  using base64_roundtrip [of "''hi''"] by (simp add: numeral_2_eq_2 [symmetric])

end
