(* ===== verification/Byte_Buffer.thy ===== *)
theory Byte_Buffer
  imports Prelude
begin

text \<open>
  \<open>buffer.h\<close>: a fixed array with a read pointer and a write pointer. The session writes its
  output into one of 64 KiB and \<open>SSL_write\<close> drains it. The locale \<open>byte_queue\<close> is what the
  session relies on: a bounded first-in first-out queue of bytes.

  \<open>pos_\<close> and \<open>last_\<close> are pointers into \<open>buf_\<close>, here offsets. The array is not initialised
  by the constructor, so its first contents are a parameter.
\<close>

section \<open>The buffer\<close>

record Buffer =
  buf :: "byte list"
  bpos :: nat
  blast :: nat

definition new_buffer :: "byte list \<Rightarrow> Buffer" where
  "new_buffer garbage = \<lparr>buf = garbage, bpos = 0, blast = 0\<rparr>"

definition buf_reset :: "Buffer \<Rightarrow> Buffer" where
  "buf_reset b = b\<lparr>bpos := 0, blast := 0\<rparr>"

definition rleft :: "Buffer \<Rightarrow> nat" where
  "rleft b = blast b - bpos b"

definition wleft :: "Buffer \<Rightarrow> nat" where
  "wleft b = length (buf b) - blast b"

text \<open>\<open>std::copy_n(src, src.size(), dst)\<close> inside the array.\<close>

definition copy_at :: "nat \<Rightarrow> 'a list \<Rightarrow> 'a list \<Rightarrow> 'a list" where
  "copy_at i src dst = take i dst @ src @ drop (i + length src) dst"

definition buf_write :: "byte list \<Rightarrow> Buffer \<Rightarrow> nat \<times> Buffer" where
  "buf_write src b =
     (let count = min (length src) (wleft b) in
      (count, b\<lparr>buf := copy_at (blast b) (take count src) (buf b), blast := blast b + count\<rparr>))"

definition write_full :: "byte list \<Rightarrow> Buffer \<Rightarrow> Buffer res" where
  "write_full src b =
     (if length src \<le> wleft b
      then Inr (b\<lparr>buf := copy_at (blast b) src (buf b), blast := blast b + length src\<rparr>)
      else Inl Assertion)"

text \<open>\<open>write_byte\<close> does not look whether there is room.\<close>

definition write_byte :: "byte \<Rightarrow> Buffer \<Rightarrow> Buffer res" where
  "write_byte v b =
     (if blast b < length (buf b)
      then Inr (b\<lparr>buf := (buf b)[blast b := v], blast := blast b + 1\<rparr>)
      else Inl Undefined)"

definition fill :: "byte \<Rightarrow> nat \<Rightarrow> Buffer \<Rightarrow> Buffer res" where
  "fill v count b =
     (if count \<le> wleft b
      then Inr (b\<lparr>buf := copy_at (blast b) (replicate count v) (buf b), blast := blast b + count\<rparr>)
      else Inl Assertion)"

text \<open>\<open>write(count)\<close>: the bytes are already there, copied by someone else to \<open>last()\<close>.\<close>

definition write_n :: "nat \<Rightarrow> Buffer \<Rightarrow> nat \<times> Buffer" where
  "write_n count b = (let c = min count (wleft b) in (c, b\<lparr>blast := blast b + c\<rparr>))"

definition drain :: "nat \<Rightarrow> Buffer \<Rightarrow> nat \<times> Buffer" where
  "drain count b = (let c = min count (rleft b) in (c, b\<lparr>bpos := bpos b + c\<rparr>))"

definition drain_reset :: "nat \<Rightarrow> Buffer \<Rightarrow> nat \<times> Buffer" where
  "drain_reset count b =
     (let c = min count (rleft b); start = bpos b + c in
      (c, b\<lparr>buf := copy_at 0 (take (blast b - start) (drop start (buf b))) (buf b),
            blast := blast b - start, bpos := 0\<rparr>))"

section \<open>The bytes it holds\<close>

definition buf_ok :: "nat \<Rightarrow> Buffer \<Rightarrow> bool" where
  "buf_ok N b \<longleftrightarrow> bpos b \<le> blast b \<and> blast b \<le> length (buf b) \<and> length (buf b) = N"

definition pending :: "Buffer \<Rightarrow> byte list" where
  "pending b = take (blast b - bpos b) (drop (bpos b) (buf b))"

lemma copy_at_length [simp]: "i + length src \<le> length dst \<Longrightarrow> length (copy_at i src dst) = length dst"
  by (simp add: copy_at_def)

lemma take_copy_at:
  "i + length src \<le> length dst \<Longrightarrow> take (i + length src) (copy_at i src dst) = take i dst @ src"
  by (simp add: copy_at_def)

lemma pending_copy_at:
  assumes "buf_ok N b" and "length src \<le> wleft b"
  shows "pending (b\<lparr>buf := copy_at (blast b) src (buf b), blast := blast b + length src\<rparr>) = pending b @ src"
    and "buf_ok N (b\<lparr>buf := copy_at (blast b) src (buf b), blast := blast b + length src\<rparr>)"
proof -
  let ?c = "copy_at (blast b) src (buf b)"
  have fit: "blast b + length src \<le> length (buf b)" using assms by (auto simp: buf_ok_def wleft_def)
  have "take (blast b + length src - bpos b) (drop (bpos b) ?c)
      = drop (bpos b) (take (blast b + length src) ?c)"
    by (simp add: drop_take)
  also have "\<dots> = drop (bpos b) (take (blast b) (buf b) @ src)"
    by (simp only: take_copy_at [OF fit])
  also have "\<dots> = pending b @ src"
    using assms(1) by (auto simp: pending_def buf_ok_def drop_take)
  finally show "pending (b\<lparr>buf := ?c, blast := blast b + length src\<rparr>) = pending b @ src"
    by (simp add: pending_def)
  show "buf_ok N (b\<lparr>buf := ?c, blast := blast b + length src\<rparr>)"
    using assms fit by (auto simp: buf_ok_def)
qed

lemma length_pending: "buf_ok N b \<Longrightarrow> length (pending b) = rleft b"
  by (auto simp: pending_def rleft_def buf_ok_def)

lemma new_buffer_ok: "buf_ok (length g) (new_buffer g)" "pending (new_buffer g) = []"
  by (simp_all add: new_buffer_def buf_ok_def pending_def)

lemma reset_ok: "buf_ok N b \<Longrightarrow> buf_ok N (buf_reset b)" "pending (buf_reset b) = []"
  by (simp_all add: buf_reset_def buf_ok_def pending_def)

lemma write_full_ok:
  assumes "buf_ok N b" and "write_full src b = Inr b'"
  shows "buf_ok N b'" and "pending b' = pending b @ src" and "wleft b = wleft b' + length src"
  using assms pending_copy_at [OF assms(1), of src]
  by (auto simp: write_full_def wleft_def buf_ok_def split: if_splits)

lemma fill_ok:
  assumes "buf_ok N b" and "fill v n b = Inr b'"
  shows "buf_ok N b'" and "pending b' = pending b @ replicate n v" and "wleft b = wleft b' + n"
  using assms pending_copy_at [OF assms(1), of "replicate n v"]
  by (auto simp: fill_def wleft_def buf_ok_def split: if_splits)

lemma list_update_copy_at: "i < length xs \<Longrightarrow> xs[i := v] = copy_at i [v] xs"
  by (simp add: copy_at_def upd_conv_take_nth_drop)

lemma write_byte_ok:
  assumes "buf_ok N b" and "write_byte v b = Inr b'"
  shows "buf_ok N b'" and "pending b' = pending b @ [v]" and "wleft b = wleft b' + 1"
  using assms pending_copy_at [OF assms(1), of "[v]"]
  by (auto simp: write_byte_def wleft_def buf_ok_def list_update_copy_at split: if_splits)

lemma buf_write_ok:
  assumes "buf_ok N b" and "buf_write src b = (n, b')"
  shows "n = min (length src) (wleft b)" and "buf_ok N b'"
    and "pending b' = pending b @ take n src" and "wleft b' = wleft b - n"
proof -
  have n: "n = min (length src) (wleft b)"
    and b': "b' = b\<lparr>buf := copy_at (blast b) (take n src) (buf b), blast := blast b + n\<rparr>"
    using assms(2) by (auto simp: buf_write_def Let_def)
  have len: "length (take n src) = n" using n by simp
  show "n = min (length src) (wleft b)" by (rule n)
  show "buf_ok N b'" "pending b' = pending b @ take n src"
    using pending_copy_at [OF assms(1), of "take n src"] n b' len by auto
  show "wleft b' = wleft b - n"
    using assms(1) n by (auto simp: b' wleft_def buf_ok_def)
qed

lemma drain_ok:
  assumes "buf_ok N b" and "drain n b = (c, b')"
  shows "c = min n (rleft b)" and "buf_ok N b'" and "pending b' = drop c (pending b)" and "wleft b' = wleft b"
  using assms by (auto simp: drain_def Let_def buf_ok_def pending_def rleft_def wleft_def drop_take
      drop_drop add.commute)

lemma drain_reset_ok:
  assumes "buf_ok N b" and "drain_reset n b = (c, b')"
  shows "c = min n (rleft b)" and "buf_ok N b'" and "pending b' = drop c (pending b)"
    and "wleft b' = N - length (pending b')"
proof -
  define start where "start = bpos b + c"
  let ?s = "take (blast b - start) (drop start (buf b))"
  have c: "c = min n (rleft b)" using assms(2) by (auto simp: drain_reset_def Let_def)
  then have b': "b' = b\<lparr>buf := copy_at 0 ?s (buf b), blast := blast b - start, bpos := 0\<rparr>"
    using assms(2) by (auto simp: drain_reset_def Let_def start_def)
  have bounds: "start \<le> blast b" "blast b \<le> length (buf b)" "length (buf b) = N"
    using assms(1) c by (auto simp: start_def buf_ok_def rleft_def)
  have len: "length ?s = blast b - start" using bounds by auto
  show "c = min n (rleft b)" by (rule c)
  show "buf_ok N b'" using bounds len by (auto simp: b' buf_ok_def)
  have "pending b' = ?s" using len by (auto simp: b' pending_def copy_at_def)
  then show "pending b' = drop c (pending b)"
    by (simp add: pending_def start_def drop_take add.commute)
  then show "wleft b' = N - length (pending b')"
    using bounds len \<open>pending b' = ?s\<close> by (simp add: b' wleft_def copy_at_def)
qed

text \<open>
  What a successful write does to the buffer, and the writes that cannot fail when there is room.
\<close>

definition appends :: "nat \<Rightarrow> Buffer \<Rightarrow> byte list \<Rightarrow> Buffer \<Rightarrow> bool" where
  "appends N b bs b' \<longleftrightarrow>
     buf_ok N b' \<and> pending b' = pending b @ bs \<and> wleft b = wleft b' + length bs"

lemma appends_Nil [simp]: "appends N b [] b \<longleftrightarrow> buf_ok N b"
  by (simp add: appends_def)

lemma appends_trans: "appends N b bs b' \<Longrightarrow> appends N b' cs b'' \<Longrightarrow> appends N b (bs @ cs) b''"
  by (simp add: appends_def)

lemma appendsD:
  "appends N b bs b' \<Longrightarrow> buf_ok N b'" "appends N b bs b' \<Longrightarrow> pending b' = pending b @ bs"
  "appends N b bs b' \<Longrightarrow> wleft b' = wleft b - length bs"
  by (simp_all add: appends_def)

lemma write_full_fits:
  assumes "buf_ok N b" and "length src \<le> wleft b"
  obtains b' where "write_full src b = Inr b'" and "appends N b src b'"
proof -
  obtain b' where "write_full src b = Inr b'" using assms(2) by (simp add: write_full_def)
  then show ?thesis
    using write_full_ok [OF assms(1), of src b'] by (intro that) (auto simp: appends_def)
qed

lemma fill_fits:
  assumes "buf_ok N b" and "n \<le> wleft b"
  obtains b' where "fill v n b = Inr b'" and "appends N b (replicate n v) b'"
proof -
  obtain b' where "fill v n b = Inr b'" using assms(2) by (simp add: fill_def)
  then show ?thesis
    using fill_ok [OF assms(1), of v n b'] by (intro that) (auto simp: appends_def)
qed

lemma write_byte_fits:
  assumes "buf_ok N b" and "1 \<le> wleft b"
  obtains b' where "write_byte v b = Inr b'" and "appends N b [v] b'"
proof -
  obtain b' where "write_byte v b = Inr b'" using assms(2) by (cases "blast b < length (buf b)") (auto simp: write_byte_def wleft_def)
  then show ?thesis
    using write_byte_ok [OF assms(1), of v b'] by (intro that) (auto simp: appends_def)
qed

section \<open>A bounded queue of bytes\<close>

locale byte_queue =
  fixes ok :: "'q \<Rightarrow> bool"
    and content :: "'q \<Rightarrow> byte list"
    and room :: "'q \<Rightarrow> nat"
    and put :: "byte list \<Rightarrow> 'q \<Rightarrow> nat \<times> 'q"
    and get :: "nat \<Rightarrow> 'q \<Rightarrow> nat \<times> 'q"
    and clear :: "'q \<Rightarrow> 'q"
  assumes put_law: "ok q \<Longrightarrow> put bs q = (n, q') \<Longrightarrow>
      n = min (length bs) (room q) \<and> ok q' \<and> content q' = content q @ take n bs \<and> room q' = room q - n"
    and get_law: "ok q \<Longrightarrow> get k q = (n, q') \<Longrightarrow>
      n = min k (length (content q)) \<and> ok q' \<and> content q' = drop n (content q)"
    and clear_law: "ok q \<Longrightarrow> ok (clear q) \<and> content (clear q) = [] \<and> room q \<le> room (clear q)"
begin

text \<open>What does not fit is exactly the rest of what was offered.\<close>

lemma put_rest:
  assumes "ok q" and "put bs q = (n, q')"
  shows "content q' @ drop n bs = content q @ bs" and "ok q'"
  using put_law [OF assms] by auto

lemma put_all:
  assumes "ok q" and "put bs q = (n, q')" and "\<not> n < length bs"
  shows "content q' = content q @ bs"
  using put_law [OF assms(1,2)] assms(3) by auto

lemma put_short:
  assumes "ok q" and "put bs q = (n, q')" and "n < length bs"
  shows "room q' = 0"
  using put_law [OF assms(1,2)] assms(3) by auto

text \<open>Bytes leave in the order they came.\<close>

lemma get_front:
  assumes "ok q" and "get k q = (n, q')" and "k \<le> length (content q)"
  shows "take k (content q) @ content q' = content q" and "ok q'"
  using get_law [OF assms(1,2)] assms(3) by (auto simp: min_absorb1)

lemma clear_empty:
  assumes "ok q" and "content q = []"
  shows "content (clear q) = content q" and "ok (clear q)"
  using clear_law [OF assms(1)] assms(2) by auto

end

lemma clear_reset:
  "buf_ok N b \<Longrightarrow> buf_ok N (buf_reset b) \<and> pending (buf_reset b) = [] \<and> wleft b \<le> wleft (buf_reset b)"
  using reset_ok by (simp add: wleft_def buf_reset_def)

interpretation wb: byte_queue "buf_ok N" pending wleft buf_write drain buf_reset
proof unfold_locales
  fix q bs n q' k
  assume "buf_ok N q"
  note ok = this
  show "buf_write bs q = (n, q') \<Longrightarrow> n = min (length bs) (wleft q) \<and> buf_ok N q' \<and>
      pending q' = pending q @ take n bs \<and> wleft q' = wleft q - n"
    using buf_write_ok [OF ok] by blast
  show "drain k q = (n, q') \<Longrightarrow> n = min k (length (pending q)) \<and> buf_ok N q' \<and>
      pending q' = drop n (pending q)"
    using drain_ok [OF ok] length_pending [OF ok] by simp
qed (rule clear_reset)

text \<open>\<open>drain_reset\<close> gives the queue the same contents.\<close>

interpretation wbr: byte_queue "buf_ok N" pending wleft buf_write drain_reset buf_reset
proof unfold_locales
  fix q bs n q' k
  assume "buf_ok N q"
  note ok = this
  show "buf_write bs q = (n, q') \<Longrightarrow> n = min (length bs) (wleft q) \<and> buf_ok N q' \<and>
      pending q' = pending q @ take n bs \<and> wleft q' = wleft q - n"
    by (rule wb.put_law [OF ok])
  show "drain_reset k q = (n, q') \<Longrightarrow> n = min k (length (pending q)) \<and> buf_ok N q' \<and>
      pending q' = drop n (pending q)"
    using drain_reset_ok [OF ok] length_pending [OF ok] by simp
qed (rule clear_reset)

end
