(* ===== verification/Data_Streams.thy ===== *)
theory Data_Streams
  imports Byte_Buffer
begin

text \<open>
  The bodies of responses: \<open>StringStream\<close>, \<open>FileStream\<close> and \<open>EventStream\<close>, the classes
  derived from \<open>DataStream\<close>. \<open>remaining\<close> tells nghttp2 how much a stream has ready and
  whether the body ends there; \<open>send\<close> copies the next bytes into the session's buffer. The
  locale \<open>data_stream\<close> is this contract, and every class is an instance of it.
\<close>

section \<open>StringStream\<close>

text \<open>The pointers \<open>beg_\<close>, \<open>last_\<close> and \<open>end_\<close> into the string, as an offset.\<close>

record StringStream =
  ss_data :: string
  ss_last :: nat

definition new_string_stream :: "string \<Rightarrow> StringStream" where
  "new_string_stream str = \<lparr>ss_data = str, ss_last = 0\<rparr>"

definition ss_length :: "StringStream \<Rightarrow> nat" where
  "ss_length s = length (ss_data s)"

definition ss_remaining :: "StringStream \<Rightarrow> nat \<times> bool" where
  "ss_remaining s = (length (ss_data s) - ss_last s, True)"

definition ss_send :: "nat \<Rightarrow> StringStream \<Rightarrow> Buffer \<Rightarrow> (int \<times> StringStream \<times> Buffer) res" where
  "ss_send len s wb =
     (if ss_last s + len \<le> length (ss_data s) then
        bindE (write_full (take len (drop (ss_last s) (ss_data s))) wb)
          (\<lambda>wb'. Inr (0, s\<lparr>ss_last := ss_last s + len\<rparr>, wb'))
      else Inl Assertion)"

section \<open>FileStream\<close>

text \<open>
  \<open>length_\<close> and \<open>pos_\<close>. The file itself is behind \<open>pread\<close>: the answers to the successive
  calls of one \<open>send\<close> are a script.
\<close>

record FileStream =
  fs_length :: nat
  fs_pos :: nat

datatype pread_result = Interrupted | Read_failed | Got "byte list"

definition new_file_stream :: "nat \<Rightarrow> FileStream" where
  "new_file_stream len = \<lparr>fs_length = len, fs_pos = 0\<rparr>"

definition fs_remaining :: "FileStream \<Rightarrow> nat \<times> bool" where
  "fs_remaining f = (fs_length f - fs_pos f, True)"

text \<open>\<open>pread\<close> stores its bytes at \<open>wb->last()\<close>, before \<open>wb->write(nread)\<close> counts them.\<close>

definition store_raw :: "byte list \<Rightarrow> Buffer \<Rightarrow> Buffer res" where
  "store_raw bs b =
     (if blast b + length bs \<le> length (buf b) then Inr (b\<lparr>buf := copy_at (blast b) bs (buf b)\<rparr>)
      else Inl Undefined)"

abbreviation (input) ERR_TEMPORAL_CALLBACK_FAILURE :: int where
  "ERR_TEMPORAL_CALLBACK_FAILURE \<equiv> -521"

fun fs_send_loop ::
  "pread_result list \<Rightarrow> nat \<Rightarrow> FileStream \<Rightarrow> Buffer \<Rightarrow> (int \<times> FileStream \<times> Buffer) res" where
  "fs_send_loop script 0 f wb = Inr (0, f, wb)"
| "fs_send_loop [] (Suc n) f wb = Inl Unfinished"
| "fs_send_loop (r # script) (Suc n) f wb =
     (case r of
        Interrupted \<Rightarrow> fs_send_loop script (Suc n) f wb
      | Read_failed \<Rightarrow> Inr (ERR_TEMPORAL_CALLBACK_FAILURE, f, wb)
      | Got bs \<Rightarrow>
          bindE (store_raw bs wb)
            (\<lambda>wb'. fs_send_loop script (Suc n - length bs)
                     (f\<lparr>fs_pos := fs_pos f + length bs\<rparr>) (snd (write_n (length bs) wb'))))"

definition fs_send ::
  "pread_result list \<Rightarrow> nat \<Rightarrow> FileStream \<Rightarrow> Buffer \<Rightarrow> (int \<times> FileStream \<times> Buffer) res" where
  "fs_send script wlen f wb =
     (if wlen \<le> fst (fs_remaining f) then fs_send_loop script wlen f wb else Inl Assertion)"

text \<open>
  A script of a file with these contents: every answer to a call for \<open>n\<close> bytes at \<open>pos\<close>
  gives a part of the file there, not empty unless the file ends before.
\<close>

fun reads :: "byte list \<Rightarrow> nat \<Rightarrow> nat \<Rightarrow> pread_result list \<Rightarrow> bool" where
  "reads contents pos n [] = True"
| "reads contents pos n (Got bs # rs) \<longleftrightarrow>
     length bs \<le> n \<and> bs = take (length bs) (drop pos contents) \<and>
     (pos < length contents \<and> 0 < n \<longrightarrow> bs \<noteq> []) \<and> reads contents (pos + length bs) (n - length bs) rs"
| "reads contents pos n (_ # rs) = reads contents pos n rs"

definition answered :: "pread_result list \<Rightarrow> nat" where
  "answered rs = length (filter (\<lambda>r. r \<noteq> Interrupted) rs)"

lemma store_raw_fits:
  assumes "buf_ok N b" and "length bs \<le> wleft b"
  obtains b' where "store_raw bs b = Inr b'" and "appends N b bs (snd (write_n (length bs) b'))"
proof
  have "length bs + blast b \<le> length (buf b)" using assms by (auto simp: buf_ok_def wleft_def)
  then show "store_raw bs b = Inr (b\<lparr>buf := copy_at (blast b) bs (buf b)\<rparr>)"
    by (simp add: store_raw_def add.commute)
  have "snd (write_n (length bs) (b\<lparr>buf := copy_at (blast b) bs (buf b)\<rparr>)) =
      b\<lparr>buf := copy_at (blast b) bs (buf b), blast := blast b + length bs\<rparr>"
    using assms by (auto simp: write_n_def Let_def wleft_def buf_ok_def)
  then show "appends N b bs (snd (write_n (length bs) (b\<lparr>buf := copy_at (blast b) bs (buf b)\<rparr>)))"
    using pending_copy_at [OF assms] assms by (auto simp: appends_def wleft_def buf_ok_def)
qed

lemma fs_send_loop_reads:
  "buf_ok N wb \<Longrightarrow> n \<le> wleft wb \<Longrightarrow> reads contents (fs_pos f) n script \<Longrightarrow>
   fs_pos f + n \<le> length contents \<Longrightarrow>
   fs_send_loop script n f wb = Inl Unfinished \<and> answered script < n \<or>
   (\<exists>wb'. fs_send_loop script n f wb = Inr (0, f\<lparr>fs_pos := fs_pos f + n\<rparr>, wb') \<and>
      appends N wb (take n (drop (fs_pos f) contents)) wb') \<or>
   (\<exists>f' wb'. fs_send_loop script n f wb = Inr (ERR_TEMPORAL_CALLBACK_FAILURE, f', wb') \<and>
      Read_failed \<in> set script)"
proof (induction script n f wb rule: fs_send_loop.induct)
  case (3 r script n f wb)
  show ?case
  proof (cases r)
    case Interrupted
    then show ?thesis using 3 by (auto simp: answered_def)
  next
    case (Got bs)
    have bs: "length bs \<le> Suc n" "bs = take (length bs) (drop (fs_pos f) contents)" "bs \<noteq> []"
      "reads contents (fs_pos f + length bs) (Suc n - length bs) script"
      using 3(5,6) by (auto simp: Got)
    obtain wb' where wb': "store_raw bs wb = Inr wb'"
      "appends N wb bs (snd (write_n (length bs) wb'))"
      using store_raw_fits [of N wb bs] bs(1) 3(3,4) by auto
    let ?f = "f\<lparr>fs_pos := fs_pos f + length bs\<rparr>" and ?wb = "snd (write_n (length bs) wb')"
    have rest: "take (Suc n) (drop (fs_pos f) contents) =
        bs @ take (Suc n - length bs) (drop (fs_pos f + length bs) contents)"
      using bs(1,2) by (metis add.commute drop_drop le_add_diff_inverse take_add)
    have "fs_send_loop (r # script) (Suc n) f wb = fs_send_loop script (Suc n - length bs) ?f ?wb"
      by (simp add: Got wb'(1))
    moreover have "buf_ok N ?wb" "Suc n - length bs \<le> wleft ?wb"
      using wb'(2) 3(4) by (auto simp: appends_def)
    moreover have "k < n" if "k < Suc n - length bs" for k
      using that bs(3) by (cases bs) auto
    ultimately show ?thesis
      using 3(2) [OF Got, of wb'] bs 3(6) wb'(2) unfolding rest
      by (auto simp: Got answered_def intro: appends_trans)
  qed simp
qed (auto simp: answered_def)

text \<open>On a file shorter than promised the loop makes no progress, whatever the script's length.\<close>

lemma fs_send_loop_spins:
  "buf_ok N wb \<Longrightarrow> length contents \<le> fs_pos f \<Longrightarrow> reads contents (fs_pos f) (Suc n) script \<Longrightarrow>
   Read_failed \<notin> set script \<Longrightarrow> fs_send_loop script (Suc n) f wb = Inl Unfinished"
proof (induction script arbitrary: wb)
  case (Cons r script)
  have "store_raw [] wb = Inr wb" if "buf_ok N wb" for wb
    using that by (simp add: store_raw_def copy_at_def buf_ok_def)
  moreover have "snd (write_n 0 wb) = wb" by (simp add: write_n_def)
  ultimately show ?case using Cons by (cases r) auto
qed simp

section \<open>EventStream\<close>

text \<open>
  The alternatives of an event's content all have a length and a view, the bytes. The name is the
  channel up to the first slash.
\<close>

record Event =
  ev_name :: string
  ev_channel :: string
  ev_data :: string

definition new_event :: "string \<Rightarrow> string \<Rightarrow> Event" where
  "new_event channel payload =
     \<lparr>ev_name = (case find_char (CHR ''/'') channel of None \<Rightarrow> channel | Some i \<Rightarrow> take i channel),
      ev_channel = channel, ev_data = payload\<rparr>"

record EventStream =
  es_pos :: nat
  es_queue :: "Event list"
  es_paused :: bool

definition new_event_stream :: EventStream where
  "new_event_stream = \<lparr>es_pos = 0, es_queue = [], es_paused = False\<rparr>"

text \<open>\<open>length()\<close> marks the stream paused when it has nothing to send.\<close>

definition es_length :: "EventStream \<Rightarrow> nat \<times> EventStream" where
  "es_length es =
     (case es_queue es of
        [] \<Rightarrow> (0, es\<lparr>es_paused := True\<rparr>)
      | ev # _ \<Rightarrow>
          (length (ev_name ev) + length (ev_data ev) + (length ''event: '' + length ''data: '' + 3), es))"

definition es_remaining :: "EventStream \<Rightarrow> (nat \<times> bool) \<times> EventStream" where
  "es_remaining es = (let (len, es') = es_length es in ((len - es_pos es', False), es'))"

text \<open>
  \<open>submit\<close>: the flag says that the stream was paused, so that nghttp2 is told to resume it and
  the session starts writing.
\<close>

definition es_submit :: "Event \<Rightarrow> EventStream \<Rightarrow> bool \<times> EventStream" where
  "es_submit ev es =
     (let es' = es\<lparr>es_queue := es_queue es @ [ev]\<rparr> in
      if es_paused es' then (True, es'\<lparr>es_pos := 0, es_paused := False\<rparr>) else (False, es'))"

definition es_ping :: "EventStream \<Rightarrow> bool \<times> EventStream" where
  "es_ping = es_submit (new_event ''ping'' ''Hello!'')"

definition ext_pre :: "string \<Rightarrow> nat" where
  "ext_pre name = length ''event: '' + length name + length ''data: '' + 1"

text \<open>One turn of the loop that writes the part of an event before its data piece by piece.\<close>

definition pre_piece :: "string \<Rightarrow> nat \<Rightarrow> nat \<Rightarrow> string" where
  "pre_piece name pos to_write =
     (let l1 = length ''event: ''; nl = length name; l2 = length ''data: '' in
      if pos < l1 then take to_write (drop pos ''event: '')
      else if pos < l1 + nl then take to_write (drop (pos - l1) name)
      else if pos = l1 + nl then [CHR 0x0A]
      else if pos < l1 + nl + 1 + l2 then take to_write (drop (pos - (l1 + nl + 1)) ''data: '')
      else [])"

lemma pre_piece_nonempty: "0 < to_write \<Longrightarrow> pos < ext_pre name \<Longrightarrow> pre_piece name pos to_write \<noteq> []"
  by (auto simp: pre_piece_def ext_pre_def Let_def)

function pre_loop :: "string \<Rightarrow> nat \<Rightarrow> nat \<Rightarrow> Buffer \<Rightarrow> (nat \<times> nat \<times> Buffer) res" where
  "pre_loop name pos to_write wb =
     (if 0 < to_write \<and> pos < ext_pre name then
        (let s = pre_piece name pos to_write in
         bindE (write_full s wb) (pre_loop name (pos + length s) (to_write - length s)))
      else Inr (pos, to_write, wb))"
  by pat_completeness auto
termination
  by (relation "measure (\<lambda>(name, pos, to_write, wb). to_write)")
    (auto intro!: diff_less simp: pre_piece_nonempty)

declare pre_loop.simps [simp del]

primrec newlines :: "nat \<Rightarrow> Buffer \<Rightarrow> Buffer res" where
  "newlines 0 wb = Inr wb"
| "newlines (Suc n) wb = bindE (write_byte (CHR 0x0A) wb) (newlines n)"

definition es_send_head :: "string \<Rightarrow> nat \<Rightarrow> nat \<Rightarrow> Buffer \<Rightarrow> (nat \<times> nat \<times> Buffer) res" where
  "es_send_head name pos wlen wb =
     (if pos = 0 \<and> ext_pre name \<le> wlen then
        bindE (write_full ''event: '' wb) (\<lambda>wb1.
        bindE (write_full name wb1) (\<lambda>wb2.
        bindE (write_full [CHR 0x0A] wb2) (\<lambda>wb3.
        bindE (write_full ''data: '' wb3) (\<lambda>wb4.
          Inr (pos + ext_pre name, wlen - ext_pre name, wb4)))))
      else pre_loop name pos wlen wb)"

text \<open>
  \<open>pos_ - ext_pre\<close> is unsigned: before the data it wraps to a position past every string, and
  \<open>substr\<close> throws.
\<close>

definition es_send :: "nat \<Rightarrow> EventStream \<Rightarrow> Buffer \<Rightarrow> (int \<times> EventStream \<times> Buffer) res" where
  "es_send wlen es wb =
     (case es_queue es of
        [] \<Rightarrow> Inr (0, es, wb)
      | ev # queue \<Rightarrow>
          (let len = ext_pre (ev_name ev) + length (ev_data ev) + 2 in
           if \<not> es_pos es + wlen \<le> len then Inl Assertion
           else
             bindE (es_send_head (ev_name ev) (es_pos es) wlen wb) (\<lambda>(pos1, to_write, wb1).
             bindE (if pos1 < ext_pre (ev_name ev) then Inl Out_of_range
                    else substr (ev_data ev) (pos1 - ext_pre (ev_name ev)) (Some to_write)) (\<lambda>s.
             bindE (write_full s wb1) (\<lambda>wb2.
             bindE (newlines (to_write - length s) wb2) (\<lambda>wb3.
               let pos2 = pos1 + length s + (to_write - length s) in
               Inr (0, if len \<le> pos2 then es\<lparr>es_queue := queue, es_pos := 0\<rparr>
                       else es\<lparr>es_pos := pos2\<rparr>, wb3)))))))"

section \<open>What an event looks like on the wire\<close>

definition event_head :: "string \<Rightarrow> byte list" where
  "event_head name = ''event: '' @ name @ [CHR 0x0A] @ ''data: ''"

definition render :: "Event \<Rightarrow> byte list" where
  "render ev = event_head (ev_name ev) @ ev_data ev @ [CHR 0x0A, CHR 0x0A]"

definition es_todo :: "EventStream \<Rightarrow> byte list" where
  "es_todo es = drop (es_pos es) (concat (map render (es_queue es)))"

text \<open>The read position is inside the front event, and at 0 when there is none.\<close>

definition es_ok :: "EventStream \<Rightarrow> bool" where
  "es_ok es \<longleftrightarrow>
     (case es_queue es of [] \<Rightarrow> es_pos es = 0 | ev # _ \<Rightarrow> es_pos es < length (render ev))"

text \<open>
  The chunks an event stream can send: they reach the event's data, and do not begin at its very
  last byte.
\<close>

definition es_fits :: "EventStream \<Rightarrow> nat \<Rightarrow> bool" where
  "es_fits es n \<longleftrightarrow>
     (case es_queue es of
        [] \<Rightarrow> True
      | ev # _ \<Rightarrow> ext_pre (ev_name ev) \<le> es_pos es + n \<and>
          es_pos es \<le> ext_pre (ev_name ev) + length (ev_data ev))"

lemma length_event_head [simp]: "length (event_head name) = ext_pre name"
  by (simp add: event_head_def ext_pre_def)

lemma length_render: "length (render ev) = ext_pre (ev_name ev) + length (ev_data ev) + 2"
  by (simp add: render_def)

lemma piece_in_middle:
  assumes "s = take k (drop i b)" and "i \<le> length b"
  shows "s = take (length s) (drop (length a + i) (a @ b @ c))"
proof -
  have "drop (length a + i) (a @ b @ c) = drop i b @ c" using assms(2) by simp
  then show ?thesis using assms(1) by (simp add: min_def)
qed

lemma pre_piece_head:
  assumes "0 < to_write" and "pos < ext_pre name"
  shows "pre_piece name pos to_write =
      take (length (pre_piece name pos to_write)) (drop pos (event_head name))"
    and "length (pre_piece name pos to_write) \<le> to_write"
    and "pos + length (pre_piece name pos to_write) \<le> ext_pre name"
proof -
  let ?s = "pre_piece name pos to_write"
  show "length ?s \<le> to_write" "pos + length ?s \<le> ext_pre name"
    using assms by (auto simp: pre_piece_def ext_pre_def Let_def)
  consider "pos < 7" | "7 \<le> pos" "pos < 7 + length name" | "pos = 7 + length name"
    | "7 + length name < pos" "pos < 7 + length name + 7"
    using assms(2) by (force simp: ext_pre_def)
  then show "?s = take (length ?s) (drop pos (event_head name))"
  proof cases
    case 1
    then have "?s = take to_write (drop pos ''event: '')" by (simp add: pre_piece_def)
    then show ?thesis
      using piece_in_middle [of ?s to_write pos "''event: ''" "[]"] 1 by (simp add: event_head_def)
  next
    case 2
    then have "?s = take to_write (drop (pos - 7) name)"
      by (simp add: pre_piece_def eval_nat_numeral)
    then have "?s = take (length ?s)
        (drop (length ''event: '' + (pos - 7)) (''event: '' @ name @ ([CHR 0x0A] @ ''data: '')))"
      by (rule piece_in_middle) (use 2 in simp)
    moreover have "length ''event: '' + (pos - 7) = pos" using 2 by simp
    ultimately show ?thesis by (simp only: event_head_def)
  next
    case 3
    then have "?s = take 1 (drop 0 [CHR 0x0A])" by (simp add: pre_piece_def)
    then have "?s = take (length ?s)
        (drop (length (''event: '' @ name) + 0) ((''event: '' @ name) @ [CHR 0x0A] @ ''data: ''))"
      by (rule piece_in_middle) simp
    moreover have "length (''event: '' @ name) + 0 = pos" using 3 by simp
    ultimately show ?thesis by (simp only: event_head_def append_assoc)
  next
    case 4
    then have "?s = take to_write (drop (pos - (8 + length name)) ''data: '')"
      by (simp add: pre_piece_def eval_nat_numeral)
    then have "?s = take (length ?s)
        (drop (length (''event: '' @ name @ [CHR 0x0A]) + (pos - (8 + length name)))
          ((''event: '' @ name @ [CHR 0x0A]) @ ''data: '' @ []))"
      by (rule piece_in_middle) (use 4 in simp)
    moreover have "length (''event: '' @ name @ [CHR 0x0A]) + (pos - (8 + length name)) = pos"
      using 4 by simp
    ultimately show ?thesis by (simp only: event_head_def append_assoc append_Nil2)
  qed
qed

lemma take_drop_append:
  assumes "s = take (length s) (drop p xs)" and "length s \<le> k"
  shows "take k (drop p xs) = s @ take (k - length s) (drop (p + length s) xs)"
  using assms by (metis add.commute drop_drop le_add_diff_inverse take_add)

lemma pre_loop_appends:
  "buf_ok N wb \<Longrightarrow> to_write \<le> wleft wb \<Longrightarrow> pos \<le> ext_pre name \<Longrightarrow>
   \<exists>wb'. pre_loop name pos to_write wb =
       Inr (pos + min to_write (ext_pre name - pos), to_write - min to_write (ext_pre name - pos), wb') \<and>
     appends N wb (take to_write (drop pos (event_head name))) wb'"
proof (induction name pos to_write wb rule: pre_loop.induct)
  case (1 name pos to_write wb)
  show ?case
  proof (cases "0 < to_write \<and> pos < ext_pre name")
    case False
    then have "to_write = 0 \<or> pos = ext_pre name" using "1.prems"(3) by auto
    then show ?thesis using "1.prems"(1) by (auto simp: pre_loop.simps)
  next
    case True
    let ?s = "pre_piece name pos to_write"
    note piece = pre_piece_head [of to_write pos name]
    obtain wb1 where wb1: "write_full ?s wb = Inr wb1" "appends N wb ?s wb1"
      using write_full_fits [OF "1.prems"(1), of ?s] piece(2) True "1.prems"(2) by auto
    have wb1': "buf_ok N wb1" "to_write - length ?s \<le> wleft wb1"
      using wb1(2) "1.prems"(2) by (auto simp: appends_def)
    obtain wb' where wb': "pre_loop name (pos + length ?s) (to_write - length ?s) wb1 =
        Inr (pos + length ?s + min (to_write - length ?s) (ext_pre name - (pos + length ?s)),
          to_write - length ?s - min (to_write - length ?s) (ext_pre name - (pos + length ?s)), wb')"
      "appends N wb1 (take (to_write - length ?s) (drop (pos + length ?s) (event_head name))) wb'"
      using "1.IH" [OF True refl, of wb1] wb1' piece True "1.prems" by auto
    have "length ?s + min (to_write - length ?s) (ext_pre name - (pos + length ?s)) =
        min to_write (ext_pre name - pos)"
      using piece True by auto
    moreover have "take to_write (drop pos (event_head name)) =
        ?s @ take (to_write - length ?s) (drop (pos + length ?s) (event_head name))"
      using piece True by (intro take_drop_append) auto
    ultimately show ?thesis
      using True wb1 wb' appends_trans [OF wb1(2) wb'(2)]
      by (auto simp: pre_loop.simps [of name pos to_write wb] Let_def add.assoc)
  qed
qed

lemma newlines_appends:
  "buf_ok N wb \<Longrightarrow> n \<le> wleft wb \<Longrightarrow>
   \<exists>wb'. newlines n wb = Inr wb' \<and> appends N wb (replicate n (CHR 0x0A)) wb'"
proof (induction n arbitrary: wb)
  case (Suc n)
  obtain wb1 where wb1: "write_byte (CHR 0x0A) wb = Inr wb1" "appends N wb [CHR 0x0A] wb1"
    using write_byte_fits [OF Suc.prems(1)] Suc.prems(2) by (metis One_nat_def Suc_le_D le_simps(3) zero_less_Suc)
  then obtain wb' where "newlines n wb1 = Inr wb'" "appends N wb1 (replicate n (CHR 0x0A)) wb'"
    using Suc.IH [of wb1] Suc.prems(2) by (fastforce simp: appends_def)
  then show ?case using wb1 appends_trans [OF wb1(2)] by auto
qed simp

lemma es_send_head_appends:
  assumes "buf_ok N wb" and "wlen \<le> wleft wb" and "pos \<le> ext_pre name"
  shows "\<exists>wb'. es_send_head name pos wlen wb =
       Inr (pos + min wlen (ext_pre name - pos), wlen - min wlen (ext_pre name - pos), wb') \<and>
     appends N wb (take wlen (drop pos (event_head name))) wb'"
proof (cases "pos = 0 \<and> ext_pre name \<le> wlen")
  case False
  then show ?thesis using pre_loop_appends [OF assms] by (auto simp: es_send_head_def)
next
  case True
  then have room: "ext_pre name \<le> wleft wb" using assms(2) by simp
  obtain wb1 where 1: "write_full ''event: '' wb = Inr wb1" "appends N wb ''event: '' wb1"
    using write_full_fits [OF assms(1), of "''event: ''"] room by (auto simp: ext_pre_def)
  obtain wb2 where 2: "write_full name wb1 = Inr wb2" "appends N wb1 name wb2"
    using write_full_fits [of N wb1 name] room 1(2) by (auto simp: ext_pre_def appends_def)
  obtain wb3 where 3: "write_full [CHR 0x0A] wb2 = Inr wb3" "appends N wb2 [CHR 0x0A] wb3"
    using write_full_fits [of N wb2 "[CHR 0x0A]"] room 1(2) 2(2) by (auto simp: ext_pre_def appends_def)
  obtain wb4 where 4: "write_full ''data: '' wb3 = Inr wb4" "appends N wb3 ''data: '' wb4"
    using write_full_fits [of N wb3 "''data: ''"] room 1(2) 2(2) 3(2)
    by (auto simp: ext_pre_def appends_def)
  have "appends N wb (event_head name) wb4"
    using appends_trans [OF 1(2) appends_trans [OF 2(2) appends_trans [OF 3(2) 4(2)]]]
    by (simp add: event_head_def)
  then show ?thesis using True 1 2 3 4 by (auto simp: es_send_head_def)
qed

text \<open>
  A chunk that fits is sent as asked: the next bytes of the front event, which leaves the queue
  with its last one.
\<close>

lemma es_send_exact:
  assumes "es_ok es" and "es_queue es = ev # queue" and "es_pos es + n \<le> length (render ev)"
    and "es_fits es n" and "buf_ok N wb" and "n \<le> wleft wb"
  shows "\<exists>wb'. es_send n es wb =
      Inr (0, if es_pos es + n = length (render ev) then es\<lparr>es_queue := queue, es_pos := 0\<rparr>
              else es\<lparr>es_pos := es_pos es + n\<rparr>, wb') \<and>
    appends N wb (take n (drop (es_pos es) (render ev))) wb'"
proof -
  define pre where "pre = ext_pre (ev_name ev)"
  define pos where "pos = es_pos es"
  define k where "k = min n (pre - pos)"
  define pos1 where "pos1 = (if pos \<le> pre then pre else pos)"
  have bounds: "pre \<le> pos + n" "pos \<le> pre + length (ev_data ev)" "pos + n \<le> pre + length (ev_data ev) + 2"
    using assms(2-4) by (auto simp: es_fits_def length_render pre_def pos_def)
  have k: "k = pre - pos" "pos + k = pos1" using bounds by (auto simp: k_def pos1_def)
  obtain wb1 where wb1: "es_send_head (ev_name ev) pos n wb = Inr (pos1, n - k, wb1)"
    "appends N wb (take n (drop pos (event_head (ev_name ev)))) wb1"
  proof (cases "pos \<le> pre")
    case True
    then show ?thesis
      using es_send_head_appends [OF assms(5,6), of pos "ev_name ev"] k that by (auto simp: pre_def k_def)
  next
    case False
    then show ?thesis
      using that [of wb] k assms(5) by (auto simp: es_send_head_def pre_loop.simps pre_def pos1_def)
  qed
  let ?off = "pos1 - pre"
  define s where "s = take (n - k) (drop ?off (ev_data ev))"
  have sub: "substr (ev_data ev) ?off (Some (n - k)) = Inr s"
    using bounds by (auto simp: s_def pos1_def intro!: substr_take_ok)
  have room1: "buf_ok N wb1" "n - k \<le> wleft wb1"
    using wb1(2) assms(6) bounds by (auto simp: appends_def pre_def k(1))
  obtain wb2 where wb2: "write_full s wb1 = Inr wb2" "appends N wb1 s wb2"
    using write_full_fits [OF room1(1), of s] room1(2) by (metis s_def length_take min.coboundedI2)
  have room2: "buf_ok N wb2" "n - k - length s \<le> wleft wb2"
    using wb2(2) room1(2) by (auto simp: appends_def)
  obtain wb3 where wb3: "newlines (n - k - length s) wb2 = Inr wb3"
    "appends N wb2 (replicate (n - k - length s) (CHR 0x0A)) wb3"
    using newlines_appends [OF room2] by auto
  have "take n (drop pos (render ev)) =
      take n (drop pos (event_head (ev_name ev))) @ s @ replicate (n - k - length s) (CHR 0x0A)"
  proof -
    have "drop pos (render ev) = drop pos (event_head (ev_name ev)) @
        drop ?off (ev_data ev @ [CHR 0x0A, CHR 0x0A])"
      using bounds by (auto simp: render_def pre_def pos1_def)
    then have "take n (drop pos (render ev)) = take n (drop pos (event_head (ev_name ev))) @
        take (n - k) (drop ?off (ev_data ev @ [CHR 0x0A, CHR 0x0A]))"
      using bounds k(1) by (simp add: pre_def)
    also have "take (n - k) (drop ?off (ev_data ev @ [CHR 0x0A, CHR 0x0A])) =
        s @ replicate (n - k - length s) (CHR 0x0A)"
    proof -
      let ?m = "n - k - (length (ev_data ev) - ?off)"
      have "?m = 0 \<or> ?m = 1 \<or> ?m = 2" using bounds k(2) by (auto simp: pos1_def)
      moreover have "?off \<le> length (ev_data ev)" using bounds by (auto simp: pos1_def)
      moreover have "n - k - length s = ?m" by (simp add: s_def min_def)
      ultimately show ?thesis by (auto simp: s_def numeral_2_eq_2)
    qed
    finally show ?thesis .
  qed
  then have app: "appends N wb (take n (drop pos (render ev))) wb3"
    using appends_trans [OF wb1(2) appends_trans [OF wb2(2) wb3(2)]] by simp
  have pos2: "pos1 + length s + (n - k - length s) = pos + n"
    using k bounds by (auto simp: s_def)
  have "\<not> pos1 < pre" by (simp add: pos1_def)
  then show ?thesis
    using assms(2) bounds app wb1(1) sub wb2(1) wb3(1) pos2
    by (auto simp: es_send_def Let_def length_render simp flip: pre_def pos_def)
qed

text \<open>
  Every other chunk makes \<open>substr\<close> throw: one that stops before the event's data has begun, and
  one that begins at the event's last byte.
\<close>

lemma es_send_throws:
  assumes "es_ok es" and "es_queue es = ev # queue" and "es_pos es + n \<le> length (render ev)"
    and "\<not> es_fits es n" and "buf_ok N wb" and "n \<le> wleft wb"
  shows "es_send n es wb = Inl Out_of_range"
proof (cases "es_pos es \<le> ext_pre (ev_name ev)")
  case True
  then have early: "es_pos es + n < ext_pre (ev_name ev)"
    using assms(2,4) by (auto simp: es_fits_def)
  obtain wb1 where "es_send_head (ev_name ev) (es_pos es) n wb = Inr (es_pos es + n, 0, wb1)"
    using es_send_head_appends [OF assms(5,6) True] early by (auto simp: min_def)
  then show ?thesis
    using assms(2,3) early by (simp add: es_send_def Let_def length_render)
next
  case False
  then have late: "ext_pre (ev_name ev) + length (ev_data ev) < es_pos es"
    using assms(2,4) by (auto simp: es_fits_def)
  have "es_send_head (ev_name ev) (es_pos es) n wb = Inr (es_pos es, n, wb)"
    using False by (simp add: es_send_head_def pre_loop.simps)
  then show ?thesis
    using assms(2,3) late False by (simp add: es_send_def Let_def length_render substr_throws)
qed

section \<open>The contract of \<open>DataStream\<close>\<close>

text \<open>
  \<open>todo d\<close> is what the stream has still to send; \<open>remaining\<close> announces a first part of it (all
  of it when the body ends there); a chunk of the announced part that the stream can cut
  (\<open>fits\<close>) is appended to the buffer and nothing else happens.
\<close>

locale data_stream =
  fixes ok :: "'d \<Rightarrow> bool"
    and todo :: "'d \<Rightarrow> byte list"
    and remaining :: "'d \<Rightarrow> (nat \<times> bool) \<times> 'd"
    and fits :: "'d \<Rightarrow> nat \<Rightarrow> bool"
    and send :: "nat \<Rightarrow> 'd \<Rightarrow> Buffer \<Rightarrow> (int \<times> 'd \<times> Buffer) res"
  assumes remaining_law: "ok d \<Longrightarrow> remaining d = ((k, close), d') \<Longrightarrow>
      ok d' \<and> todo d' = todo d \<and> k \<le> length (todo d) \<and> (close \<longrightarrow> k = length (todo d))"
    and send_law: "ok d \<Longrightarrow> n \<le> fst (fst (remaining d)) \<Longrightarrow> fits d n \<Longrightarrow> buf_ok N b \<Longrightarrow> n \<le> wleft b \<Longrightarrow>
      \<exists>d' b'. send n d b = Inr (0, d', b') \<and> ok d' \<and> todo d' = drop n (todo d) \<and>
        appends N b (take n (todo d)) b'"
begin

lemma remaining_le: "ok d \<Longrightarrow> fst (fst (remaining d)) \<le> length (todo d)"
  using remaining_law by (metis prod.collapse)

lemma send_conserves:
  assumes "ok d" and "n \<le> fst (fst (remaining d))" and "fits d n" and "buf_ok N b" and "n \<le> wleft b"
  shows "\<exists>d' b'. send n d b = Inr (0, d', b') \<and> ok d' \<and> pending b' @ todo d' = pending b @ todo d"
  using send_law [OF assms] by (auto simp: appends_def)

end

text \<open>A body that ends: everything is announced at once and can be cut anywhere.\<close>

locale finite_body = data_stream +
  assumes closes: "ok d \<Longrightarrow> snd (fst (remaining d))"
    and cuts: "ok d \<Longrightarrow> fits d n"
begin

lemma announces_all: "ok d \<Longrightarrow> fst (fst (remaining d)) = length (todo d)"
  using remaining_law closes by (metis prod.collapse)

lemma send_all:
  assumes "ok d" and "n \<le> length (todo d)" and "buf_ok N b" and "n \<le> wleft b"
  shows "\<exists>d' b'. send n d b = Inr (0, d', b') \<and> ok d' \<and> todo d' = drop n (todo d) \<and>
    appends N b (take n (todo d)) b'"
  using send_law [OF assms(1) _ cuts [OF assms(1)] assms(3,4)] assms(2) announces_all [OF assms(1)]
  by simp

end

definition ss_ok :: "StringStream \<Rightarrow> bool" where
  "ss_ok s \<longleftrightarrow> ss_last s \<le> length (ss_data s)"

definition ss_todo :: "StringStream \<Rightarrow> byte list" where
  "ss_todo s = drop (ss_last s) (ss_data s)"

interpretation ss: finite_body ss_ok ss_todo "\<lambda>s. (ss_remaining s, s)" "\<lambda>s n. True" ss_send
proof unfold_locales
  fix d n N b
  assume "ss_ok d" "n \<le> fst (fst (ss_remaining d, d))" "buf_ok N b" "n \<le> wleft b"
  then show "\<exists>d' b'. ss_send n d b = Inr (0, d', b') \<and> ss_ok d' \<and> ss_todo d' = drop n (ss_todo d) \<and>
      appends N b (take n (ss_todo d)) b'"
    using write_full_fits [of N b "take n (drop (ss_last d) (ss_data d))"]
    by (fastforce simp: ss_send_def ss_remaining_def ss_ok_def ss_todo_def add.commute)
qed (auto simp: ss_remaining_def ss_ok_def ss_todo_def)

text \<open>
  A file stream over a file of these contents, when no read fails and the answers do not run dry.
\<close>

definition fs_ok :: "byte list \<Rightarrow> (nat \<Rightarrow> nat \<Rightarrow> pread_result list) \<Rightarrow> FileStream \<Rightarrow> bool" where
  "fs_ok contents scripts f \<longleftrightarrow> fs_pos f \<le> fs_length f \<and> fs_length f \<le> length contents \<and>
     (\<forall>pos n. reads contents pos n (scripts pos n) \<and> n \<le> answered (scripts pos n) \<and>
        Read_failed \<notin> set (scripts pos n))"

definition fs_todo :: "byte list \<Rightarrow> FileStream \<Rightarrow> byte list" where
  "fs_todo contents f = take (fs_length f - fs_pos f) (drop (fs_pos f) contents)"

interpretation fs: finite_body "fs_ok contents scripts" "fs_todo contents" "\<lambda>f. (fs_remaining f, f)"
  "\<lambda>f n. True" "\<lambda>n f. fs_send (scripts (fs_pos f) n) n f"
proof unfold_locales
  fix d n N b
  assume ok: "fs_ok contents scripts d" "n \<le> fst (fst (fs_remaining d, d))" "buf_ok N b" "n \<le> wleft b"
  then obtain wb' where wb': "fs_send_loop (scripts (fs_pos d) n) n d b =
        Inr (0, d\<lparr>fs_pos := fs_pos d + n\<rparr>, wb')" "appends N b (take n (drop (fs_pos d) contents)) wb'"
    using fs_send_loop_reads [where N = N and wb = b and n = n and f = d and script = "scripts (fs_pos d) n"]
    by (fastforce simp: fs_ok_def fs_remaining_def)
  then show "\<exists>d' b'. fs_send (scripts (fs_pos d) n) n d b = Inr (0, d', b') \<and> fs_ok contents scripts d' \<and>
      fs_todo contents d' = drop n (fs_todo contents d) \<and> appends N b (take n (fs_todo contents d)) b'"
    using ok by (auto simp: fs_send_def fs_ok_def fs_remaining_def fs_todo_def drop_take min_def
        add.commute)
qed (auto simp: fs_remaining_def fs_ok_def fs_todo_def)

lemma es_todo_front:
  "es_ok es \<Longrightarrow> es_queue es = ev # queue \<Longrightarrow>
     es_todo es = drop (es_pos es) (render ev) @ concat (map render queue)"
  by (auto simp: es_ok_def es_todo_def)

lemma es_ok_front: "0 < length (render ev)"
  by (simp add: length_render)

interpretation es: data_stream es_ok es_todo es_remaining es_fits es_send
proof unfold_locales
  fix es k close es'
  assume "es_ok es" "es_remaining es = ((k, close), es')"
  then show "es_ok es' \<and> es_todo es' = es_todo es \<and> k \<le> length (es_todo es) \<and>
      (close \<longrightarrow> k = length (es_todo es))"
    by (auto simp: es_remaining_def es_length_def es_ok_def es_todo_def length_render ext_pre_def
        split: list.splits)
next
  fix es n N b
  assume ok: "es_ok es" "n \<le> fst (fst (es_remaining es))" "es_fits es n" "buf_ok N b" "n \<le> wleft b"
  show "\<exists>es' b'. es_send n es b = Inr (0, es', b') \<and> es_ok es' \<and> es_todo es' = drop n (es_todo es) \<and>
      appends N b (take n (es_todo es)) b'"
  proof (cases "es_queue es")
    case Nil
    then show ?thesis
      using ok by (auto simp: es_send_def es_remaining_def es_length_def es_ok_def es_todo_def)
  next
    case (Cons ev queue)
    have n: "es_pos es + n \<le> length (render ev)"
      using ok(1,2) Cons by (auto simp: es_remaining_def es_length_def es_ok_def length_render ext_pre_def)
    note todo = es_todo_front [OF ok(1) Cons]
    obtain b' where b': "es_send n es b =
        Inr (0, if es_pos es + n = length (render ev) then es\<lparr>es_queue := queue, es_pos := 0\<rparr>
                else es\<lparr>es_pos := es_pos es + n\<rparr>, b')"
      "appends N b (take n (drop (es_pos es) (render ev))) b'"
      using es_send_exact [OF ok(1) Cons n ok(3-5)] by blast
    show ?thesis
    proof (cases "es_pos es + n = length (render ev)")
      case True
      then have "n = length (drop (es_pos es) (render ev))" by simp
      then show ?thesis
        using b' True todo es_ok_front
        by (auto simp: es_ok_def es_todo_def split: list.splits)
    next
      case False
      let ?es = "es\<lparr>es_pos := es_pos es + n\<rparr>"
      have "es_ok ?es" using n False Cons by (simp add: es_ok_def)
      moreover from this have "es_todo ?es = drop n (es_todo es)"
        using es_todo_front [of ?es ev queue] Cons n todo by (simp add: add.commute)
      moreover have "take n (es_todo es) = take n (drop (es_pos es) (render ev))"
        using todo n by simp
      ultimately show ?thesis using b' False by simp
    qed
  qed
qed

section \<open>The three classes behind one pointer\<close>

datatype DataStream = Is_string StringStream | Is_file FileStream | Is_event EventStream

primrec ds_remaining :: "DataStream \<Rightarrow> (nat \<times> bool) \<times> DataStream" where
  "ds_remaining (Is_string s) = (ss_remaining s, Is_string s)"
| "ds_remaining (Is_file f) = (fs_remaining f, Is_file f)"
| "ds_remaining (Is_event e) = (let (r, e') = es_remaining e in (r, Is_event e'))"

definition wrap_send :: "('d \<Rightarrow> DataStream) \<Rightarrow> (int \<times> 'd \<times> Buffer) res \<Rightarrow> (int \<times> DataStream \<times> Buffer) res" where
  "wrap_send C r = bindE r (\<lambda>(rv, d, wb). Inr (rv, C d, wb))"

primrec ds_send ::
  "(nat \<Rightarrow> nat \<Rightarrow> pread_result list) \<Rightarrow> nat \<Rightarrow> DataStream \<Rightarrow> Buffer \<Rightarrow> (int \<times> DataStream \<times> Buffer) res"
where
  "ds_send scripts n (Is_string s) wb = wrap_send Is_string (ss_send n s wb)"
| "ds_send scripts n (Is_file f) wb = wrap_send Is_file (fs_send (scripts (fs_pos f) n) n f wb)"
| "ds_send scripts n (Is_event e) wb = wrap_send Is_event (es_send n e wb)"

primrec ds_ok :: "byte list \<Rightarrow> (nat \<Rightarrow> nat \<Rightarrow> pread_result list) \<Rightarrow> DataStream \<Rightarrow> bool" where
  "ds_ok contents scripts (Is_string s) = ss_ok s"
| "ds_ok contents scripts (Is_file f) = fs_ok contents scripts f"
| "ds_ok contents scripts (Is_event e) = es_ok e"

primrec ds_todo :: "byte list \<Rightarrow> DataStream \<Rightarrow> byte list" where
  "ds_todo contents (Is_string s) = ss_todo s"
| "ds_todo contents (Is_file f) = fs_todo contents f"
| "ds_todo contents (Is_event e) = es_todo e"

primrec ds_fits :: "DataStream \<Rightarrow> nat \<Rightarrow> bool" where
  "ds_fits (Is_string s) n = True"
| "ds_fits (Is_file f) n = True"
| "ds_fits (Is_event e) n = es_fits e n"

interpretation ds: data_stream "ds_ok contents scripts" "ds_todo contents" ds_remaining ds_fits
  "ds_send scripts"
proof unfold_locales
  fix d k close d'
  assume "ds_ok contents scripts d" "ds_remaining d = ((k, close), d')"
  then show "ds_ok contents scripts d' \<and> ds_todo contents d' = ds_todo contents d \<and>
      k \<le> length (ds_todo contents d) \<and> (close \<longrightarrow> k = length (ds_todo contents d))"
    using ss.remaining_law fs.remaining_law [of contents scripts] es.remaining_law
    by (cases d) (fastforce split: prod.splits)+
next
  fix d n N b
  assume a: "ds_ok contents scripts d" "n \<le> fst (fst (ds_remaining d))" "ds_fits d n" "buf_ok N b"
    "n \<le> wleft b"
  show "\<exists>d' b'. ds_send scripts n d b = Inr (0, d', b') \<and> ds_ok contents scripts d' \<and>
      ds_todo contents d' = drop n (ds_todo contents d) \<and> appends N b (take n (ds_todo contents d)) b'"
  proof (cases d)
    case (Is_string s)
    then show ?thesis using ss.send_law [of s n N b] a by (fastforce simp: wrap_send_def)
  next
    case (Is_file f)
    then show ?thesis using fs.send_law [of contents scripts f n N b] a by (fastforce simp: wrap_send_def)
  next
    case (Is_event e)
    then show ?thesis
      using es.send_law [of e n N b] a by (fastforce simp: wrap_send_def split: prod.splits)
  qed
qed

section \<open>Properties\<close>

text \<open>
  C24. \<open>FileStream::send\<close> returns, whatever the kernel's short reads and interruptions: when the
  file still has the bytes, no read fails, and the kernel answers \<open>n\<close> times without being
  interrupted, the next \<open>n\<close> bytes of the file are in the buffer and the position has moved on.
\<close>

theorem file_send_delivers:
  assumes "fs_pos f + n \<le> fs_length f" and "fs_length f \<le> length contents"
    and "reads contents (fs_pos f) n script" and "n \<le> answered script" and "Read_failed \<notin> set script"
    and "buf_ok N wb" and "n \<le> wleft wb"
  shows "\<exists>wb'. fs_send script n f wb = Inr (0, f\<lparr>fs_pos := fs_pos f + n\<rparr>, wb') \<and>
    appends N wb (take n (drop (fs_pos f) contents)) wb'"
  using fs_send_loop_reads [OF assms(6,7,3)] assms(1,2,4,5)
  by (fastforce simp: fs_send_def fs_remaining_def)

theorem file_send_delivers_witness:
  "\<exists>wb'. fs_send [Interrupted, Got ''bc'', Interrupted, Got ''d'', Got []] 3 \<lparr>fs_length = 5, fs_pos = 1\<rparr>
        (new_buffer (replicate 10 (CHR 0x00))) = Inr (0, \<lparr>fs_length = 5, fs_pos = 4\<rparr>, wb') \<and>
     appends 10 (new_buffer (replicate 10 (CHR 0x00))) ''bcd'' wb'"
proof -
  have "buf_ok 10 (new_buffer (replicate 10 (CHR 0x00)))" by (simp add: new_buffer_def buf_ok_def)
  moreover have "3 \<le> wleft (new_buffer (replicate 10 (CHR 0x00)))"
    by (simp add: new_buffer_def wleft_def)
  ultimately show ?thesis
    using file_send_delivers [of "\<lparr>fs_length = 5, fs_pos = 1\<rparr>" 3 "''abcde''"
        "[Interrupted, Got ''bc'', Interrupted, Got ''d'', Got []]" 10]
    by (simp add: answered_def eval_nat_numeral)
qed

text \<open>
  A file cut short after its size was taken makes \<open>FileStream::send\<close> spin: at the end of
  the file \<open>pread\<close> returns 0, the loop counts it as progress of 0 bytes and calls again, so
  after any number of answers the call is still running, and with it the worker's thread.
\<close>

theorem file_send_spins:
  assumes "length contents \<le> fs_pos f" and "fs_pos f + n \<le> fs_length f" and "0 < n"
    and "reads contents (fs_pos f) n script" and "Read_failed \<notin> set script" and "buf_ok N wb"
  shows "fs_send script n f wb = Inl Unfinished"
  using fs_send_loop_spins [OF assms(6,1), of "n - 1" script] assms(2-5)
  by (simp add: fs_send_def fs_remaining_def)

theorem file_send_spins_witness:
  "fs_send (replicate 3 (Got [])) 2 \<lparr>fs_length = 5, fs_pos = 3\<rparr> (new_buffer ''0123456789'') = Inl Unfinished"
  by (rule file_send_spins [of "''abc''" _ _ _ 10])
    (simp_all add: eval_nat_numeral new_buffer_def buf_ok_def)

text \<open>
  C23. \<open>EventStream::send\<close>, asked for a part of the front event, does exactly one of two things.
  A chunk that reaches the event's data and does not start at its last byte appends the next
  bytes of \<open>event: name\<close>, \<open>data: \<dots>\<close> and the two newlines, in pieces or at once, and takes
  the event off the queue with its last byte; any other chunk throws \<open>std::out_of_range\<close>
  through nghttp2, although the protocol's flow control may ask for it.
\<close>

theorem event_send_outcome:
  assumes "es_ok es" and "es_queue es = ev # queue" and "es_pos es + n \<le> length (render ev)"
    and "buf_ok N wb" and "n \<le> wleft wb"
  shows "if es_fits es n
    then \<exists>es' wb'. es_send n es wb = Inr (0, es', wb') \<and> es_ok es' \<and> es_todo es' = drop n (es_todo es) \<and>
      pending wb' = pending wb @ take n (drop (es_pos es) (render ev))
    else es_send n es wb = Inl Out_of_range"
proof (cases "es_fits es n")
  case True
  have "n \<le> fst (fst (es_remaining es))"
    using assms(1-3) by (auto simp: es_remaining_def es_length_def length_render ext_pre_def)
  then have "\<exists>es' wb'. es_send n es wb = Inr (0, es', wb') \<and> es_ok es' \<and> es_todo es' = drop n (es_todo es)"
    using es.send_law [OF assms(1) _ True assms(4,5)] by blast
  then show ?thesis
    using es_send_exact [OF assms(1-3) True assms(4,5)] True by (auto simp: appends_def)
qed (simp add: es_send_throws [OF assms(1-3) _ assms(4,5)])

theorem event_send_outcome_witness:
  "es_send 6 \<lparr>es_pos = 0, es_queue = [new_event ''news/1'' ''hi''], es_paused = False\<rparr>
     (new_buffer (replicate 64 (CHR 0x00))) = Inl Out_of_range"
proof -
  let ?es = "\<lparr>es_pos = 0, es_queue = [new_event ''news/1'' ''hi''], es_paused = False\<rparr>"
  have "\<not> es_fits ?es 6" by (simp add: es_fits_def ext_pre_def)
  then show ?thesis
    using event_send_outcome [of ?es "new_event ''news/1'' ''hi''" "[]" 6 64]
    by (simp add: es_ok_def length_render ext_pre_def new_buffer_def buf_ok_def wleft_def)
qed

definition es_inv :: "EventStream \<Rightarrow> bool" where
  "es_inv es \<longleftrightarrow> es_ok es \<and> (es_paused es \<longrightarrow> es_queue es = [])"

text \<open>
  \<open>submit\<close> loses nothing and resumes nothing twice: the event's bytes follow all those still
  to be sent, and nghttp2 is told to resume exactly when the stream was paused, which it only is
  with an empty queue.
\<close>

theorem event_submit_keeps:
  assumes "es_inv es" and "es_submit ev es = (resumed, es')"
  shows "es_inv es' \<and> es_todo es' = es_todo es @ render ev \<and> (resumed \<longleftrightarrow> es_paused es) \<and> \<not> es_paused es'"
  using assms
  by (cases "es_queue es")
    (auto simp: es_inv_def es_submit_def es_ok_def es_todo_def Let_def length_render split: if_splits)

theorem event_submit_keeps_witness:
  "es_inv (snd (es_submit (new_event ''a'' ''b'') (snd (es_length new_event_stream))))"
  using event_submit_keeps [of "snd (es_length new_event_stream)" "new_event ''a'' ''b''"]
  by (simp add: es_inv_def es_ok_def es_length_def new_event_stream_def prod_eq_iff)

end
