(* ===== verification/Message_Headers.thy ===== *)
theory Message_Headers
  imports Route_Path "HOL-Library.Multiset"
begin

text \<open>
  The headers of a request (\<open>Stream::Headers\<close>) and of a response (\<open>Stream::ResponseHeader\<close>):
  both keep ten in an array and the rest in a vector. A request's names and values are
  reference-counted buffers of nghttp2, which every \<open>add_header\<close> takes and the destructor of
  \<open>RCBuf\<close> releases.
\<close>

section \<open>Request headers\<close>

datatype rcbuf = Rcbuf (rid: nat) (rbytes: string)

text \<open>\<open>nva\<close> holds the first \<open>nvlen\<close> cells of the array of that name.\<close>

record Headers =
  hmethod :: HttpMethod
  scheme :: "rcbuf option"
  authority :: "rcbuf option"
  host :: "rcbuf option"
  hpath :: "rcbuf option"
  expect :: "rcbuf option"
  ims :: "rcbuf option"
  nva :: "(rcbuf \<times> rcbuf) list"
  additional :: "(rcbuf \<times> rcbuf) list"
  buffer_size :: nat

definition max_nva_len :: nat where
  "max_nva_len = 10"

definition no_headers :: Headers where
  "no_headers = \<lparr>hmethod = GET, scheme = None, authority = None, host = None, hpath = None,
     expect = None, ims = None, nva = [], additional = [], buffer_size = 0\<rparr>"

text \<open>The new headers, the buffers whose count went up, and those whose count went down.\<close>

definition add_header :: "rcbuf \<Rightarrow> rcbuf \<Rightarrow> Headers \<Rightarrow> Headers \<times> rcbuf list \<times> rcbuf list" where
  "add_header name v h =
     (let header_t = lookup_header (rbytes name) in
      if header_t = pMETHOD then (h\<lparr>hmethod := method_from_string (rbytes v)\<rparr>, [v], [v])
      else if header_t = pSCHEME then (h\<lparr>scheme := Some v\<rparr>, [v], [])
      else if header_t = pAUTHORITY then (h\<lparr>authority := Some v\<rparr>, [v], [])
      else if header_t = pHOST then (h\<lparr>host := Some v\<rparr>, [v], [])
      else if header_t = pPATH then (h\<lparr>hpath := Some v\<rparr>, [v], [])
      else if header_t = EXPECT then (h\<lparr>expect := Some v\<rparr>, [v], [])
      else if header_t = IF_MODIFIED_SINCE then (h\<lparr>ims := Some v\<rparr>, [v], [])
      else if length (nva h) < max_nva_len then (h\<lparr>nva := nva h @ [(name, v)]\<rparr>, [v, name], [])
      else (h\<lparr>additional := additional h @ [(name, v)]\<rparr>, [v, name], []))"

text \<open>\<open>RCBuf::~RCBuf\<close>: the buffers it releases.\<close>

definition slot_refs :: "rcbuf option \<Rightarrow> rcbuf list" where
  "slot_refs x = (case x of None \<Rightarrow> [] | Some v \<Rightarrow> [v])"

definition destroy_headers :: "Headers \<Rightarrow> rcbuf list" where
  "destroy_headers h =
     slot_refs (scheme h) @ slot_refs (authority h) @ slot_refs (host h) @ slot_refs (hpath h) @
     slot_refs (expect h) @ slot_refs (ims h) @
     concat (map (\<lambda>(n, v). [n, v]) (nva h)) @
     (if length (nva h) = max_nva_len then concat (map (\<lambda>(n, v). [n, v]) (additional h)) else [])"

fun find_header :: "string \<Rightarrow> (rcbuf \<times> rcbuf) list \<Rightarrow> string option" where
  "find_header name [] = None"
| "find_header name ((n, v) # hs) =
     (if streq_l name (rbytes n) then Some (rbytes v) else find_header name hs)"

definition get_header :: "string \<Rightarrow> Headers \<Rightarrow> string option" where
  "get_header name h =
     (if streq_l name ''expect'' then map_option rbytes (expect h)
      else if streq_l name ''if-modified-since'' then map_option rbytes (ims h)
      else
        (case find_header name (nva h) of
           Some v \<Rightarrow> Some v
         | None \<Rightarrow> if length (nva h) = max_nva_len then find_header name (additional h) else None))"

section \<open>A request's headers as the list that was received\<close>

text \<open>Adding a list of headers, with all references taken and released on the way.\<close>

fun add_headers ::
  "(rcbuf \<times> rcbuf) list \<Rightarrow> Headers \<Rightarrow> Headers \<times> rcbuf list \<times> rcbuf list" where
  "add_headers [] h = (h, [], [])"
| "add_headers ((n, v) # hs) h =
     (let (h1, t1, r1) = add_header n v h; (h2, t2, r2) = add_headers hs h1
      in (h2, t1 @ t2, r1 @ r2))"

definition kept_apart :: "HttpHeader set" where
  "kept_apart = {pMETHOD, pSCHEME, pAUTHORITY, pHOST, pPATH, EXPECT, IF_MODIFIED_SINCE}"

definition kind :: "rcbuf \<times> rcbuf \<Rightarrow> HttpHeader" where
  "kind nv = lookup_header (rbytes (fst nv))"

definition ordinary :: "(rcbuf \<times> rcbuf) list \<Rightarrow> (rcbuf \<times> rcbuf) list" where
  "ordinary hs = filter (\<lambda>nv. kind nv \<notin> kept_apart) hs"

definition last_of :: "HttpHeader \<Rightarrow> (rcbuf \<times> rcbuf) list \<Rightarrow> rcbuf option \<Rightarrow> rcbuf option" where
  "last_of k hs x = fold (\<lambda>nv y. if kind nv = k then Some (snd nv) else y) hs x"

text \<open>The array is full before the vector is used.\<close>

definition packed :: "Headers \<Rightarrow> bool" where
  "packed h \<longleftrightarrow> length (nva h) \<le> max_nva_len \<and> (additional h = [] \<or> length (nva h) = max_nva_len)"

lemma add_header_packed: "packed h \<Longrightarrow> packed (fst (add_header n v h))"
  by (auto simp: add_header_def packed_def Let_def)

lemma add_header_ordinary:
  "packed h \<Longrightarrow> nva (fst (add_header n v h)) @ additional (fst (add_header n v h)) =
     nva h @ additional h @ ordinary [(n, v)]"
  by (auto simp: add_header_def packed_def Let_def ordinary_def kind_def kept_apart_def)

lemma add_header_slots:
  "expect (fst (add_header n v h)) = last_of EXPECT [(n, v)] (expect h)"
  "ims (fst (add_header n v h)) = last_of IF_MODIFIED_SINCE [(n, v)] (ims h)"
  "hpath (fst (add_header n v h)) = last_of pPATH [(n, v)] (hpath h)"
  "scheme (fst (add_header n v h)) = last_of pSCHEME [(n, v)] (scheme h)"
  "authority (fst (add_header n v h)) = last_of pAUTHORITY [(n, v)] (authority h)"
  "host (fst (add_header n v h)) = last_of pHOST [(n, v)] (host h)"
  by (simp_all add: add_header_def Let_def last_of_def kind_def)

lemma add_headers_fst:
  "fst (add_headers ((n, v) # hs) h) = fst (add_headers hs (fst (add_header n v h)))"
  by (simp add: split_beta Let_def)

declare add_headers.simps(2) [simp del]

lemma add_headers_packed: "packed h \<Longrightarrow> packed (fst (add_headers hs h))"
  by (induction hs arbitrary: h) (simp_all add: add_headers_fst add_header_packed split_paired_all)

lemma add_headers_ordinary:
  "packed h \<Longrightarrow> nva (fst (add_headers hs h)) @ additional (fst (add_headers hs h)) =
     nva h @ additional h @ ordinary hs"
proof (induction hs arbitrary: h)
  case (Cons nv hs)
  obtain n v where nv: "nv = (n, v)" by (cases nv)
  show ?case
    using Cons.IH [OF add_header_packed [OF Cons.prems, of n v]] add_header_ordinary [OF Cons.prems, of n v]
    by (simp add: nv add_headers_fst) (simp add: ordinary_def)
qed (simp add: ordinary_def)

lemma add_headers_slots:
  "expect (fst (add_headers hs h)) = last_of EXPECT hs (expect h)"
  "ims (fst (add_headers hs h)) = last_of IF_MODIFIED_SINCE hs (ims h)"
  "hpath (fst (add_headers hs h)) = last_of pPATH hs (hpath h)"
  "host (fst (add_headers hs h)) = last_of pHOST hs (host h)"
  by (induction hs arbitrary: h)
    (auto simp: add_headers_fst add_header_slots last_of_def)

lemma find_header_append:
  "find_header name (xs @ ys) = (case find_header name xs of Some v \<Rightarrow> Some v | None \<Rightarrow> find_header name ys)"
  by (induction name xs rule: find_header.induct) auto

lemma get_header_packed:
  "packed h \<Longrightarrow> get_header name h =
     (if streq_l name ''expect'' then map_option rbytes (expect h)
      else if streq_l name ''if-modified-since'' then map_option rbytes (ims h)
      else find_header name (nva h @ additional h))"
  by (auto simp: get_header_def packed_def find_header_append split: option.splits)

lemma no_headers_packed [simp]: "packed no_headers"
  by (simp add: packed_def no_headers_def)

text \<open>
  \<open>get_header\<close> answers as a search of the list of received headers: the first whose name is
  equal without regard to case, among those that are not kept apart, and the last received for
  the two it keeps apart and looks up (\<open>expect\<close> and \<open>if-modified-since\<close>). Where the array of
  ten overflows into the vector makes no difference.
\<close>

theorem get_header_searches:
  "get_header name (fst (add_headers hs no_headers)) =
     (if streq_l name ''expect'' then map_option rbytes (last_of EXPECT hs None)
      else if streq_l name ''if-modified-since'' then map_option rbytes (last_of IF_MODIFIED_SINCE hs None)
      else find_header name (ordinary hs))"
proof -
  let ?h = "fst (add_headers hs no_headers)"
  have "packed ?h" by (rule add_headers_packed) simp
  moreover have "nva ?h @ additional ?h = ordinary hs"
    using add_headers_ordinary [OF no_headers_packed, of hs] by (simp add: no_headers_def)
  moreover have "expect no_headers = None" "ims no_headers = None" by (simp_all add: no_headers_def)
  ultimately show ?thesis by (simp add: get_header_packed add_headers_slots)
qed

lemma lookup_header_not_pHOST: "lookup_header name \<noteq> pHOST"
  by (auto simp: lookup_header_eq_table header_table_def split: option.splits if_splits)

text \<open>
  The request's \<open>host\<close> is never set: no name is recognised as \<open>pHOST\<close> (the switch
  answers \<open>HOST\<close> for \<open>:host\<close>), so \<open>Headers::host()\<close> is empty for every request.
\<close>

theorem host_never_set: "host (fst (add_headers hs no_headers)) = None"
proof -
  have "last_of pHOST hs x = x" for x
    by (induction hs arbitrary: x) (auto simp: last_of_def kind_def lookup_header_not_pHOST)
  then show ?thesis by (simp add: add_headers_slots no_headers_def)
qed

section \<open>References\<close>

text \<open>The value a header replaces in the slot it is kept in, whose reference is not released.\<close>

definition replaced :: "rcbuf \<Rightarrow> Headers \<Rightarrow> rcbuf list" where
  "replaced name h =
     (let t = lookup_header (rbytes name) in
      if t = pSCHEME then slot_refs (scheme h)
      else if t = pAUTHORITY then slot_refs (authority h)
      else if t = pHOST then slot_refs (host h)
      else if t = pPATH then slot_refs (hpath h)
      else if t = EXPECT then slot_refs (expect h)
      else if t = IF_MODIFIED_SINCE then slot_refs (ims h)
      else [])"

lemma slot_refs_simps [simp]: "slot_refs None = []" "slot_refs (Some v) = [v]"
  by (simp_all add: slot_refs_def)

lemma add_header_refs:
  assumes "packed h" and "add_header n v h = (h', taken, released)"
  shows "mset taken + mset (destroy_headers h) =
     mset released + mset (destroy_headers h') + mset (replaced n h)"
  using assms
  by (auto simp: add_header_def destroy_headers_def replaced_def packed_def Let_def
      split: if_splits)

fun all_replaced :: "(rcbuf \<times> rcbuf) list \<Rightarrow> Headers \<Rightarrow> rcbuf list" where
  "all_replaced [] h = []"
| "all_replaced ((n, v) # hs) h = replaced n h @ all_replaced hs (fst (add_header n v h))"

lemma add_headers_refs:
  "packed h \<Longrightarrow> add_headers hs h = (h', taken, released) \<Longrightarrow>
   mset taken + mset (destroy_headers h) =
     mset released + mset (destroy_headers h') + mset (all_replaced hs h)"
proof (induction hs arbitrary: h taken released)
  case (Cons nv hs)
  obtain n v where nv: "nv = (n, v)" by (cases nv)
  obtain h1 t1 r1 where one: "add_header n v h = (h1, t1, r1)" by (metis prod_cases3)
  obtain t2 r2 where rest: "add_headers hs h1 = (h', t2, r2)" "taken = t1 @ t2" "released = r1 @ r2"
    using Cons.prems(2) by (auto simp: nv add_headers.simps one split_beta Let_def prod_eq_iff)
  have "packed h1" using add_header_packed [OF Cons.prems(1), of n v] one by simp
  then have "mset t2 + mset (destroy_headers h1) =
      mset r2 + mset (destroy_headers h') + mset (all_replaced hs h1)"
    using Cons.IH rest(1) by blast
  moreover have "mset t1 + mset (destroy_headers h) =
      mset r1 + mset (destroy_headers h1) + mset (replaced n h)"
    by (rule add_header_refs [OF Cons.prems(1) one])
  ultimately have "(mset t1 + mset t2 + mset (destroy_headers h)) + mset (destroy_headers h1) =
      (mset r1 + mset r2 + mset (destroy_headers h') + (mset (replaced n h) + mset (all_replaced hs h1)))
      + mset (destroy_headers h1)"
    by (simp add: ac_simps) (metis (no_types, lifting) add.assoc add.commute)
  then have "mset t1 + mset t2 + mset (destroy_headers h) =
      mset r1 + mset r2 + mset (destroy_headers h') + (mset (replaced n h) + mset (all_replaced hs h1))"
    by (rule add_right_imp_eq)
  then show ?case by (simp add: nv one rest)
qed simp

text \<open>
  C27. The life of a request's headers: every reference taken while they were received is
  released, on the spot or by the destructor, except those of values that a later header of the
  same kind replaced. Those are leaked, and they are the only ones.
\<close>

theorem header_refs_balance:
  assumes "add_headers hs no_headers = (h, taken, released)"
  shows "mset taken = mset (released @ destroy_headers h) + mset (all_replaced hs no_headers)"
proof -
  have "destroy_headers no_headers = []"
    by (simp add: destroy_headers_def no_headers_def max_nva_len_def)
  then show ?thesis using add_headers_refs [OF no_headers_packed assms] by simp
qed

theorem header_refs_balance_witness:
  "\<exists>h taken released.
     add_headers [(Rcbuf 0 ''expect'', Rcbuf 1 ''a''), (Rcbuf 0 ''expect'', Rcbuf 2 ''b'')] no_headers =
       (h, taken, released) \<and>
     mset taken = mset (released @ destroy_headers h) + {#Rcbuf 1 ''a''#}"
proof -
  let ?hs = "[(Rcbuf 0 ''expect'', Rcbuf 1 ''a''), (Rcbuf 0 ''expect'', Rcbuf 2 ''b'')]"
  obtain h taken released where run: "add_headers ?hs no_headers = (h, taken, released)"
    by (metis prod_cases3)
  have "lookup_header ''expect'' = EXPECT"
    by (simp add: lookup_header_def streq_l_n_def)
  then have "all_replaced ?hs no_headers = [Rcbuf 1 ''a'']"
    by (simp add: replaced_def add_header_def no_headers_def slot_refs_def)
  then show ?thesis using header_refs_balance [OF run] run by auto
qed

section \<open>Response headers\<close>

text \<open>
  A name, a value and which of the two nghttp2 has to copy (\<open>make_nv\<close>). The cells of the array
  are not initialised.
\<close>

record nv =
  nv_name :: string
  nv_value :: string
  nv_copy :: "bool \<times> bool"

definition make_nv :: "string \<Rightarrow> string \<Rightarrow> bool \<times> bool \<Rightarrow> nv" where
  "make_nv n v copy = \<lparr>nv_name = n, nv_value = v, nv_copy = copy\<rparr>"

record ResponseHeader =
  status :: "string option"
  rnva :: "nv option list"
  nvector :: "nv option list"
  nvlen :: nat

definition new_response_headers :: ResponseHeader where
  "new_response_headers = \<lparr>status = None, rnva = replicate max_nva_len None, nvector = [], nvlen = 1\<rparr>"

definition push_header :: "nv \<Rightarrow> ResponseHeader \<Rightarrow> ResponseHeader" where
  "push_header x r =
     (let r' =
        (if nvlen r < max_nva_len then r\<lparr>rnva := (rnva r)[nvlen r := Some x]\<rparr>
         else
           (let v = (if nvlen r = max_nva_len then nvector r @ rnva r else nvector r)
            in r\<lparr>nvector := v @ [Some x]\<rparr>))
      in r'\<lparr>nvlen := nvlen r + 1\<rparr>)"

definition set_header :: "string \<Rightarrow> string \<Rightarrow> ResponseHeader \<Rightarrow> ResponseHeader" where
  "set_header name v = push_header (make_nv name v (False, True))"

definition set_header_nc :: "string \<Rightarrow> string \<Rightarrow> ResponseHeader \<Rightarrow> ResponseHeader" where
  "set_header_nc name v = push_header (make_nv name v (False, False))"

definition set_status :: "ResponseHeader \<Rightarrow> ResponseHeader res" where
  "set_status r =
     (case status r of
        None \<Rightarrow> Inl Undefined
      | Some s \<Rightarrow>
          (let x = make_nv '':status'' s (False, False) in
           Inr (if nvlen r \<le> max_nva_len then r\<lparr>rnva := (rnva r)[0 := Some x]\<rparr>
                else r\<lparr>nvector := (nvector r)[0 := Some x]\<rparr>)))"

definition get_buffer :: "ResponseHeader \<Rightarrow> nv option list" where
  "get_buffer r = take (nvlen r) (if nvlen r \<le> max_nva_len then rnva r else nvector r)"

text \<open>\<open>headers_are r hs\<close>: the cells after the one reserved for the status hold the list \<open>hs\<close>.\<close>

definition headers_are :: "ResponseHeader \<Rightarrow> nv list \<Rightarrow> bool" where
  "headers_are r hs \<longleftrightarrow> nvlen r = Suc (length hs) \<and> length (rnva r) = max_nva_len \<and>
     (if nvlen r \<le> max_nva_len
      then nvector r = [] \<and> (\<exists>c. take (nvlen r) (rnva r) = c # map Some hs)
      else \<exists>c. nvector r = c # map Some hs)"

lemma headers_are_status [simp]: "headers_are (r\<lparr>status := x\<rparr>) hs = headers_are r hs"
  by (simp add: headers_are_def)

lemma headers_are_new: "headers_are new_response_headers []"
  by (auto simp: headers_are_def new_response_headers_def max_nva_len_def)

lemma push_header_are:
  assumes "headers_are r hs"
  shows "headers_are (push_header x r) (hs @ [x])"
proof -
  consider (array) "nvlen r < max_nva_len" | (spill) "nvlen r = max_nva_len" | (vector) "max_nva_len < nvlen r"
    by linarith
  then show ?thesis
  proof cases
    case array
    then obtain c where "take (nvlen r) (rnva r) = c # map Some hs"
      using assms by (auto simp: headers_are_def)
    then have "take (Suc (nvlen r)) ((rnva r)[nvlen r := Some x]) = c # map Some (hs @ [x])"
      using array assms by (simp add: take_Suc_conv_app_nth headers_are_def)
    then show ?thesis
      using array assms by (auto simp: headers_are_def push_header_def Let_def)
  next
    case spill
    then show ?thesis using assms by (auto simp: headers_are_def push_header_def Let_def)
  next
    case vector
    then show ?thesis using assms by (auto simp: headers_are_def push_header_def Let_def)
  qed
qed

lemma fold_push_header_are: "headers_are r pre \<Longrightarrow> headers_are (fold push_header hs r) (pre @ hs)"
proof (induction hs arbitrary: r pre)
  case (Cons x hs)
  then show ?case using Cons.IH [OF push_header_are [OF Cons.prems, of x]] by simp
qed simp

lemma status_fold_push_header: "status (fold push_header hs r) = status r"
  by (induction hs arbitrary: r) (simp_all add: push_header_def Let_def)

lemma get_buffer_are:
  assumes "headers_are r hs" and "status r = Some s" and "set_status r = Inr r'"
  shows "get_buffer r' = map Some (make_nv '':status'' s (False, False) # hs)"
proof (cases "nvlen r \<le> max_nva_len")
  case True
  then obtain c where c: "take (nvlen r) (rnva r) = c # map Some hs"
    using assms(1) by (auto simp: headers_are_def)
  have "take (nvlen r) ((rnva r)[0 := y]) = y # map Some hs" for y
    using c by (simp add: take_update_swap)
  then show ?thesis using True assms(2,3) by (auto simp: set_status_def get_buffer_def Let_def)
next
  case False
  then show ?thesis
    using assms by (auto simp: set_status_def get_buffer_def Let_def headers_are_def)
qed

text \<open>
  However many headers a handler sets, what \<open>get_buffer\<close> hands to nghttp2 is the status
  followed by all of them in order, every cell written: the spill of the array of ten into the
  vector neither loses nor repeats a header, and the status lands in the first cell of the one
  that is used.
\<close>

theorem response_headers_complete:
  "map_sum id get_buffer (set_status (fold push_header hs (new_response_headers\<lparr>status := Some s\<rparr>))) =
     Inr (map Some (make_nv '':status'' s (False, False) # hs))"
proof -
  let ?r = "fold push_header hs (new_response_headers\<lparr>status := Some s\<rparr>)"
  have are: "headers_are ?r hs"
    using fold_push_header_are [of "new_response_headers\<lparr>status := Some s\<rparr>" "[]" hs] headers_are_new by simp
  have s: "status ?r = Some s" by (simp add: status_fold_push_header)
  then obtain r' where r': "set_status ?r = Inr r'"
    by (simp add: set_status_def Let_def)
  show ?thesis using get_buffer_are [OF are s r'] r' by simp
qed

end
