(* ===== verification/Text_Codecs.thy ===== *)
theory Text_Codecs
  imports Header_Names
begin

unbundle bit_operations_syntax

text \<open>
  The text conversions of \<open>util.cc\<close> and \<open>util.h\<close> a response is made with: percent decoding of
  the request path, the block memory (\<open>MemBlock\<close>) decoded paths and numbers are kept in,
  decimal numbers, and the dates of \<open>last-modified\<close> and \<open>if-modified-since\<close>. \<open>gmtime_r\<close> and
  \<open>strptime\<close> are parameters.
\<close>

section \<open>Percent decoding\<close>

definition from_hex :: "char \<Rightarrow> char" where
  "from_hex c =
     (if schar c \<le> schar (CHR ''9'') then narrow (schar c - schar (CHR ''0''))
      else if schar c \<le> schar (CHR ''Z'') then narrow (schar c - schar (CHR ''A'') + 10)
      else if schar c \<le> schar (CHR ''z'') then narrow (schar c - schar (CHR ''a'') + 10)
      else narrow 0)"

definition hex_pair :: "char \<Rightarrow> char \<Rightarrow> char" where
  "hex_pair a b = narrow (push_bit 4 (schar (from_hex a)) OR schar (from_hex b))"

text \<open>
  Both versions of \<open>percent_decode\<close>: a percent sign without two bytes after it is dropped.
\<close>

fun percent_decode :: "string \<Rightarrow> string" where
  "percent_decode [] = []"
| "percent_decode (c # s) =
     (if c = CHR ''%'' then
        (case s of
           a # b # s' \<Rightarrow> hex_pair a b # percent_decode s'
         | _ \<Rightarrow> percent_decode s)
      else if c = CHR ''+'' then CHR '' '' # percent_decode s
      else c # percent_decode s)"

text \<open>The version with an output pointer also writes a NUL; these are the bytes it stores.\<close>

definition percent_decode_out :: "string \<Rightarrow> string" where
  "percent_decode_out s = percent_decode s @ [CHR 0x00]"

text \<open>What an encoder may make of a string: any byte as two hex digits, the others as they are.\<close>

definition hex_value :: "char \<Rightarrow> nat \<Rightarrow> bool" where
  "hex_value c n \<longleftrightarrow>
     (48 \<le> code c \<and> code c \<le> 57 \<and> n = code c - 48) \<or>
     (65 \<le> code c \<and> code c \<le> 70 \<and> n = code c - 55) \<or>
     (97 \<le> code c \<and> code c \<le> 102 \<and> n = code c - 87)"

inductive encodes :: "string \<Rightarrow> string \<Rightarrow> bool" where
  "encodes [] []"
| "encodes s t \<Longrightarrow> c \<noteq> CHR ''%'' \<Longrightarrow> c \<noteq> CHR ''+'' \<Longrightarrow> encodes (c # s) (c # t)"
| "encodes s t \<Longrightarrow> encodes (CHR '' '' # s) (CHR ''+'' # t)"
| "encodes s t \<Longrightarrow> hex_value a i \<Longrightarrow> hex_value b j \<Longrightarrow> code c = 16 * i + j \<Longrightarrow>
     encodes (c # s) (CHR ''%'' # a # b # t)"

inductive_cases encodes_NilE: "encodes s []"

lemma from_hex_value: "hex_value c n \<Longrightarrow> code (from_hex c) = n \<and> n < 16"
  using code_lt [of c] by (auto simp: hex_value_def from_hex_def schar_def code_narrow)

lemma or_nibbles: "n < 16 \<Longrightarrow> push_bit 4 (int m) OR int n = int (16 * m + n)"
proof -
  assume "n < 16"
  then have "int n = take_bit 4 (int n)" by (simp add: take_bit_int_eq_self)
  moreover have "push_bit 4 (int m) OR take_bit 4 (int n) = push_bit 4 (int m) + take_bit 4 (int n)"
    by (rule disjunctive_add [symmetric]) (auto simp: bit_simps)
  ultimately show ?thesis by (simp add: push_bit_eq_mult)
qed

lemma hex_pair_value:
  assumes "hex_value a i" and "hex_value b j" and "code c = 16 * i + j"
  shows "hex_pair a b = c"
proof -
  have "code (from_hex a) = i" "code (from_hex b) = j" "i < 16" "j < 16"
    using assms from_hex_value by auto
  then have "push_bit 4 (schar (from_hex a)) OR schar (from_hex b) = int (code c)"
    using assms(3) by (simp add: schar_def or_nibbles)
  then show ?thesis by (simp add: hex_pair_def)
qed

lemma percent_decode_length: "length (percent_decode s) \<le> length s"
proof (induction s rule: length_induct)
  case (1 s)
  then have IH: "length (percent_decode t) \<le> length t" if "length t < length s" for t
    using that by blast
  show ?case
  proof (cases s)
    case (Cons c t)
    show ?thesis
    proof (cases "c = CHR ''%'' \<and> 2 \<le> length t")
      case True
      then obtain a b u where "t = a # b # u" by (metis Suc_le_length_iff numeral_2_eq_2)
      then show ?thesis using IH [of u] True Cons by simp
    next
      case False
      then have "c = CHR ''%'' \<Longrightarrow> t = [] \<or> (\<exists>a. t = [a])" by (cases t; cases "tl t") auto
      then show ?thesis using IH [of t] Cons by (cases "c = CHR ''%''") fastforce+
    qed
  qed simp
qed

text \<open>
  C37. Percent decoding undoes every percent encoding (upper or lower case digits, spaces as
  \<open>+\<close>, bytes encoded that need not be), and never stores more than the \<open>src.size() + 1\<close> bytes
  that the caller in \<open>util.h\<close> allocates for it.
\<close>

theorem percent_decode_inverts:
  assumes "encodes s t"
  shows "percent_decode t = s \<and> length (percent_decode_out t) \<le> length t + 1"
proof -
  have "percent_decode t = s"
    using assms by (induction rule: encodes.induct) (auto simp: hex_pair_value)
  then show ?thesis using percent_decode_length [of t] by (simp add: percent_decode_out_def)
qed

theorem percent_decode_inverts_witness: "percent_decode ''a+%2F%2fb'' = ''a //b''"
proof -
  have "hex_value (CHR ''2'') 2" "hex_value (CHR ''F'') 15" "hex_value (CHR ''f'') 15"
    by (simp_all add: hex_value_def)
  then have "encodes ''/b'' ''%2fb''"
    by (intro encodes.intros(4) [of _ _ _ 2 _ 15] encodes.intros(1,2)) simp_all
  from encodes.intros(4) [OF this, of "CHR ''2''" 2 "CHR ''F''" 15 "CHR ''/''"]
  have "encodes ''//b'' ''%2F%2fb''"
    using \<open>hex_value (CHR ''2'') 2\<close> \<open>hex_value (CHR ''F'') 15\<close> by simp
  then have "encodes ''a //b'' ''a+%2F%2fb''" by (intro encodes.intros(2,3)) simp_all
  then show ?thesis using percent_decode_inverts by blast
qed

section \<open>Block memory\<close>

text \<open>
  \<open>MemBlock<N>\<close>: blocks from the array while it has room, then from the heap (by their number
  in \<open>add_\<close>).
\<close>

datatype block = Inside nat nat | Dynamic nat nat

record MemBlock =
  mpos :: nat
  madd :: "nat list"

definition new_memblock :: MemBlock where
  "new_memblock = \<lparr>mpos = 0, madd = []\<rparr>"

definition alloc :: "nat \<Rightarrow> nat \<Rightarrow> MemBlock \<Rightarrow> block \<times> MemBlock" where
  "alloc N n m =
     (if n + mpos m \<le> N then (Inside (mpos m) n, m\<lparr>mpos := mpos m + n\<rparr>)
      else (Dynamic (length (madd m)) n, m\<lparr>madd := madd m @ [n]\<rparr>))"

fun allocs :: "nat \<Rightarrow> nat list \<Rightarrow> MemBlock \<Rightarrow> block list \<times> MemBlock" where
  "allocs N [] m = ([], m)"
| "allocs N (n # ns) m =
     (let (b, m1) = alloc N n m; (bs, m2) = allocs N ns m1 in (b # bs, m2))"

primrec block_cells :: "block \<Rightarrow> (bool \<times> nat \<times> nat) set" where
  "block_cells (Inside p n) = {(True, 0, i) | i. p \<le> i \<and> i < p + n}"
| "block_cells (Dynamic k n) = {(False, k, i) | i. i < n}"

text \<open>The cells a block memory has not handed out.\<close>

definition free_cells :: "nat \<Rightarrow> MemBlock \<Rightarrow> (bool \<times> nat \<times> nat) set" where
  "free_cells N m = {(True, 0, i) | i. mpos m \<le> i \<and> i < N} \<union> {(False, k, i) | k i. length (madd m) \<le> k}"

lemma alloc_free:
  assumes "alloc N n m = (b, m')"
  shows "block_cells b \<subseteq> free_cells N m" and "block_cells b \<inter> free_cells N m' = {}"
    and "free_cells N m' \<subseteq> free_cells N m" and "card (block_cells b) = n"
proof -
  have "card {(True, 0 :: nat, i) | i. p \<le> i \<and> i < p + n} = n" for p
  proof -
    have "{(True, 0 :: nat, i) | i. p \<le> i \<and> i < p + n} = (\<lambda>i. (True, 0, i)) ` {p ..< p + n}"
      by (auto simp: image_def)
    then show ?thesis by (simp add: card_image inj_on_def)
  qed
  moreover have "card {(False, k :: nat, i) | i. i < n} = n" for k
  proof -
    have "{(False, k, i) | i. i < n} = (\<lambda>i. (False, k, i)) ` {..< n}"
      by (auto simp: image_def)
    then show ?thesis by (simp add: card_image inj_on_def)
  qed
  ultimately show "card (block_cells b) = n"
    using assms by (auto simp: alloc_def split: if_splits)
  show "block_cells b \<subseteq> free_cells N m" "block_cells b \<inter> free_cells N m' = {}"
    "free_cells N m' \<subseteq> free_cells N m"
    using assms by (auto simp: alloc_def free_cells_def split: if_splits)
qed

lemma allocs_disjoint:
  "allocs N ns m = (bs, m') \<Longrightarrow>
     length bs = length ns \<and> (\<forall>i < length bs. card (block_cells (bs ! i)) = ns ! i) \<and>
     (\<forall>b \<in> set bs. block_cells b \<subseteq> free_cells N m) \<and>
     (\<forall>i j. i < j \<and> j < length bs \<longrightarrow> block_cells (bs ! i) \<inter> block_cells (bs ! j) = {})"
proof (induction ns arbitrary: m bs)
  case (Cons n ns)
  obtain b m1 where one: "alloc N n m = (b, m1)" by (metis prod.collapse)
  obtain bs' where rest: "allocs N ns m1 = (bs', m')" "bs = b # bs'"
    using Cons.prems by (auto simp: one split: prod.splits)
  note IH = Cons.IH [OF rest(1)] and free = alloc_free [OF one]
  have "block_cells b \<inter> block_cells (bs' ! j) = {}" if "j < length bs'" for j
    using IH free(2) nth_mem [OF that] by blast
  moreover have "\<forall>b' \<in> set bs'. block_cells b' \<subseteq> free_cells N m" using IH free(3) by blast
  ultimately show ?case
    using IH free by (auto simp: rest(2) nth_Cons split: nat.splits)
qed simp



section \<open>Decimal numbers\<close>

text \<open>\<open>a / b\<close> on signed integers rounds towards zero.\<close>

definition tdiv :: "int \<Rightarrow> int \<Rightarrow> int" where
  "tdiv a b = (if a < 0 then - ((- a) div b) else a div b)"

function count_size :: "int \<Rightarrow> nat \<Rightarrow> nat" where
  "count_size n sz = (if n \<noteq> 0 then count_size (tdiv n 10) (sz + 1) else sz)"
  by pat_completeness auto
termination
  by (relation "measure (\<lambda>(n, sz). nat \<bar>n\<bar>)") (auto simp: tdiv_def)

declare count_size.simps [simp del]

definition digit :: "nat \<Rightarrow> char" where
  "digit n = char_of (n mod 10 + 48)"

text \<open>What \<open>%lu\<close> and \<open>%li\<close> print.\<close>

function decimal_nat :: "nat \<Rightarrow> string" where
  "decimal_nat n = (if n < 10 then [digit n] else decimal_nat (n div 10) @ [digit n])"
  by pat_completeness auto
termination by (relation "measure id") auto

declare decimal_nat.simps [simp del]

definition decimal :: "int \<Rightarrow> string" where
  "decimal n = (if n < 0 then CHR ''-'' # decimal_nat (nat (- n)) else decimal_nat (nat n))"

text \<open>\<open>snprintf\<close> stores at most \<open>size - 1\<close> bytes and a NUL.\<close>

definition to_string :: "int \<Rightarrow> string" where
  "to_string n = take (count_size n 2 - 1) (decimal n)"

lemma length_decimal_nat: "0 < n \<Longrightarrow> count_size (int n) k = k + length (decimal_nat n)"
proof (induction n arbitrary: k rule: decimal_nat.induct)
  case (1 n)
  have step: "count_size (int n) k = count_size (int (n div 10)) (k + 1)"
    using 1(2) by (simp add: count_size.simps [of "int n"] tdiv_def zdiv_int)
  show ?case
  proof (cases "n < 10")
    case True
    then show ?thesis by (simp add: step count_size.simps [of 0] decimal_nat.simps [of n])
  next
    case False
    then show ?thesis using 1(1) by (simp add: step decimal_nat.simps [of n])
  qed
qed

lemma count_size_minus: "count_size (- n) k = count_size n k"
proof (induction n k rule: count_size.induct)
  case (1 n k)
  have "tdiv (- n) 10 = - tdiv n 10" by (simp add: tdiv_def)
  then show ?case
    using 1 by (simp add: count_size.simps [of "- n"] count_size.simps [of n])
qed

lemma to_string_decimal: "to_string n = decimal n"
proof -
  have "length (decimal n) \<le> count_size n 2 - 1"
  proof (cases "n < 0")
    case True
    then show ?thesis
      using length_decimal_nat [of "nat (- n)" 2] count_size_minus [of n 2] by (simp add: decimal_def)
  next
    case False
    then show ?thesis
      using length_decimal_nat [of "nat n" 2]
      by (cases "n = 0") (simp_all add: decimal_def count_size.simps [of 0] decimal_nat.simps [of 0])
  qed
  then show ?thesis by (simp add: to_string_def)
qed

text \<open>
  The size \<open>to_string\<close> computes by counting digits is always enough: \<open>snprintf\<close> never cuts
  a number, signed or not, zero included, so the text is the number's decimal notation.
\<close>

theorem to_string_exact: "to_string n = decimal n"
  by (rule to_string_decimal)

end
