(* ===== verification/Http_Date.thy ===== *)
theory Http_Date
  imports Text_Codecs
begin

text \<open>
  \<open>http_date\<close> and \<open>parse_http_date\<close> of \<open>util.cc\<close>. The C library's \<open>gmtime_r\<close> and
  \<open>strptime\<close> are parameters; the arithmetic between calendar fields and seconds is the code's
  own. A year of at most four digits, all \<open>strptime\<close> reads, keeps every \<open>int\<close> in range.
\<close>

record tm =
  tm_sec :: int
  tm_min :: int
  tm_hour :: int
  tm_mday :: int
  tm_mon :: int
  tm_year :: int
  tm_wday :: int

section \<open>Writing\<close>

text \<open>\<open>write_uint\<close>: a \<open>do while\<close> from the last of \<open>len\<close> digits to the first.\<close>

fun write_uint_loop :: "nat \<Rightarrow> nat \<Rightarrow> string \<Rightarrow> string" where
  "write_uint_loop n 0 out = out"
| "write_uint_loop n (Suc k) out = write_uint_loop (n div 10) k (digit n # out)"

definition write_uint :: "int \<Rightarrow> nat \<Rightarrow> string" where
  "write_uint n len = write_uint_loop (nat (n mod 2 ^ 32)) len []"

definition MONTH :: "string list" where
  "MONTH = [''Jan'', ''Feb'', ''Mar'', ''Apr'', ''May'', ''Jun'',
            ''Jul'', ''Aug'', ''Sep'', ''Oct'', ''Nov'', ''Dec'']"

definition DAY_OF_WEEK :: "string list" where
  "DAY_OF_WEEK = [''Sun'', ''Mon'', ''Tue'', ''Wed'', ''Thu'', ''Fri'', ''Sat'']"

definition entry :: "string list \<Rightarrow> int \<Rightarrow> string res" where
  "entry xs i = (if 0 \<le> i \<and> nat i < length xs then Inr (xs ! nat i) else Inl Undefined)"

text \<open>The bytes stored at \<open>res\<close>: none when \<open>gmtime_r\<close> fails.\<close>

definition http_date :: "(int \<Rightarrow> tm option) \<Rightarrow> int \<Rightarrow> string res" where
  "http_date gmtime_r t =
     (case gmtime_r t of
        None \<Rightarrow> Inr []
      | Some tms \<Rightarrow>
          bindE (entry DAY_OF_WEEK (tm_wday tms)) (\<lambda>d.
          bindE (entry MONTH (tm_mon tms)) (\<lambda>m.
            Inr (d @ '', '' @ write_uint (tm_mday tms) 2 @ '' '' @ m @ '' '' @
              write_uint (tm_year tms + 1900) 4 @ '' '' @ write_uint (tm_hour tms) 2 @ '':'' @
              write_uint (tm_min tms) 2 @ '':'' @ write_uint (tm_sec tms) 2 @ '' GMT''))))"

section \<open>Reading\<close>

definition count_leap_year :: "int \<Rightarrow> int" where
  "count_leap_year y = (let y = y - 1 in tdiv y 4 - tdiv y 100 + tdiv y 400)"

definition is_leap_year :: "int \<Rightarrow> bool" where
  "is_leap_year y \<longleftrightarrow> y mod 4 = 0 \<and> (y mod 100 \<noteq> 0 \<or> y mod 400 = 0)"

definition daysum :: "int list" where
  "daysum = [0, 31, 59, 90, 120, 151, 181, 212, 243, 273, 304, 334]"

definition parse_http_date :: "(string \<Rightarrow> tm option) \<Rightarrow> string \<Rightarrow> int res" where
  "parse_http_date strptime str =
     (case strptime str of
        None \<Rightarrow> Inr 0
      | Some tm \<Rightarrow>
          if tm_mon tm > 11 then Inr (-1)
          else if tm_mon tm < 0 then Inl Undefined
          else
            (let num_leap_year = count_leap_year (tm_year tm + 1900) - count_leap_year 1970;
                 days = (tm_year tm - 70) * 365 + num_leap_year + daysum ! nat (tm_mon tm) + tm_mday tm - 1;
                 days = (if tm_mon tm \<ge> 2 \<and> is_leap_year (tm_year tm + 1900) then days + 1 else days)
             in Inr ((days * 24 + tm_hour tm) * 3600 + tm_min tm * 60 + tm_sec tm)))"

section \<open>The calendar, counted day by day\<close>

definition year_days :: "int \<Rightarrow> int" where
  "year_days y = (if is_leap_year y then 366 else 365)"

definition month_days :: "int \<Rightarrow> nat \<Rightarrow> int" where
  "month_days y m =
     (if m = 1 then (if is_leap_year y then 29 else 28)
      else if m \<in> {3, 5, 8, 10} then 30 else 31)"

definition epoch_days :: "int \<Rightarrow> nat \<Rightarrow> int \<Rightarrow> int" where
  "epoch_days y m d = (\<Sum>k \<in> {1970..<y}. year_days k) + (\<Sum>i < m. month_days y i) + d - 1"

definition epoch_seconds :: "tm \<Rightarrow> int" where
  "epoch_seconds tm =
     86400 * epoch_days (tm_year tm + 1900) (nat (tm_mon tm)) (tm_mday tm) +
     3600 * tm_hour tm + 60 * tm_min tm + tm_sec tm"

definition tm_valid :: "tm \<Rightarrow> bool" where
  "tm_valid tm \<longleftrightarrow> 70 \<le> tm_year tm \<and> tm_year tm + 1900 < 10000 \<and> 0 \<le> tm_mon tm \<and> tm_mon tm \<le> 11 \<and>
     0 \<le> tm_wday tm \<and> tm_wday tm \<le> 6"

lemma div_pred: "0 < n \<Longrightarrow> (y :: int) div n - (y - 1) div n = of_bool (y mod n = 0)"
proof -
  assume n: "0 < n"
  define q r where "q = y div n" and "r = y mod n"
  have y: "y = n * q + r" and r: "0 \<le> r" "r < n" using n by (simp_all add: q_def r_def)
  show ?thesis
  proof (cases "r = 0")
    case True
    have "(y - 1) div n = q - 1"
      by (rule int_div_pos_eq [of _ _ _ "n - 1"]) (use y True n in \<open>simp_all add: algebra_simps\<close>)
    then show ?thesis using True by (simp add: q_def r_def)
  next
    case False
    have "(y - 1) div n = q"
      by (rule int_div_pos_eq [of _ _ _ "r - 1"]) (use y r False in simp_all)
    then show ?thesis using False by (simp add: q_def r_def)
  qed
qed

lemma of_bool_leap:
  "(c \<Longrightarrow> b) \<Longrightarrow> (b \<Longrightarrow> a) \<Longrightarrow> of_bool (a \<and> (\<not> b \<or> c)) = of_bool a - of_bool b + (of_bool c :: int)"
  by (cases a; cases b; cases c) auto

lemma count_leap_year_Suc:
  assumes "1 \<le> y"
  shows "count_leap_year (y + 1) = count_leap_year y + of_bool (is_leap_year y)"
proof -
  have "y mod 400 = 0 \<Longrightarrow> y mod 100 = 0" "y mod 100 = 0 \<Longrightarrow> y mod 4 = 0"
    using dvd_trans [of 100 400 y] dvd_trans [of 4 100 y] by (simp_all add: dvd_eq_mod_eq_0)
  then have "of_bool (is_leap_year y) =
      of_bool (y mod 4 = 0) - of_bool (y mod 100 = 0) + (of_bool (y mod 400 = 0) :: int)"
    unfolding is_leap_year_def by (rule of_bool_leap)
  moreover have "count_leap_year (y + 1) = y div 4 - y div 100 + y div 400"
    using assms by (simp add: count_leap_year_def tdiv_def Let_def)
  moreover have "count_leap_year y = (y - 1) div 4 - (y - 1) div 100 + (y - 1) div 400"
    using assms by (simp add: count_leap_year_def tdiv_def Let_def)
  moreover have "y div 4 - (y - 1) div 4 = of_bool (y mod 4 = 0)"
    "y div 100 - (y - 1) div 100 = of_bool (y mod 100 = 0)"
    "y div 400 - (y - 1) div 400 = of_bool (y mod 400 = 0)"
    by (rule div_pred; simp)+
  ultimately show ?thesis by (simp only: algebra_simps)
qed

lemma years_to_days:
  assumes "1970 \<le> y"
  shows "(\<Sum>k \<in> {1970..<y}. year_days k) = (y - 1970) * 365 + (count_leap_year y - count_leap_year 1970)"
  using assms
proof (induction y rule: int_ge_induct)
  case (step y)
  have "{1970..<y + 1} = insert y {1970..<y}" using step.hyps by auto
  then show ?case
    using step count_leap_year_Suc [of y] by (simp add: year_days_def algebra_simps)
qed simp

lemma months_to_days:
  assumes "m \<le> 11"
  shows "(\<Sum>i < m. month_days y i) = daysum ! m + of_bool (2 \<le> m \<and> is_leap_year y)"
proof -
  have "m = 0 \<or> m = 1 \<or> m = 2 \<or> m = 3 \<or> m = 4 \<or> m = 5 \<or> m = 6 \<or> m = 7 \<or> m = 8 \<or>
      m = 9 \<or> m = 10 \<or> m = 11"
    using assms by arith
  then show ?thesis
    by (elim disjE) (auto simp: daysum_def month_days_def eval_nat_numeral)
qed

lemma parse_http_date_epoch:
  assumes "strptime s = Some tm" and "tm_valid tm"
  shows "parse_http_date strptime s = Inr (epoch_seconds tm)"
proof -
  let ?y = "tm_year tm + 1900" and ?m = "nat (tm_mon tm)"
  have "1970 \<le> ?y" and m: "?m \<le> 11" "2 \<le> tm_mon tm \<longleftrightarrow> 2 \<le> ?m"
    using assms(2) by (auto simp: tm_valid_def)
  note days = years_to_days [OF \<open>1970 \<le> ?y\<close>] months_to_days [OF m(1), of ?y]
  show ?thesis
    using assms m(2) unfolding epoch_seconds_def epoch_days_def days
    by (auto simp: parse_http_date_def Let_def tm_valid_def)
qed

lemma length_write_uint [simp]: "length (write_uint n k) = k"
proof -
  have "length (write_uint_loop i k out) = k + length out" for i out
    by (induction i k out rule: write_uint_loop.induct) auto
  then show ?thesis by (simp add: write_uint_def)
qed

lemma length_names: "i < 12 \<Longrightarrow> length (MONTH ! i) = 3" "i < 7 \<Longrightarrow> length (DAY_OF_WEEK ! i) = 3"
proof -
  have "list_all (\<lambda>s. length s = 3) MONTH" "list_all (\<lambda>s. length s = 3) DAY_OF_WEEK"
    by (simp_all add: MONTH_def DAY_OF_WEEK_def)
  moreover have "length MONTH = 12" "length DAY_OF_WEEK = 7" by (simp_all add: MONTH_def DAY_OF_WEEK_def)
  ultimately show "i < 12 \<Longrightarrow> length (MONTH ! i) = 3" "i < 7 \<Longrightarrow> length (DAY_OF_WEEK ! i) = 3"
    by (simp_all add: list_all_length)
qed

text \<open>
  C39. \<open>parse_http_date\<close> gives the seconds since 1970 that counting years and months day by day
  gives, leap years included: its closed form with \<open>count_leap_year\<close> and the table of month
  sums agrees with the calendar for every year from 1970 to 9999.
\<close>

theorem parse_http_date_calendar:
  assumes "strptime s = Some tm" and "tm_valid tm"
  shows "parse_http_date strptime s = Inr (epoch_seconds tm)"
  using assms by (rule parse_http_date_epoch)

definition sample_tm :: tm where
  "sample_tm = \<lparr>tm_sec = 5, tm_min = 4, tm_hour = 3, tm_mday = 1, tm_mon = 2, tm_year = 72, tm_wday = 3\<rparr>"

lemma sample_valid: "tm_valid sample_tm"
  by (simp add: tm_valid_def sample_tm_def)

lemma sample_seconds: "epoch_seconds sample_tm = 790 * 86400 + 3 * 3600 + 4 * 60 + 5"
proof -
  have "{1970..<1972 :: int} = {1970, 1971}" by auto
  then show ?thesis
    by (simp add: epoch_seconds_def epoch_days_def sample_tm_def year_days_def month_days_def
        is_leap_year_def eval_nat_numeral)
qed

theorem parse_http_date_calendar_witness:
  "parse_http_date (\<lambda>s. Some sample_tm) ''Wed, 01 Mar 1972 03:04:05 GMT'' = Inr 68267045"
  using parse_http_date_calendar [of "\<lambda>s. Some sample_tm" _ sample_tm] sample_valid sample_seconds
  by simp



end
