(* ===== verification/Cookies_Mime.thy ===== *)
theory Cookies_Mime
  imports Header_Names
begin

text \<open>
  Two small parsers of \<open>util.cc\<close>: \<open>get_cookie\<close>, and the reader of \<open>/etc/mime.types\<close> with the
  lookup of an extension (\<open>common_util.cc\<close>). Positions are unsigned, so \<open>npos + 1\<close> is 0.
\<close>

section \<open>Cookies\<close>

definition find_first_not :: "char \<Rightarrow> string \<Rightarrow> nat option" where
  "find_first_not c s = find_if (\<lambda>x. x \<noteq> c) s"

text \<open>\<open>substr(pos, count)\<close> where the position is \<open>npos\<close> when it is \<open>None\<close>.\<close>

definition substr_at :: "string \<Rightarrow> nat option \<Rightarrow> nat option \<Rightarrow> string res" where
  "substr_at s pos count = (case pos of None \<Rightarrow> Inl Out_of_range | Some p \<Rightarrow> substr s p count)"

definition after :: "nat option \<Rightarrow> nat" where
  "after pos = (case pos of None \<Rightarrow> 0 | Some p \<Rightarrow> p + 1)"

lemma find_from_SomeD: "find_from c i s = Some e \<Longrightarrow> i \<le> e \<and> e < length s"
  by (auto simp: find_from_def dest!: find_char_SomeD)

function get_cookie :: "string \<Rightarrow> string \<Rightarrow> string option res" where
  "get_cookie cookies key =
     (let kbeg = find_first_not (CHR '' '') cookies;
          kend = find_char (CHR ''='') cookies;
          vbeg = after kend;
          vend = find_from (CHR '';'') vbeg cookies in
      bindE (substr_at cookies kbeg kend) (\<lambda>k.
      bindE (substr cookies vbeg vend) (\<lambda>v.
        if streq_l k key then Inr (Some v)
        else (case vend of None \<Rightarrow> Inr None | Some e \<Rightarrow> get_cookie (drop (e + 1) cookies) key))))"
  by pat_completeness auto
termination
proof (relation "measure (\<lambda>(cookies, key). length cookies)")
  fix cookies key :: string and kbeg kend vbeg vend k v e
  assume "vbeg = after kend" "vend = find_from (CHR '';'') vbeg cookies" "vend = Some e"
  then have "e < length cookies" using find_from_SomeD by metis
  then show "((drop (e + 1) cookies, key), (cookies, key)) \<in> measure (\<lambda>(cookies, key). length cookies)"
    by simp
qed simp

declare get_cookie.simps [simp del]

lemma find_if_hd: "P x \<Longrightarrow> find_if P (x # xs) = Some 0"
  by simp

text \<open>The first cookie of a list: its name is found, and its value is cut too late.\<close>

lemma get_cookie_first:
  assumes "k \<noteq> []" and "hd k \<noteq> CHR '' ''" and "CHR ''='' \<notin> set k" and "CHR '';'' \<notin> set v"
  shows "get_cookie (k @ CHR ''='' # v @ CHR '';'' # rest) key =
    (if streq_l k key then Inr (Some (take (length k + 1 + length v) (v @ CHR '';'' # rest)))
     else get_cookie rest key)"
proof -
  let ?s = "k @ CHR ''='' # v @ CHR '';'' # rest"
  have kbeg: "find_first_not (CHR '' '') ?s = Some 0"
    using assms(1,2) by (cases k) (auto simp: find_first_not_def)
  have kend: "find_char (CHR ''='') ?s = Some (length k)"
    using assms(3) by (rule find_char_split)
  have drop: "drop (length k + 1) ?s = v @ CHR '';'' # rest" by simp
  have vend: "find_from (CHR '';'') (length k + 1) ?s = Some (length k + 1 + length v)"
    unfolding find_from_def drop using find_char_split [OF assms(4), of rest] by simp
  show ?thesis
    unfolding get_cookie.simps [of ?s key] Let_def kbeg kend after_def option.case vend
    by (simp add: substr_at_def substr_def)
qed

lemma get_cookie_last:
  assumes "k \<noteq> []" and "hd k \<noteq> CHR '' ''" and "CHR ''='' \<notin> set k" and "CHR '';'' \<notin> set v"
  shows "get_cookie (k @ CHR ''='' # v) key = (if streq_l k key then Inr (Some v) else Inr None)"
proof -
  let ?s = "k @ CHR ''='' # v"
  have kbeg: "find_first_not (CHR '' '') ?s = Some 0"
    using assms(1,2) by (cases k) (auto simp: find_first_not_def)
  have kend: "find_char (CHR ''='') ?s = Some (length k)"
    using assms(3) by (rule find_char_split)
  have "find_char (CHR '';'') v = None" using assms(4) by (simp add: find_char_None)
  then have vend: "find_from (CHR '';'') (length k + 1) ?s = None" by (simp add: find_from_def)
  show ?thesis
    unfolding get_cookie.simps [of ?s key] Let_def kbeg kend after_def option.case vend
    by (simp add: substr_at_def substr_def)
qed

text \<open>After the separator the name starts one byte late and is cut one byte late: it keeps the \<open>=\<close>.\<close>

lemma get_cookie_spaced:
  assumes "k \<noteq> []" and "hd k \<noteq> CHR '' ''" and "CHR ''='' \<notin> set k" and "CHR '';'' \<notin> set v"
  shows "get_cookie (CHR '' '' # k @ CHR ''='' # v) key =
    (if streq_l (k @ ''='') key then Inr (Some v) else Inr None)"
proof -
  let ?s = "CHR '' '' # k @ CHR ''='' # v"
  have kbeg: "find_first_not (CHR '' '') ?s = Some 1"
    using assms(1,2) by (cases k) (auto simp: find_first_not_def)
  have kend: "find_char (CHR ''='') ?s = Some (length k + 1)"
    using find_char_split [of "CHR ''=''" "CHR '' '' # k" v] assms(3) by simp
  have "find_char (CHR '';'') v = None" using assms(4) by (simp add: find_char_None)
  then have vend: "find_from (CHR '';'') (length k + 1 + 1) ?s = None" by (simp add: find_from_def)
  show ?thesis
    unfolding get_cookie.simps [of ?s key] Let_def kbeg kend after_def option.case vend
    by (simp add: substr_at_def substr_def)
qed

text \<open>
  C33. Of a cookie header \<open>a=v1; b=v2\<close> the code answers \<open>a\<close> with \<open>v1\<close> followed by as much of
  \<open>; b=v2\<close> as the position of the semicolon counts (\<open>vend\<close> is used as a length), and \<open>b\<close>
  with nothing: behind the space the name is read as \<open>b=\<close>. Only a header of one cookie is read
  right.
\<close>

theorem get_cookie_two:
  assumes "a \<noteq> []" and "hd a \<noteq> CHR '' ''" and "CHR ''='' \<notin> set a" and "CHR '';'' \<notin> set v1"
    and "b \<noteq> []" and "hd b \<noteq> CHR '' ''" and "CHR ''='' \<notin> set b" and "CHR '';'' \<notin> set v2"
    and "\<not> streq_l a b"
  defines "header \<equiv> a @ CHR ''='' # v1 @ CHR '';'' # CHR '' '' # b @ CHR ''='' # v2"
  shows "get_cookie header a =
      Inr (Some (v1 @ take (length a + 1) (CHR '';'' # CHR '' '' # b @ CHR ''='' # v2))) \<and>
    get_cookie header b = Inr None \<and> get_cookie (a @ CHR ''='' # v1) a = Inr (Some v1)"
proof (intro conjI)
  show "get_cookie header a =
      Inr (Some (v1 @ take (length a + 1) (CHR '';'' # CHR '' '' # b @ CHR ''='' # v2)))"
    unfolding header_def get_cookie_first [OF assms(1-4)] by simp
  have "\<not> streq_l (b @ ''='') b"
    by (auto simp: streq_l_iff dest: arg_cong [where f = length])
  then show "get_cookie header b = Inr None"
    unfolding header_def get_cookie_first [OF assms(1-4)]
    using assms(9) get_cookie_spaced [OF assms(5-8)] by simp
  show "get_cookie (a @ CHR ''='' # v1) a = Inr (Some v1)"
    using get_cookie_last [OF assms(1-4)] by simp
qed

theorem get_cookie_two_witness:
  "get_cookie ''sid=42; theme=dark'' ''sid'' = Inr (Some ''42; th'') \<and>
   get_cookie ''sid=42; theme=dark'' ''theme'' = Inr None"
proof -
  have neq: "\<not> streq_l ''sid'' ''theme''" by (simp add: streq_l_def)
  show ?thesis
    using get_cookie_two [OF _ _ _ _ _ _ _ _ neq, of "''42''" "''dark''"] by simp
qed

section \<open>MIME types\<close>

definition delim :: "char \<Rightarrow> bool" where
  "delim c \<longleftrightarrow> c = CHR '' '' \<or> c = CHR 0x09"

text \<open>\<open>std::find_if\<close> and \<open>std::find_if_not\<close> over the rest of a line, as the part before and the rest.\<close>

function extensions :: "string \<Rightarrow> string list" where
  "extensions s =
     (let ext_start = dropWhile delim s in
      if ext_start = [] then []
      else takeWhile (\<lambda>c. \<not> delim c) ext_start # extensions (dropWhile (\<lambda>c. \<not> delim c) ext_start))"
  by pat_completeness auto
termination
proof (relation "measure length")
  fix s x :: string
  assume x: "x = dropWhile delim s" "x \<noteq> []"
  then have "\<not> delim (hd x)" using hd_dropWhile by metis
  then have "length (dropWhile (\<lambda>c. \<not> delim c) x) < length x"
    using x(2) by (cases x) (auto simp: le_imp_less_Suc length_dropWhile_le)
  also have "\<dots> \<le> length s" unfolding x(1) by (rule length_dropWhile_le)
  finally show "(dropWhile (\<lambda>c. \<not> delim c) x, s) \<in> measure length" by simp
qed simp

declare extensions.simps [simp del]

type_synonym mime_maps = "(string \<rightharpoonup> string) \<times> (string \<rightharpoonup> string)"

text \<open>\<open>emplace\<close> keeps the value a key already has.\<close>

definition emplace :: "'k \<Rightarrow> 'v \<Rightarrow> ('k \<rightharpoonup> 'v) \<Rightarrow> ('k \<rightharpoonup> 'v)" where
  "emplace k v m = (case m k of Some _ \<Rightarrow> m | None \<Rightarrow> m(k \<mapsto> v))"

definition mime_line :: "string \<Rightarrow> mime_maps \<Rightarrow> mime_maps" where
  "mime_line line m =
     (if line = [] \<or> hd line = CHR ''#'' then m
      else
        (let type = takeWhile (\<lambda>c. \<not> delim c) line in
         if type = [] then m
         else fold (\<lambda>ext (rt1, rt2). (emplace ext type rt1, emplace type ext rt2))
                (extensions (dropWhile (\<lambda>c. \<not> delim c) line)) m))"

text \<open>The file's lines, or \<open>None\<close> when it cannot be opened.\<close>

definition read_mime_types :: "string list option \<Rightarrow> mime_maps" where
  "read_mime_types lines =
     (let (rt1, rt2) = fold mime_line (case lines of None \<Rightarrow> [] | Some ls \<Rightarrow> ls) (Map.empty, Map.empty)
      in (rt1(''ico'' \<mapsto> ''image/x-icon''), rt2(''image/x-icon'' \<mapsto> ''ico'')))"

definition get_extension :: "string list option \<Rightarrow> string \<Rightarrow> string res" where
  "get_extension lines mime_type =
     bindE (substr_at mime_type (find_first_not (CHR '' '') mime_type) None) (\<lambda>t.
     bindE (substr t 0 (find_char (CHR '' '') t)) (\<lambda>t.
       Inr (case snd (read_mime_types lines) t of Some e \<Rightarrow> e | None \<Rightarrow> [])))"

text \<open>The pairs of type and extension that a file lists, in its order.\<close>

definition line_pairs :: "string \<Rightarrow> (string \<times> string) list" where
  "line_pairs line =
     (if line = [] \<or> hd line = CHR ''#'' \<or> delim (hd line) then []
      else map (Pair (takeWhile (\<lambda>c. \<not> delim c) line))
             (extensions (dropWhile (\<lambda>c. \<not> delim c) line)))"

definition swap :: "'a \<times> 'b \<Rightarrow> 'b \<times> 'a" where
  "swap p = (snd p, fst p)"

lemma emplace_map_add: "emplace k v m = [k \<mapsto> v] ++ m"
  by (auto simp: emplace_def map_add_def fun_eq_iff split: option.splits)

lemma fold_emplace:
  "fold (\<lambda>ext (rt1, rt2). (emplace ext t rt1, emplace t ext rt2)) es (m1, m2) =
     (map_of (map swap (map (Pair t) es)) ++ m1, map_of (map (Pair t) es) ++ m2)"
proof (induction es arbitrary: m1 m2)
  case (Cons e es)
  have "map_of (map swap (map (Pair t) (e # es))) ++ m1 = map_of (map swap (map (Pair t) es)) ++ ([e \<mapsto> t] ++ m1)"
    "map_of (map (Pair t) (e # es)) ++ m2 = map_of (map (Pair t) es) ++ ([t \<mapsto> e] ++ m2)"
    by (auto simp: fun_eq_iff map_add_def swap_def split: option.splits)
  then show ?case
    using Cons.IH [of "[e \<mapsto> t] ++ m1" "[t \<mapsto> e] ++ m2"]
    by (simp only: fold.simps o_apply prod.case emplace_map_add)
qed simp

lemma mime_line_pairs:
  "mime_line line (m1, m2) = (map_of (map swap (line_pairs line)) ++ m1, map_of (line_pairs line) ++ m2)"
proof (cases "line = [] \<or> hd line = CHR ''#'' \<or> delim (hd line)")
  case True
  then show ?thesis by (cases line) (auto simp: mime_line_def line_pairs_def Let_def)
next
  case False
  then have "takeWhile (\<lambda>c. \<not> delim c) line \<noteq> []" by (cases line) auto
  then show ?thesis
    using False by (simp add: mime_line_def line_pairs_def Let_def fold_emplace)
qed

lemma mime_lines_pairs:
  "fold mime_line ls (m1, m2) =
     (map_of (map swap (concat (map line_pairs ls))) ++ m1, map_of (concat (map line_pairs ls)) ++ m2)"
  by (induction ls arbitrary: m1 m2) (simp_all add: mime_line_pairs map_add_assoc)

text \<open>
  The two tables of MIME types are the pairs of the file read first to last, an extension
  keeping the first type listed for it and a type its first extension, except that \<open>ico\<close> is
  always \<open>image/x-icon\<close> and back; an unreadable file leaves only that pair.
\<close>

theorem read_mime_types_first_wins:
  "read_mime_types lines =
     (let ps = concat (map line_pairs (case lines of None \<Rightarrow> [] | Some ls \<Rightarrow> ls)) in
      ((map_of (map swap ps))(''ico'' \<mapsto> ''image/x-icon''), (map_of ps)(''image/x-icon'' \<mapsto> ''ico'')))"
  by (simp add: read_mime_types_def mime_lines_pairs Let_def)

end
