(* ===== verification/Static_Files.thy ===== *)
theory Static_Files
  imports Cookies_Mime "HOL-Library.Word"
begin

unbundle bit_operations_syntax

text \<open>
  Static files: \<open>FileEntry\<close> (\<open>fileentry.cc\<close>), the table of them each worker keeps and
  \<open>get_static_file\<close> (\<open>worker.cc\<close>), and the walk over the static directory at the start
  (\<open>server.cc\<close>). The file system is a parameter: for a path, the modification time and size when
  it can be opened for reading. The table of MIME types is a parameter too.
\<close>

section \<open>File entries\<close>

record FileInfo =
  fi_mtime :: int
  fi_length :: int

type_synonym file_system = "string \<Rightarrow> FileInfo option"

record FileEntry =
  fe_path :: string
  fe_relpath :: string
  fe_ext :: string
  fe_mime_type :: string
  fe_compressed :: bool
  fe_encoding :: string
  fe_watch :: bool
  fe_info :: FileInfo
  fe_new_info :: FileInfo
  fe_updated :: bool

text \<open>\<open>path.substr(path.find_last_of('.') + 1)\<close>: the whole path when there is no dot.\<close>

definition path_ext :: "string \<Rightarrow> string" where
  "path_ext path = drop (after (find_last_char (CHR ''.'') path)) path"

text \<open>\<open>path.substr(0, path.find_last_of('.'))\<close>.\<close>

definition path_stem :: "string \<Rightarrow> string" where
  "path_stem path = (case find_last_char (CHR ''.'') path of None \<Rightarrow> path | Some i \<Rightarrow> take i path)"

definition set_ext :: "string \<Rightarrow> FileEntry \<Rightarrow> FileEntry" where
  "set_ext path e = e\<lparr>fe_ext := path_ext path\<rparr>"

definition check_if_compressed :: "string \<Rightarrow> FileEntry \<Rightarrow> FileEntry" where
  "check_if_compressed path e =
     (if fe_ext e = ''br'' then
        (set_ext (path_stem path) (e\<lparr>fe_compressed := True, fe_encoding := ''br''\<rparr>))
          \<lparr>fe_relpath := path_stem (fe_relpath e)\<rparr>
      else if fe_ext e = ''gzip'' \<or> fe_ext e = ''gz'' then
        (set_ext (path_stem path) (e\<lparr>fe_compressed := True, fe_encoding := ''gzip''\<rparr>))
          \<lparr>fe_relpath := path_stem (fe_relpath e)\<rparr>
      else e)"

definition set_mime_type :: "(string \<rightharpoonup> string) \<Rightarrow> FileEntry \<Rightarrow> FileEntry" where
  "set_mime_type dict e = (case dict (fe_ext e) of Some t \<Rightarrow> e\<lparr>fe_mime_type := t\<rparr> | None \<Rightarrow> e)"

text \<open>The constructor; the static root always ends in a slash, and \<open>relpath_\<close> begins with it.\<close>

definition new_file_entry ::
  "(string \<rightharpoonup> string) \<Rightarrow> string \<Rightarrow> FileInfo \<Rightarrow> string \<Rightarrow> bool \<Rightarrow> FileEntry res" where
  "new_file_entry dict static_root st path watch =
     bindE (substr path (length static_root - 1) None) (\<lambda>rel.
       Inr (set_mime_type dict (check_if_compressed path (set_ext path
         \<lparr>fe_path = path, fe_relpath = rel, fe_ext = [], fe_mime_type = [], fe_compressed = False,
          fe_encoding = [], fe_watch = watch, fe_info = st, fe_new_info = st, fe_updated = False\<rparr>))))"

definition update_info :: "FileInfo \<Rightarrow> FileEntry \<Rightarrow> FileEntry" where
  "update_info i e = e\<lparr>fe_new_info := i, fe_updated := True\<rparr>"

definition file_info :: "FileEntry \<Rightarrow> FileInfo \<times> FileEntry" where
  "file_info e =
     (let e' = (if fe_updated e then e\<lparr>fe_updated := False, fe_info := fe_new_info e\<rparr> else e)
      in (fe_info e', e'))"

section \<open>The worker's table\<close>

text \<open>
  The multimap from relative path to entry, equal keys in the order they were inserted;
  \<open>opened\<close> counts the files opened so far.
\<close>

record FileStore =
  static_root :: string
  files :: "(string \<times> FileEntry) list"
  opened :: nat

definition add_static_file ::
  "file_system \<Rightarrow> (string \<rightharpoonup> string) \<Rightarrow> string \<Rightarrow> bool \<Rightarrow> FileStore \<Rightarrow> (FileEntry option \<times> FileStore) res" where
  "add_static_file fs dict path watch w =
     (case fs path of
        None \<Rightarrow> Inr (None, w)
      | Some st \<Rightarrow>
          bindE (new_file_entry dict (static_root w) st path watch) (\<lambda>e.
            Inr (Some e, w\<lparr>files := files w @ [(fe_relpath e, e)], opened := opened w + 1\<rparr>)))"

text \<open>The loop over the entries of a path: the first of the kind preferred, else the last.\<close>

fun pick_file :: "bool \<Rightarrow> FileEntry list \<Rightarrow> FileEntry option \<Rightarrow> FileEntry option" where
  "pick_file prefer [] found = found"
| "pick_file prefer (e # es) found =
     (if prefer \<and> fe_compressed e then Some e
      else if \<not> prefer \<and> \<not> fe_compressed e then Some e
      else pick_file prefer es (Some e))"

definition entries_at :: "string \<Rightarrow> FileStore \<Rightarrow> FileEntry list" where
  "entries_at path w = map snd (filter (\<lambda>(k, e). k = path) (files w))"

definition get_static_file ::
  "file_system \<Rightarrow> (string \<rightharpoonup> string) \<Rightarrow> string \<Rightarrow> bool \<Rightarrow> bool \<Rightarrow> bool \<Rightarrow> FileStore \<Rightarrow>
     (FileEntry option \<times> FileStore) res" where
  "get_static_file fs dict path prefer_compressed relative watch w =
     (case pick_file prefer_compressed (entries_at path w) None of
        Some e \<Rightarrow> Inr (Some e, w)
      | None \<Rightarrow>
          bindE (add_static_file fs dict (if relative then static_root w @ path else path) watch w)
            (\<lambda>(ret, w1).
              if prefer_compressed then
                bindE (add_static_file fs dict (static_root w @ path @ ''.br'') watch w1)
                  (\<lambda>(br, w2). case br of Some e \<Rightarrow> Inr (Some e, w2) | None \<Rightarrow> Inr (ret, w2))
              else Inr (ret, w1)))"

definition remove_static_file :: "FileEntry \<Rightarrow> FileStore \<Rightarrow> FileStore" where
  "remove_static_file e w = w\<lparr>files := filter (\<lambda>(k, f). k \<noteq> fe_relpath e) (files w)\<rparr>"

text \<open>
  The watcher's callback on the entry at an index: a link count of 0 means the file is gone.
\<close>

definition update_cb :: "nat \<Rightarrow> nat \<Rightarrow> FileInfo \<Rightarrow> FileStore \<Rightarrow> FileStore" where
  "update_cb i st_nlink attr w =
     (let e = snd (files w ! i) in
      if st_nlink \<noteq> 0 then w\<lparr>files := (files w)[i := (fst (files w ! i), update_info attr e)]\<rparr>
      else remove_static_file e w)"

section \<open>Walking the static directory\<close>

text \<open>\<open>readdir\<close>'s entries with their type; what \<open>opendir\<close> finds below, \<open>None\<close> when it fails.\<close>

datatype dirent = Dirent (d_name: string) (d_type: "8 word") (d_below: "dirent list option")

abbreviation "DT_CHR \<equiv> 2 :: 8 word"
abbreviation "DT_DIR \<equiv> 4 :: 8 word"
abbreviation "DT_REG \<equiv> 8 :: 8 word"
abbreviation "DT_LNK \<equiv> 10 :: 8 word"

fun iterate_directory ::
  "file_system \<Rightarrow> (string \<rightharpoonup> string) \<Rightarrow> string \<Rightarrow> dirent list \<Rightarrow> FileStore \<Rightarrow> FileStore res"
  and iterate_entry ::
  "file_system \<Rightarrow> (string \<rightharpoonup> string) \<Rightarrow> string \<Rightarrow> dirent \<Rightarrow> FileStore \<Rightarrow> FileStore res"
where
  "iterate_directory fs dict path [] w = Inr w"
| "iterate_directory fs dict path (de # des) w =
     bindE (iterate_entry fs dict path de w) (iterate_directory fs dict path des)"
| "iterate_entry fs dict path (Dirent name type below) w =
     (if name \<noteq> [] \<and> hd name = CHR ''.'' then Inr w
      else if type AND DT_DIR \<noteq> 0 then
        (case below of None \<Rightarrow> Inr w | Some des \<Rightarrow> iterate_directory fs dict (path @ name @ ''/'') des w)
      else if (type AND DT_REG) OR (type AND DT_LNK) \<noteq> 0 then
        bindE (add_static_file fs dict (path @ name) True w) (\<lambda>(_, w'). Inr w')
      else Inr w)"

text \<open>\<open>serve_static_files\<close>: trailing spaces go, a slash is added; \<open>back()\<close> of an empty string is undefined.\<close>

definition static_root_of :: "string \<Rightarrow> string res" where
  "static_root_of path =
     (let p = rev (dropWhile (\<lambda>c. c = CHR '' '') (rev path)) in
      if p = [] then Inl Undefined else Inr (if last p \<noteq> CHR ''/'' then p @ ''/'' else p))"

definition serve_static_files ::
  "file_system \<Rightarrow> (string \<rightharpoonup> string) \<Rightarrow> string \<Rightarrow> dirent list option \<Rightarrow> FileStore \<Rightarrow> FileStore res" where
  "serve_static_files fs dict path below w =
     bindE (static_root_of path) (\<lambda>root.
       let w' = w\<lparr>static_root := root\<rparr> in
       case below of None \<Rightarrow> Inr w' | Some des \<Rightarrow> iterate_directory fs dict root des w')"

section \<open>Which file is served\<close>

lemma pick_file_spec:
  "pick_file prefer es found =
     (case find_if (\<lambda>e. fe_compressed e = prefer) es of
        Some i \<Rightarrow> Some (es ! i)
      | None \<Rightarrow> if es = [] then found else Some (last es))"
  by (induction es arbitrary: found) (auto split: option.splits)

text \<open>
  Of the entries a path has, the one served is the first with the encoding preferred, and
  when there is none, the last of the others; a path that has entries is served without touching
  the file system or the table.
\<close>

theorem get_static_file_prefers:
  assumes "entries_at path w \<noteq> []"
  shows "get_static_file fs dict path prefer relative watch w =
    Inr (Some (case find_if (\<lambda>e. fe_compressed e = prefer) (entries_at path w) of
                 Some i \<Rightarrow> entries_at path w ! i | None \<Rightarrow> last (entries_at path w)), w)"
  using assms by (auto simp: get_static_file_def pick_file_spec split: option.splits)

definition sample_entry :: "string \<Rightarrow> bool \<Rightarrow> FileEntry" where
  "sample_entry path compressed =
     \<lparr>fe_path = path, fe_relpath = ''/a'', fe_ext = [], fe_mime_type = [], fe_compressed = compressed,
      fe_encoding = [], fe_watch = True, fe_info = \<lparr>fi_mtime = 1, fi_length = 2\<rparr>,
      fe_new_info = \<lparr>fi_mtime = 1, fi_length = 2\<rparr>, fe_updated = False\<rparr>"

theorem get_static_file_prefers_witness:
  "let w = \<lparr>static_root = ''r/'', files = [(''/a'', sample_entry ''r/a'' False), (''/a'', sample_entry ''r/a.br'' True)],
      opened = 2\<rparr>
   in get_static_file (\<lambda>_. None) (\<lambda>_. None) ''/a'' True True True w = Inr (Some (sample_entry ''r/a.br'' True), w)"
  unfolding Let_def
  by (subst get_static_file_prefers) (simp_all add: entries_at_def sample_entry_def)

section \<open>Files found only on request\<close>

text \<open>The relative path of an uncompressed file below the root.\<close>

lemma new_file_entry_plain:
  assumes "root \<noteq> []" and "last root = CHR ''/''" and "path = root @ p"
    and "path_ext path \<notin> {''br'', ''gzip'', ''gz''}"
  shows "\<exists>e. new_file_entry dict root st path watch = Inr e \<and> fe_relpath e = CHR ''/'' # p \<and>
    fe_path e = path \<and> \<not> fe_compressed e"
proof -
  have "root = butlast root @ [CHR ''/'']" using assms(1,2) by (metis append_butlast_last_id)
  then have "drop (length root - 1) path = CHR ''/'' # p"
    unfolding assms(3) by (metis append_assoc append_Cons append_Nil append_eq_conv_conj length_butlast)
  moreover have "length root - 1 \<le> length path" by (simp add: assms(3))
  ultimately have sub: "substr path (length root - 1) None = Inr (CHR ''/'' # p)" by simp
  show ?thesis
    unfolding new_file_entry_def sub
    using assms(4) by (auto simp: check_if_compressed_def set_ext_def set_mime_type_def split: option.splits)
qed

fun requests :: "nat \<Rightarrow> file_system \<Rightarrow> (string \<rightharpoonup> string) \<Rightarrow> string \<Rightarrow> FileStore \<Rightarrow> FileStore res" where
  "requests 0 fs dict path w = Inr w"
| "requests (Suc n) fs dict path w =
     bindE (get_static_file fs dict path True True True w) (\<lambda>(_, w'). requests n fs dict path w')"

lemma entries_at_append: "entries_at path (w\<lparr>files := files w @ [(k, e)], opened := m\<rparr>) =
    entries_at path w @ (if k = path then [e] else [])"
  by (simp add: entries_at_def)

lemma get_static_file_miss:
  assumes "static_root w \<noteq> []" and "last (static_root w) = CHR ''/''"
    and "fs (static_root w @ path) = Some st" and "fs (static_root w @ path @ ''.br'') = None"
    and "path_ext (static_root w @ path) \<notin> {''br'', ''gzip'', ''gz''}"
    and "entries_at path w = []" and "path \<noteq> []"
  shows "\<exists>e w'. get_static_file fs dict path True True True w = Inr (Some e, w') \<and>
    static_root w' = static_root w \<and> entries_at path w' = [] \<and> opened w' = opened w + 1 \<and>
    fe_path e = static_root w @ path"
proof -
  obtain e where e: "new_file_entry dict (static_root w) st (static_root w @ path) True = Inr e"
    "fe_relpath e = CHR ''/'' # path" "fe_path e = static_root w @ path"
    using new_file_entry_plain [OF assms(1,2) refl assms(5)] by blast
  have "CHR ''/'' # path \<noteq> path" by (metis not_Cons_self2)
  then show ?thesis
    using e assms(3,4,6) by (auto simp: get_static_file_def add_static_file_def entries_at_append)
qed

text \<open>
  A file that was not there when the server started is opened anew by every request: its
  entry is stored under \<open>//name\<close>, the root's slash and the request's, while requests look up
  \<open>/name\<close>. Asking \<open>n\<close> times opens it \<open>n\<close> times, and nothing is ever closed.
\<close>

theorem late_files_reopened:
  assumes "static_root w \<noteq> []" and "last (static_root w) = CHR ''/''"
    and "fs (static_root w @ path) = Some st" and "fs (static_root w @ path @ ''.br'') = None"
    and "path_ext (static_root w @ path) \<notin> {''br'', ''gzip'', ''gz''}"
    and "entries_at path w = []" and "path \<noteq> []"
  shows "\<exists>w'. requests n fs dict path w = Inr w' \<and> opened w' = opened w + n"
  using assms
proof (induction n arbitrary: w)
  case (Suc n)
  obtain e w1 where "get_static_file fs dict path True True True w = Inr (Some e, w1)"
    "static_root w1 = static_root w" "entries_at path w1 = []" "opened w1 = opened w + 1"
    using get_static_file_miss [OF Suc.prems] by blast
  then show ?case using Suc.IH [of w1] Suc.prems by auto
qed simp

definition late_fs :: file_system where
  "late_fs p = (if p = ''r//n.css'' \<or> p = ''r//../key.pem'' then Some \<lparr>fi_mtime = 1, fi_length = 2\<rparr> else None)"

definition empty_store :: FileStore where
  "empty_store = \<lparr>static_root = ''r/'', files = [], opened = 0\<rparr>"

lemma late_ext: "path_ext ''r//n.css'' = ''css''" "path_ext ''r//../key.pem'' = ''pem''"
  by (simp_all add: path_ext_def after_def)

theorem late_files_reopened_witness:
  "\<exists>w'. requests 1000 late_fs (\<lambda>_. None) ''/n.css'' empty_store = Inr w' \<and> opened w' = 1000"
  using late_files_reopened [of empty_store late_fs "''/n.css''" _ 1000 "\<lambda>_. None"] late_ext
  by (simp add: empty_store_def late_fs_def entries_at_def)

text \<open>
  The path of a request goes to the file system as it is: a path the table does not have,
  decoded from the request, is appended to the static root and opened, so dots in it lead out of
  the root. Nothing in between looks at the path.
\<close>

theorem request_path_verbatim:
  assumes "static_root w \<noteq> []" and "last (static_root w) = CHR ''/''"
    and "fs (static_root w @ path) = Some st" and "fs (static_root w @ path @ ''.br'') = None"
    and "path_ext (static_root w @ path) \<notin> {''br'', ''gzip'', ''gz''}"
    and "entries_at path w = []" and "path \<noteq> []"
  shows "\<exists>e w'. get_static_file fs dict path True True True w = Inr (Some e, w') \<and>
    fe_path e = static_root w @ path"
  using get_static_file_miss [OF assms] by blast

theorem request_path_verbatim_witness:
  "\<exists>e w'. get_static_file late_fs (\<lambda>_. None) ''/../key.pem'' True True True empty_store = Inr (Some e, w') \<and>
     fe_path e = ''r//../key.pem''"
  using request_path_verbatim [of empty_store late_fs "''/../key.pem''" _ "\<lambda>_. None"] late_ext
  by (simp add: empty_store_def late_fs_def entries_at_def)

text \<open>
  When one variant of a file disappears, all of them are forgotten: the table is erased by
  key, and a file and its compressed copy share the key. Other paths keep their entries.
\<close>

theorem remove_forgets_variants:
  "entries_at path (remove_static_file e w) = (if path = fe_relpath e then [] else entries_at path w)"
  by (auto simp: entries_at_def remove_static_file_def filter_empty_conv
      intro!: arg_cong [where f = "map snd"] filter_cong)

section \<open>Compressed files\<close>

text \<open>
  The entry of a compressed file below the root is found under the path of the file it
  stands for, with that file's extension and MIME type and the right content encoding.
\<close>

theorem compressed_entry:
  assumes "root \<noteq> []" and "last root = CHR ''/''" and "CHR ''.'' \<notin> set ext"
    and "(suffix, enc) \<in> {(''br'', ''br''), (''gz'', ''gzip''), (''gzip'', ''gzip'')}"
  shows "\<exists>e. new_file_entry dict root st (root @ name @ ''.'' @ ext @ ''.'' @ suffix) watch = Inr e \<and>
    fe_relpath e = ''/'' @ name @ ''.'' @ ext \<and> fe_ext e = ext \<and> fe_compressed e \<and> fe_encoding e = enc \<and>
    fe_mime_type e = (case dict ext of Some t \<Rightarrow> t | None \<Rightarrow> [])"
proof -
  let ?path = "root @ name @ ''.'' @ ext @ ''.'' @ suffix"
  have nodot: "CHR ''.'' \<notin> set suffix" using assms(4) by auto
  have ext1: "path_ext (p @ CHR ''.'' # x) = x" "path_stem (p @ CHR ''.'' # x) = p"
    if "CHR ''.'' \<notin> set x" for p x
    using find_last_char_split [OF that, of p] by (simp_all add: path_ext_def path_stem_def after_def)
  have e1: "path_ext ?path = suffix" "path_stem ?path = root @ name @ ''.'' @ ext"
    using ext1 [OF nodot, of "root @ name @ ''.'' @ ext"] by simp_all
  have e2: "path_ext (root @ name @ ''.'' @ ext) = ext"
    using ext1(1) [OF assms(3), of "root @ name"] by simp
  have "root = butlast root @ [CHR ''/'']" using assms(1,2) by (metis append_butlast_last_id)
  then have "drop (length root - 1) ?path = CHR ''/'' # name @ ''.'' @ ext @ ''.'' @ suffix"
    by (metis append_assoc append_Cons append_Nil append_eq_conv_conj length_butlast)
  then have sub: "substr ?path (length root - 1) None = Inr (CHR ''/'' # name @ ''.'' @ ext @ ''.'' @ suffix)"
    by simp
  have e3: "path_stem (CHR ''/'' # name @ ''.'' @ ext @ ''.'' @ suffix) = CHR ''/'' # name @ ''.'' @ ext"
    using ext1(2) [OF nodot, of "CHR ''/'' # name @ ''.'' @ ext"] by simp
  show ?thesis
    unfolding new_file_entry_def sub
    using assms(4) e1 e2 e3
    by (auto simp: check_if_compressed_def set_ext_def set_mime_type_def split: option.splits)
qed

theorem compressed_entry_witness:
  "\<exists>e. new_file_entry [''css'' \<mapsto> ''text/css''] ''r/'' \<lparr>fi_mtime = 1, fi_length = 2\<rparr> ''r/a.css.br'' True = Inr e \<and>
     fe_relpath e = ''/a.css'' \<and> fe_mime_type e = ''text/css''"
  using compressed_entry [of "''r/''" "''css''" "''br''" "''br''" "[''css'' \<mapsto> ''text/css'']" _ "''a''"]
  by simp blast

section \<open>The walk\<close>

text \<open>The files below a directory, hidden ones left out.\<close>

fun tree_files :: "string \<Rightarrow> dirent list \<Rightarrow> string list" and entry_files :: "string \<Rightarrow> dirent \<Rightarrow> string list"
where
  "tree_files path [] = []"
| "tree_files path (de # des) = entry_files path de @ tree_files path des"
| "entry_files path (Dirent name type below) =
     (if name \<noteq> [] \<and> hd name = CHR ''.'' then []
      else if type = DT_DIR then
        (case below of None \<Rightarrow> [] | Some des \<Rightarrow> tree_files (path @ name @ ''/'') des)
      else if type = DT_REG \<or> type = DT_LNK then [path @ name] else [])"

text \<open>Directories, files, links, pipes and unknown entries only.\<close>

fun tame :: "dirent \<Rightarrow> bool" where
  "tame (Dirent name type below) \<longleftrightarrow>
     type \<in> {0, 1, DT_DIR, DT_REG, DT_LNK} \<and> (case below of None \<Rightarrow> True | Some des \<Rightarrow> list_all tame des)"

definition served_paths :: "FileStore \<Rightarrow> string list" where
  "served_paths w = map (\<lambda>(k, e). fe_path e) (files w)"

lemma new_file_entry_path:
  "length root \<le> length path \<Longrightarrow> \<exists>e. new_file_entry dict root st path watch = Inr e \<and> fe_path e = path"
  by (auto simp: new_file_entry_def check_if_compressed_def set_ext_def set_mime_type_def split: option.splits)

lemma add_static_file_path:
  assumes "length (static_root w) \<le> length path"
  shows "\<exists>r w'. add_static_file fs dict path watch w = Inr (r, w') \<and> static_root w' = static_root w \<and>
    served_paths w' = served_paths w @ filter (\<lambda>p. fs p \<noteq> None) [path]"
proof (cases "fs path")
  case (Some st)
  obtain e where "new_file_entry dict (static_root w) st path watch = Inr e" "fe_path e = path"
    using new_file_entry_path [OF assms] by blast
  then show ?thesis using Some by (auto simp: add_static_file_def served_paths_def)
qed (simp add: add_static_file_def)

lemma type_bits:
  "DT_DIR AND DT_DIR \<noteq> 0" "DT_REG AND DT_DIR = 0" "DT_LNK AND DT_DIR = 0" "(1 :: 8 word) AND DT_DIR = 0"
  "(DT_REG AND DT_REG) OR (DT_REG AND DT_LNK) \<noteq> 0" "(DT_LNK AND DT_REG) OR (DT_LNK AND DT_LNK) \<noteq> 0"
  "((1 :: 8 word) AND DT_REG) OR (1 AND DT_LNK) = 0"
  by simp_all

lemma iterate_files:
  "list_all tame des \<Longrightarrow> length (static_root w) \<le> length path \<Longrightarrow>
     \<exists>w'. iterate_directory fs dict path des w = Inr w' \<and> static_root w' = static_root w \<and>
       served_paths w' =
       served_paths w @ filter (\<lambda>p. fs p \<noteq> None) (tree_files path des)"
  "tame de \<Longrightarrow> length (static_root w) \<le> length path \<Longrightarrow>
     \<exists>w'. iterate_entry fs dict path de w = Inr w' \<and> static_root w' = static_root w \<and>
       served_paths w' =
       served_paths w @ filter (\<lambda>p. fs p \<noteq> None) (entry_files path de)"
proof (induction path des and path de arbitrary: w and w rule: tree_files_entry_files.induct)
  case (2 path de des)
  obtain w1 where "iterate_entry fs dict path de w = Inr w1" "static_root w1 = static_root w"
    "served_paths w1 =
       served_paths w @ filter (\<lambda>p. fs p \<noteq> None) (entry_files path de)"
    using "2.IH"(1) [of w] "2.prems" by auto
  then show ?case using "2.IH"(2) [of w1] "2.prems" by fastforce
next
  case (3 path name type below)
  consider "name \<noteq> [] \<and> hd name = CHR ''.''" | "\<not> (name \<noteq> [] \<and> hd name = CHR ''.'')" "type = DT_DIR"
    | "\<not> (name \<noteq> [] \<and> hd name = CHR ''.'')" "type \<in> {DT_REG, DT_LNK}"
    | "\<not> (name \<noteq> [] \<and> hd name = CHR ''.'')" "type \<in> {0, 1}"
    using "3.prems"(1) by auto
  then show ?case
  proof cases
    case 2
    show ?thesis
    proof (cases below)
      case (Some des)
      then show ?thesis using 2 "3.IH" [of des w] "3.prems" type_bits by auto
    qed (use 2 type_bits in auto)
  next
    case 3
    then show ?thesis
      using add_static_file_path [of w "path @ name" fs dict True] "3.prems"(2) type_bits by fastforce
  next
    case 4
    then show ?thesis using type_bits by auto
  qed auto
qed auto

text \<open>
  Serving a directory adds every file of its tree that can be opened, once, in the order of
  the walk, and nothing else: hidden entries and what is below them are left out, links are
  followed, a directory that cannot be opened is skipped.
\<close>

theorem serve_adds_tree:
  assumes "static_root_of path = Inr root" and "list_all tame des" and "files w = []"
  shows "\<exists>w'. serve_static_files fs dict path (Some des) w = Inr w' \<and> static_root w' = root \<and>
    served_paths w' = filter (\<lambda>p. fs p \<noteq> None) (tree_files root des)"
  using assms iterate_files(1) [of des "w\<lparr>static_root := root\<rparr>" root fs dict]
  by (simp add: serve_static_files_def served_paths_def)

theorem serve_adds_tree_witness:
  "\<exists>w'. serve_static_files (\<lambda>p. Some \<lparr>fi_mtime = 1, fi_length = 2\<rparr>) (\<lambda>_. None) ''www ''
      (Some [Dirent ''.git'' DT_DIR (Some [Dirent ''x'' DT_REG None]),
             Dirent ''css'' DT_DIR (Some [Dirent ''a.css'' DT_REG None]), Dirent ''i'' DT_LNK None])
      empty_store = Inr w' \<and>
     served_paths w' = [''www/css/a.css'', ''www/i'']"
proof -
  have "static_root_of ''www '' = Inr ''www/''" by (simp add: static_root_of_def)
  then show ?thesis
    using serve_adds_tree [of "''www ''" "''www/''" "[Dirent ''.git'' DT_DIR (Some [Dirent ''x'' DT_REG None]),
             Dirent ''css'' DT_DIR (Some [Dirent ''a.css'' DT_REG None]), Dirent ''i'' DT_LNK None]" empty_store
        "\<lambda>p. Some \<lparr>fi_mtime = 1, fi_length = 2\<rparr>" "\<lambda>_. None"]
    by (auto simp: empty_store_def)
qed

text \<open>
  The types of directory entries are numbers, not flags, but they are tested as flags: a
  character device is opened and served like a file, and a socket is walked like a directory.
\<close>

theorem device_served:
  "iterate_entry fs dict path (Dirent name DT_CHR below) w =
     (if name \<noteq> [] \<and> hd name = CHR ''.'' then Inr w
      else bindE (add_static_file fs dict (path @ name) True w) (\<lambda>(_, w'). Inr w')) \<and>
   iterate_entry fs dict path (Dirent name 12 (Some des)) w =
     (if name \<noteq> [] \<and> hd name = CHR ''.'' then Inr w
      else iterate_directory fs dict (path @ name @ ''/'') des w)"
  by simp

end
