(* ===== verification/Request_Body.thy ===== *)
theory Request_Body
  imports Prelude
begin

text \<open>
  How a request's body reaches its handler (\<open>httprequest.cc\<close>): through a callback for the
  whole body (\<open>on_body\<close>) or for every chunk (\<open>on_data\<close>), or through the coroutines
  \<open>body()\<close> and \<open>data()\<close>. The network side calls \<open>handle_data\<close> per DATA chunk and
  \<open>handle_body\<close> at the end.

  A stored callback is a flag, a coroutine handle the state of its coroutine: suspended in its
  \<open>co_await\<close>, or finished. Resuming a finished coroutine is undefined. What the handler
  receives is returned as a list of deliveries.
\<close>

section \<open>The request's body state\<close>

datatype coro = Suspended | Finished

datatype delivery =
    Body_to_callback string
  | Data_to_callback string
  | Body_to_coroutine string
  | Data_to_coroutine string

record RequestBody =
  body :: string
  data :: string
  on_body_cb :: bool
  on_data_cb :: bool
  body_coro :: "coro option"
  data_coro :: "coro option"
  data_chunk_mode :: bool
  data_ready :: bool
  buffered :: bool

definition new_request_body :: RequestBody where
  "new_request_body = \<lparr>body = [], data = [], on_body_cb = False, on_data_cb = False,
     body_coro = None, data_coro = None, data_chunk_mode = False, data_ready = False, buffered = False\<rparr>"

type_synonym body_step = "(delivery list \<times> RequestBody) res"

section \<open>The handler's side\<close>

definition on_body :: "RequestBody \<Rightarrow> body_step" where
  "on_body r = Inr ([], r\<lparr>data_chunk_mode := False, on_body_cb := True\<rparr>)"

definition on_data :: "RequestBody \<Rightarrow> body_step" where
  "on_data r =
     (let r' = r\<lparr>data_chunk_mode := True, on_data_cb := True\<rparr> in
      if buffered r' then Inr ([Data_to_callback (body r')], r'\<lparr>buffered := False\<rparr>) else Inr ([], r'))"

definition await_body :: "RequestBody \<Rightarrow> body_step" where
  "await_body r =
     (let r' = r\<lparr>data_chunk_mode := False\<rparr> in
      if \<not> data_ready r' then Inr ([], r'\<lparr>body_coro := Some Suspended\<rparr>)
      else Inr ([Body_to_coroutine (body r')], r'\<lparr>body_coro := Some Finished\<rparr>))"

definition await_data :: "RequestBody \<Rightarrow> body_step" where
  "await_data r =
     (let r' = r\<lparr>data_chunk_mode := True\<rparr> in
      if buffered r' then
        Inr ([Data_to_coroutine (body r')], r'\<lparr>buffered := False, data_coro := Some Finished\<rparr>)
      else
        (let r'' = r'\<lparr>body := []\<rparr> in
         if data_ready r'' then Inr ([Data_to_coroutine []], r''\<lparr>data_coro := Some Finished\<rparr>)
         else Inr ([], r''\<lparr>data_coro := Some Suspended\<rparr>)))"

section \<open>The network's side\<close>

definition resume_data :: "RequestBody \<Rightarrow> body_step" where
  "resume_data r =
     (if data_coro r = Some Suspended
      then Inr ([Data_to_coroutine (data r)], r\<lparr>data_coro := Some Finished\<rparr>)
      else Inl Undefined)"

definition resume_body :: "RequestBody \<Rightarrow> body_step" where
  "resume_body r =
     (if body_coro r = Some Suspended
      then Inr ([Body_to_coroutine (body r)], r\<lparr>body_coro := Some Finished\<rparr>)
      else Inl Undefined)"

definition handle_data :: "string \<Rightarrow> bool \<Rightarrow> RequestBody \<Rightarrow> body_step" where
  "handle_data str eof r =
     (if str \<noteq> [] \<or> eof then
        (if eof \<and> str \<noteq> [] then Inl Assertion
         else
           (let r' = (if data_chunk_mode r then r\<lparr>data := str\<rparr> else r) in
            if data_chunk_mode r \<and> data_coro r' \<noteq> None then resume_data r'
            else if data_chunk_mode r \<and> on_data_cb r' then Inr ([Data_to_callback (data r')], r')
            else Inr ([], r'\<lparr>buffered := True, body := body r' @ str\<rparr>)))
      else Inr ([], r))"

definition handle_body :: "RequestBody \<Rightarrow> body_step" where
  "handle_body r =
     (if data_chunk_mode r then handle_data [] True r
      else if body_coro r \<noteq> None then resume_body r
      else if on_body_cb r then Inr ([Body_to_callback (body r)], r)
      else Inr ([], r\<lparr>data_ready := True\<rparr>))"

section \<open>Runs\<close>

datatype body_event = Chunk string | End_of_body | On_body | On_data | Await_body | Await_data

primrec body_event_step :: "body_event \<Rightarrow> RequestBody \<Rightarrow> body_step" where
  "body_event_step (Chunk s) r = handle_data s False r"
| "body_event_step End_of_body r = handle_body r"
| "body_event_step On_body r = on_body r"
| "body_event_step On_data r = on_data r"
| "body_event_step Await_body r = await_body r"
| "body_event_step Await_data r = await_data r"

fun body_run :: "body_event list \<Rightarrow> RequestBody \<Rightarrow> body_step" where
  "body_run [] r = Inr ([], r)"
| "body_run (e # es) r =
     bindE (body_event_step e r) (\<lambda>(ds, r'). bindE (body_run es r') (\<lambda>(ds', r''). Inr (ds @ ds', r'')))"

definition delivered :: "body_event list \<Rightarrow> delivery list res" where
  "delivered es = map_sum id fst (body_run es new_request_body)"

lemma body_run_append:
  "body_run (es @ es') r =
     bindE (body_run es r) (\<lambda>(ds, r'). bindE (body_run es' r') (\<lambda>(ds', r''). Inr (ds @ ds', r'')))"
  by (induction es arbitrary: r) (simp_all add: bindE_assoc case_prod_unfold)

lemmas body_steps = on_body_def on_data_def await_body_def await_data_def resume_data_def
  resume_body_def handle_data_def handle_body_def Let_def

text \<open>Chunks that arrive outside the chunk mode gather in \<open>body\<close>.\<close>

lemma run_chunks_buffer:
  "\<not> data_chunk_mode r \<Longrightarrow> body_run (map Chunk cs) r =
     Inr ([], r\<lparr>body := body r @ concat cs, buffered := (buffered r \<or> (\<exists>c \<in> set cs. c \<noteq> []))\<rparr>)"
  by (induction cs arbitrary: r) (auto simp: body_steps)

lemma run_chunks_callback:
  "data_chunk_mode r \<Longrightarrow> data_coro r = None \<Longrightarrow> on_data_cb r \<Longrightarrow>
   \<exists>d. body_run (map Chunk cs) r =
     Inr (map Data_to_callback (filter (\<lambda>c. c \<noteq> []) cs), r\<lparr>data := d\<rparr>)"
proof (induction cs arbitrary: r)
  case Nil
  have "r = r\<lparr>data := data r\<rparr>" by simp
  then show ?case by (auto intro: exI [of _ "data r"])
next
  case (Cons c cs)
  show ?case
  proof (cases "c = []")
    case True
    then show ?thesis using Cons by (simp add: body_steps)
  next
    case False
    then show ?thesis using Cons.IH [of "r\<lparr>data := c\<rparr>"] Cons.prems by (force simp: body_steps)
  qed
qed

lemma run_chunks_new: "body_run (map Chunk cs) new_request_body =
    Inr ([], new_request_body\<lparr>body := concat cs, buffered := (\<exists>c \<in> set cs. c \<noteq> [])\<rparr>)"
  using run_chunks_buffer [of new_request_body cs] by (simp add: new_request_body_def)

section \<open>Properties\<close>

text \<open>
  A handler that awaits \<open>body()\<close> gets the whole body, once: the concatenation of all chunks,
  whether it asks before the first chunk, between two, or after the end of the body.
\<close>

theorem await_body_whole:
  "delivered (map Chunk before @ Await_body # map Chunk later @ [End_of_body]) =
     Inr [Body_to_coroutine (concat before @ concat later)] \<and>
   delivered (map Chunk before @ [End_of_body, Await_body]) = Inr [Body_to_coroutine (concat before)]"
proof -
  let ?r = "new_request_body\<lparr>body := concat before, buffered := (\<exists>c \<in> set before. c \<noteq> [])\<rparr>"
  have "\<not> data_chunk_mode (?r\<lparr>data_chunk_mode := False, body_coro := Some Suspended\<rparr>)" by simp
  from run_chunks_buffer [OF this, of later] show ?thesis
    by (simp add: delivered_def body_run_append run_chunks_new body_steps)
      (simp add: new_request_body_def)
qed

text \<open>
  \<open>on_body\<close> works when it is registered before the end of the body, at any point among the
  chunks: the callback is called once, with the whole body.
\<close>

theorem on_body_whole:
  "delivered (map Chunk before @ On_body # map Chunk later @ [End_of_body]) =
     Inr [Body_to_callback (concat before @ concat later)]"
proof -
  let ?r = "new_request_body\<lparr>body := concat before, buffered := (\<exists>c \<in> set before. c \<noteq> [])\<rparr>"
  have "\<not> data_chunk_mode (?r\<lparr>data_chunk_mode := False, on_body_cb := True\<rparr>)" by simp
  from run_chunks_buffer [OF this, of later] show ?thesis
    by (simp add: delivered_def body_run_append run_chunks_new body_steps)
      (simp add: new_request_body_def)
qed

text \<open>
  A callback registered with \<open>on_data\<close> gets the chunks that came before as one, then every
  non-empty chunk as it comes, then the empty string that marks the end, and so the whole body
  in order.
\<close>

theorem on_data_stream:
  "delivered (map Chunk before @ On_data # map Chunk later @ [End_of_body]) =
     Inr ((if concat before = [] then [] else [Data_to_callback (concat before)]) @
       map Data_to_callback (filter (\<lambda>c. c \<noteq> []) later) @ [Data_to_callback []])"
proof -
  let ?r = "new_request_body\<lparr>body := concat before, buffered := False, data_chunk_mode := True, on_data_cb := True\<rparr>"
  obtain d where "body_run (map Chunk later) ?r =
      Inr (map Data_to_callback (filter (\<lambda>c. c \<noteq> []) later), ?r\<lparr>data := d\<rparr>)"
    using run_chunks_callback [of ?r later] by (auto simp: new_request_body_def)
  moreover have "(\<exists>c \<in> set before. c \<noteq> []) \<longleftrightarrow> concat before \<noteq> []" by simp
  ultimately show ?thesis
    by (auto simp: delivered_def body_run_append run_chunks_new body_steps)
      (auto simp: new_request_body_def body_steps)
qed

text \<open>
  Registered after the end of the body, neither callback completes: \<open>on_body\<close> is never
  called at all, and \<open>on_data\<close> gets the data but never the end mark.
\<close>

theorem late_callbacks_starve:
  "delivered (map Chunk cs @ [End_of_body, On_body]) = Inr [] \<and>
   delivered (map Chunk cs @ [End_of_body, On_data]) =
     Inr (if concat cs = [] then [] else [Data_to_callback (concat cs)])"
  by (auto simp: delivered_def body_run_append run_chunks_new body_steps)
    (simp_all add: new_request_body_def)

text \<open>
  A handler reading with \<open>data()\<close> must be waiting whenever a chunk arrives: the handle of a
  coroutine that has returned is kept, and a chunk (or the end) that arrives before the next
  \<open>data()\<close> resumes the finished coroutine, which is undefined.
\<close>

theorem data_resumes_finished:
  "c \<noteq> [] \<Longrightarrow> d \<noteq> [] \<Longrightarrow>
   delivered [Chunk c, Await_data, Chunk d] = Inl Undefined \<and>
   delivered [Await_data, Chunk c, Chunk d] = Inl Undefined \<and>
   delivered [Await_data, Chunk c, Await_data, Chunk d, Await_data, End_of_body] =
     Inr [Data_to_coroutine c, Data_to_coroutine d, Data_to_coroutine []]"
  by (simp add: delivered_def body_steps new_request_body_def)

theorem data_resumes_finished_witness:
  "delivered [Await_data, Chunk ''ab'', Chunk ''cd''] = Inl Undefined"
  using data_resumes_finished [of "''ab''" "''cd''"] by simp

end
