(* ===== verification/Streams.thy ===== *)
theory Streams
  imports Route_Dispatch Data_Streams Message_Headers Http_Date Static_Files Request_Body
begin

text \<open>
  A stream (\<open>stream.cc\<close>): one request and its response. Here are the parsing of the path, the
  functions that submit responses, \<open>prepare_response\<close>, which picks a handler or a file, and the
  calls a handler makes on its \<open>HttpResponse\<close>.

  What a stream asks of nghttp2 is recorded as a list of calls in the connection, next to the
  state of the write watcher. The environment \<open>Env\<close> holds what is not the program's own: the
  file system, the C library's time functions, the cached date, and the handlers, each a list of
  the calls it makes on its response, and on its request to read the body. What a handler is given
  of the body is kept in the stream; how it reacts are further calls, made later.
\<close>

section \<open>The connection and the environment\<close>

datatype ng_call =
    Submit_response int "nv option list" bool
  | Submit_headers int "nv list"
  | Submit_rst int nat
  | Resume_data int
  | Submit_settings
  | Terminate_session nat

record Conn =
  ng_calls :: "ng_call list"
  wev :: bool

datatype response_op =
    Set_status string
  | Set_header string string
  | Set_header_nc string string
  | Send string
  | Send_html string
  | Send_json string
  | Send_file
  | Send_file_path string bool bool bool
  | Send_status_response string string
  | Read_request body_event
  | Open_events
  | Send_event Event

record Env =
  env_fs :: file_system
  env_dict :: "string \<rightharpoonup> string"
  env_strptime :: "string \<Rightarrow> tm option"
  env_gmtime :: "int \<Rightarrow> tm option"
  env_date :: string
  env_handler :: "nat \<Rightarrow> string list \<Rightarrow> response_op list"

text \<open>Timers are running or not; \<open>data_stream_store_\<close> and \<open>data_stream_\<close> are one field.\<close>

record Stream =
  st_id :: int
  st_serial :: "64 word"
  st_headers :: Headers
  st_response :: ResponseHeader
  st_request :: RequestBody
  st_delivered :: "delivery list"
  st_path :: string
  st_query :: string
  st_rtimer :: bool
  st_wtimer :: bool
  st_mem :: MemBlock
  st_data :: "DataStream option"
  st_prepared :: bool

definition new_stream :: "int \<Rightarrow> 64 word \<Rightarrow> Stream" where
  "new_stream stream_id serial =
     \<lparr>st_id = stream_id, st_serial = serial, st_headers = no_headers, st_response = new_response_headers,
      st_request = new_request_body, st_delivered = [], st_path = [], st_query = [], st_rtimer = False, st_wtimer = False,
      st_mem = new_memblock, st_data = None, st_prepared = False\<rparr>"

section \<open>Timers\<close>

definition reset_read_timeout :: "Stream \<Rightarrow> Stream" where
  "reset_read_timeout st = st\<lparr>st_rtimer := True\<rparr>"

definition reset_write_timeout :: "Stream \<Rightarrow> Stream" where
  "reset_write_timeout st = st\<lparr>st_wtimer := True\<rparr>"

definition reset_read_timeout_if_active :: "Stream \<Rightarrow> Stream" where
  "reset_read_timeout_if_active st = (if st_rtimer st then st\<lparr>st_rtimer := True\<rparr> else st)"

definition stop_read_timeout :: "Stream \<Rightarrow> Stream" where
  "stop_read_timeout st = st\<lparr>st_rtimer := False\<rparr>"

definition stop_write_timeout :: "Stream \<Rightarrow> Stream" where
  "stop_write_timeout st = st\<lparr>st_wtimer := False\<rparr>"

section \<open>The path\<close>

definition mem_alloc :: "nat \<Rightarrow> Stream \<Rightarrow> Stream" where
  "mem_alloc n st = st\<lparr>st_mem := snd (alloc 512 n (st_mem st))\<rparr>"

definition decode_part :: "string \<Rightarrow> Stream \<Rightarrow> string \<times> Stream" where
  "decode_part raw st =
     (if find_char (CHR ''%'') raw = None then (raw, st)
      else (percent_decode raw, mem_alloc (length raw + 1) st))"

definition parse_path :: "Stream \<Rightarrow> Stream" where
  "parse_path st =
     (let reqpath = (case hpath (st_headers st) of Some v \<Rightarrow> rbytes v | None \<Rightarrow> ''/'');
          reqpath = (if reqpath = [] then ''/'' else reqpath);
          (raw_path, raw_query) =
            (case find_char (CHR ''?'') reqpath of
               Some query_pos \<Rightarrow> (take query_pos reqpath, drop query_pos reqpath)
             | None \<Rightarrow> (reqpath, []));
          (path, st) = decode_part raw_path st;
          (query, st) = decode_part raw_query st
      in st\<lparr>st_path := path, st_query := query\<rparr>)"

section \<open>Submitting\<close>

abbreviation (input) NGHTTP2_NO_ERROR :: nat where
  "NGHTTP2_NO_ERROR \<equiv> 0"
abbreviation (input) NGHTTP2_INTERNAL_ERROR :: nat where
  "NGHTTP2_INTERNAL_ERROR \<equiv> 2"

definition call_nghttp2 :: "ng_call \<Rightarrow> Conn \<Rightarrow> Conn" where
  "call_nghttp2 x c = c\<lparr>ng_calls := ng_calls c @ [x], wev := True\<rparr>"

definition submit_response :: "bool \<Rightarrow> Stream \<Rightarrow> Conn \<Rightarrow> (Stream \<times> Conn) res" where
  "submit_response with_data st c =
     (let r = st_response st;
          r = (if status r = None then r\<lparr>status := Some ''200''\<rparr> else r) in
      bindE (set_status r) (\<lambda>r.
        Inr (st\<lparr>st_response := r\<rparr>, call_nghttp2 (Submit_response (st_id st) (get_buffer r) with_data) c)))"

definition submit_rst :: "nat \<Rightarrow> Stream \<Rightarrow> Conn \<Rightarrow> Stream \<times> Conn" where
  "submit_rst error_code st c =
     (stop_write_timeout (stop_read_timeout st), call_nghttp2 (Submit_rst (st_id st) error_code) c)"

definition submit_non_final_response :: "string \<Rightarrow> Stream \<Rightarrow> Conn \<Rightarrow> Conn" where
  "submit_non_final_response s st c =
     call_nghttp2 (Submit_headers (st_id st) [make_nv '':status'' s (False, False)]) c"

definition response_header :: "string \<Rightarrow> string \<Rightarrow> Stream \<Rightarrow> Stream" where
  "response_header name v st = st\<lparr>st_response := set_header_nc name v (st_response st)\<rparr>"

text \<open>\<open>set_header_nc("content-length", util::to_string(n, mem_block_))\<close>.\<close>

definition length_header :: "int \<Rightarrow> Stream \<Rightarrow> Stream" where
  "length_header n st = response_header ''content-length'' (to_string n) (mem_alloc (count_size n 2) st)"

definition add_string_stream :: "string \<Rightarrow> Stream \<Rightarrow> Stream" where
  "add_string_stream s st = st\<lparr>st_data := Some (Is_string (new_string_stream s))\<rparr>"

definition submit_string_response :: "string \<Rightarrow> Stream \<Rightarrow> Conn \<Rightarrow> (Stream \<times> Conn) res" where
  "submit_string_response s st c =
     submit_response True (length_header (int (length s)) (add_string_stream s st)) c"

definition submit_html_response :: "string \<Rightarrow> Stream \<Rightarrow> Conn \<Rightarrow> (Stream \<times> Conn) res" where
  "submit_html_response s st c =
     submit_response True
       (length_header (int (length s))
         (response_header ''content-type'' ''text/html; charset=utf-8'' (add_string_stream s st))) c"

definition submit_json_response :: "string \<Rightarrow> Stream \<Rightarrow> Conn \<Rightarrow> (Stream \<times> Conn) res" where
  "submit_json_response s st c =
     submit_response True
       (length_header (int (length s))
         (response_header ''content-type'' ''application/json'' (add_string_stream s st))) c"

section \<open>Files\<close>

text \<open>\<open>file->info()\<close> on the table's entry.\<close>

definition refresh_entry :: "FileEntry \<Rightarrow> FileStore \<Rightarrow> FileStore" where
  "refresh_entry e w =
     (case find_if (\<lambda>(k, f). f = e) (files w) of
        None \<Rightarrow> w
      | Some i \<Rightarrow> w\<lparr>files := (files w)[i := (fst (files w ! i), snd (file_info e))]\<rparr>)"

definition set_response_status :: "string \<Rightarrow> Stream \<Rightarrow> Stream" where
  "set_response_status s st = st\<lparr>st_response := (st_response st)\<lparr>status := Some s\<rparr>\<rparr>"

definition file_headers :: "Env \<Rightarrow> FileEntry \<Rightarrow> FileInfo \<Rightarrow> Stream \<Rightarrow> Stream res" where
  "file_headers env e info st =
     (let st = response_header ''content-type'' (fe_mime_type e) st;
          st = length_header (fi_length info) st;
          st = (if fe_compressed e then response_header ''content-encoding'' (fe_encoding e) st else st);
          st = response_header ''cache-control'' ''max-age=0'' st;
          st = response_header ''date'' (env_date env) st in
      bindE (http_date (env_gmtime env) (fi_mtime info)) (\<lambda>d.
        Inr (response_header ''last-modified'' d (mem_alloc 29 st))))"

definition not_found_text :: string where
  "not_found_text = ''<html><h1>404</h1><p>Content not found.</p></html>''"

definition bad_request_text :: string where
  "bad_request_text = ''<html><h1>400</h1><p>Bad Request.</p></html>''"

text \<open>The answer when the file was found: 304 when it is not newer than the date of the request.\<close>

definition submit_file :: "Env \<Rightarrow> FileEntry \<Rightarrow> Stream \<Rightarrow> Conn \<Rightarrow> (Stream \<times> Conn) res" where
  "submit_file env e st c =
     bindE (case ims (st_headers st) of
              None \<Rightarrow> Inr None
            | Some v \<Rightarrow> bindE (parse_http_date (env_strptime env) (rbytes v)) (\<lambda>t. Inr (Some t)))
       (\<lambda>last_mod.
         let info = fst (file_info e);
             st = st\<lparr>st_data := Some (Is_file (new_file_stream (nat (fi_length info))))\<rparr> in
         if last_mod \<noteq> None \<and> fi_mtime info \<le> the last_mod then
           submit_response False (set_response_status ''304'' (response_header ''date'' (env_date env) st)) c
         else bindE (file_headers env e info st) (\<lambda>st. submit_response True st c))"

definition submit_file_response ::
  "Env \<Rightarrow> string \<Rightarrow> bool \<Rightarrow> bool \<Rightarrow> bool \<Rightarrow> Stream \<times> Conn \<times> FileStore \<Rightarrow> (Stream \<times> Conn \<times> FileStore) res"
where
  "submit_file_response env path prefer_compressed relative watch =
     (\<lambda>(st, c, w).
       bindE (get_static_file (env_fs env) (env_dict env) path prefer_compressed relative watch w)
         (\<lambda>(found, w).
           case found of
             Some e \<Rightarrow> bindE (submit_file env e st c) (\<lambda>(st, c). Inr (st, c, refresh_entry e w))
           | None \<Rightarrow>
               bindE (submit_json_response not_found_text (set_response_status ''404'' st) c)
                 (\<lambda>(st, c). Inr (st, c, w))))"

definition submit_path_response :: "Env \<Rightarrow> Stream \<times> Conn \<times> FileStore \<Rightarrow> (Stream \<times> Conn \<times> FileStore) res"
where
  "submit_path_response env =
     (\<lambda>(st, c, w).
       submit_file_response env (if st_path st = ''/'' then ''/index.html'' else st_path st) True True True
         (st, c, w))"

section \<open>Server-sent events\<close>

text \<open>\<open>EventSource::create\<close>, and \<open>EventStream::submit\<close> on the event stream the source points to.\<close>

definition create_event_source :: "Stream \<Rightarrow> Conn \<Rightarrow> (Stream \<times> Conn) res" where
  "create_event_source st c =
     (let st = response_header ''cache-control'' ''no-store'' st;
          st = response_header ''content-type'' ''text/event-stream'' st;
          st = st\<lparr>st_data := Some (Is_event new_event_stream)\<rparr>
      in submit_response True (stop_read_timeout st) c)"

definition submit_event :: "Event \<Rightarrow> Stream \<Rightarrow> Conn \<Rightarrow> (Stream \<times> Conn) res" where
  "submit_event ev st c =
     (case st_data st of
        Some (Is_event es) \<Rightarrow>
          (let (resume, es) = es_submit ev es
           in Inr (st\<lparr>st_data := Some (Is_event es)\<rparr>, if resume then call_nghttp2 (Resume_data (st_id st)) c else c))
      | _ \<Rightarrow> Inl Undefined)"

section \<open>Handlers\<close>

definition on_request :: "(RequestBody \<Rightarrow> body_step) \<Rightarrow> Stream \<Rightarrow> Stream res" where
  "on_request f st =
     bindE (f (st_request st)) (\<lambda>(ds, r). Inr (st\<lparr>st_request := r, st_delivered := st_delivered st @ ds\<rparr>))"

definition stream_only ::
  "(Stream \<Rightarrow> Conn \<Rightarrow> (Stream \<times> Conn) res) \<Rightarrow> Stream \<times> Conn \<times> FileStore \<Rightarrow> (Stream \<times> Conn \<times> FileStore) res"
where
  "stream_only f = (\<lambda>(st, c, w). bindE (f st c) (\<lambda>(st, c). Inr (st, c, w)))"

definition response_step ::
  "Env \<Rightarrow> response_op \<Rightarrow> Stream \<times> Conn \<times> FileStore \<Rightarrow> (Stream \<times> Conn \<times> FileStore) res"
where
  "response_step env x =
     (case x of
        Set_status s \<Rightarrow> stream_only (\<lambda>st c. Inr (set_response_status s st, c))
      | Set_header n v \<Rightarrow>
          stream_only (\<lambda>st c. Inr (st\<lparr>st_response := set_header n v (st_response st)\<rparr>, c))
      | Set_header_nc n v \<Rightarrow> stream_only (\<lambda>st c. Inr (response_header n v st, c))
      | Send s \<Rightarrow> stream_only (submit_string_response s)
      | Send_html s \<Rightarrow> stream_only (submit_html_response s)
      | Send_json s \<Rightarrow> stream_only (submit_json_response s)
      | Send_file \<Rightarrow> submit_path_response env
      | Send_file_path path relative watch prefer_compressed \<Rightarrow>
          submit_file_response env path prefer_compressed relative watch
      | Send_status_response s m \<Rightarrow>
          stream_only (\<lambda>st c. submit_html_response
            (''<html> <h1>'' @ s @ ''</h1> <p>'' @ m @ ''</p> </html>'') (set_response_status s st) c)
      | Open_events \<Rightarrow> stream_only create_event_source
      | Send_event ev \<Rightarrow> stream_only (submit_event ev)
      | Read_request e \<Rightarrow>
          stream_only (\<lambda>st c. bindE (on_request (body_event_step e) st) (\<lambda>st. Inr (st, c))))"

fun response_steps ::
  "Env \<Rightarrow> response_op list \<Rightarrow> Stream \<times> Conn \<times> FileStore \<Rightarrow> (Stream \<times> Conn \<times> FileStore) res"
where
  "response_steps env [] x = Inr x"
| "response_steps env (op # ops) x = bindE (response_step env op x) (response_steps env ops)"

definition prepare_response ::
  "Env \<Rightarrow> HttpRouter \<Rightarrow> Stream \<times> Conn \<times> FileStore \<Rightarrow> (Stream \<times> Conn \<times> FileStore) res"
where
  "prepare_response env router =
     (\<lambda>(st, c, w).
       bindE (dispatch_route (hmethod (st_headers st)) (st_path st) router)
         (\<lambda>d. case d of
            Invoke i k vars \<Rightarrow> response_steps env (env_handler env i vars) (st, c, w)
          | NotFound \<Rightarrow>
              if hmethod (st_headers st) = GET then submit_path_response env (st, c, w)
              else
                bindE (submit_json_response bad_request_text (set_response_status ''400'' st) c)
                  (\<lambda>(st, c). Inr (st, c, w))))"

end
