(* ===== verification/Stream_Facts.thy ===== *)
theory Stream_Facts
  imports Streams
begin

text \<open>
  What a stream answers: the decoded path, the headers and bodies submitted for strings and
  files, the conditional request, and the answers to requests no handler takes.
\<close>

section \<open>The path\<close>

lemma percent_decode_plain:
  "CHR ''%'' \<notin> set s \<Longrightarrow> CHR ''+'' \<notin> set s \<Longrightarrow> percent_decode s = s"
  by (induction s rule: percent_decode.induct) auto

lemma decode_part_fst: "fst (decode_part raw st) = (if CHR ''%'' \<in> set raw then percent_decode raw else raw)"
  by (auto simp: decode_part_def find_char_None)

text \<open>
  The request's target is cut at the first question mark, and each half is decoded when it has
  a percent sign in it and left alone otherwise. So path and query are the decoded halves, except
  that a plus sign becomes a space only when the same half happens to have a percent sign.
\<close>

theorem parse_path_halves:
  assumes "hpath (st_headers st) = Some v" and "rbytes v = p @ q" and "CHR ''?'' \<notin> set p"
    and "q = [] \<or> hd q = CHR ''?''" and "p @ q \<noteq> []"
  shows "st_path (parse_path st) = (if CHR ''%'' \<in> set p then percent_decode p else p) \<and>
    st_query (parse_path st) = (if CHR ''%'' \<in> set q then percent_decode q else q) \<and>
    (CHR ''+'' \<notin> set p \<longrightarrow> st_path (parse_path st) = percent_decode p)"
proof -
  have "(case find_char (CHR ''?'') (p @ q) of Some i \<Rightarrow> (take i (p @ q), drop i (p @ q)) | None \<Rightarrow> (p @ q, [])) = (p, q)"
  proof (cases q)
    case Nil
    then show ?thesis using assms(3) by (simp add: find_char_None [THEN iffD2])
  next
    case (Cons a q')
    then have "find_char (CHR ''?'') (p @ q) = Some (length p)"
      using assms(3,4) find_char_split [of "CHR ''?''" p q'] by simp
    then show ?thesis by simp
  qed
  then have *: "parse_path st = (case decode_part p st of (path, st) \<Rightarrow> case decode_part q st of (query, st) \<Rightarrow>
      st\<lparr>st_path := path, st_query := query\<rparr>)"
    using assms(1,2,5) by (auto simp: parse_path_def)
  then show ?thesis
    by (auto simp: case_prod_unfold decode_part_fst percent_decode_plain)
qed

theorem parse_path_halves_witness:
  "st_path (parse_path ((new_stream 1 0)\<lparr>st_headers := no_headers\<lparr>hpath := Some (Rcbuf 0 ''/a+b?x=%41'')\<rparr>\<rparr>)) = ''/a+b'' \<and>
   st_query (parse_path ((new_stream 1 0)\<lparr>st_headers := no_headers\<lparr>hpath := Some (Rcbuf 0 ''/a+b?x=%41'')\<rparr>\<rparr>)) = ''?x=A''"
proof -
  have "hex_value (CHR ''4'') 4" "hex_value (CHR ''1'') 1" by (simp_all add: hex_value_def)
  then have "hex_pair (CHR ''4'') (CHR ''1'') = CHR ''A''" by (rule hex_pair_value) simp
  then show ?thesis
    using parse_path_halves [of "(new_stream 1 0)\<lparr>st_headers := no_headers\<lparr>hpath := Some (Rcbuf 0 ''/a+b?x=%41'')\<rparr>\<rparr>"
        "Rcbuf 0 ''/a+b?x=%41''" "''/a+b''" "''?x=%41''"]
    by simp
qed

section \<open>Submitted responses\<close>

text \<open>The stream has \<open>hs\<close> as response headers and no response yet.\<close>

definition fresh :: "Stream \<Rightarrow> nv list \<Rightarrow> bool" where
  "fresh st hs \<longleftrightarrow> headers_are (st_response st) hs"

definition plain_nv :: "string \<Rightarrow> string \<Rightarrow> nv" where
  "plain_nv n v = make_nv n v (False, False)"

definition response_call :: "int \<Rightarrow> string \<Rightarrow> nv list \<Rightarrow> bool \<Rightarrow> ng_call" where
  "response_call i s hs with_data = Submit_response i (map Some (plain_nv '':status'' s # hs)) with_data"

lemma fresh_new: "fresh (new_stream i k) []"
  by (simp add: fresh_def new_stream_def headers_are_new)

lemma fresh_header: "fresh st hs \<Longrightarrow> fresh (response_header n v st) (hs @ [plain_nv n v])"
  by (simp add: fresh_def response_header_def set_header_nc_def push_header_are plain_nv_def)

lemma fresh_set_header:
  "fresh st hs \<Longrightarrow> fresh (st\<lparr>st_response := set_header n v (st_response st)\<rparr>) (hs @ [make_nv n v (False, True)])"
  by (simp add: fresh_def set_header_def push_header_are)

lemma fresh_other [simp]:
  "fresh (st\<lparr>st_data := d\<rparr>) hs = fresh st hs" "fresh (mem_alloc n st) hs = fresh st hs"
  "fresh (set_response_status s st) hs = fresh st hs" "fresh (add_string_stream t st) hs = fresh st hs"
  by (simp_all add: fresh_def mem_alloc_def set_response_status_def add_string_stream_def)

lemma fresh_length: "fresh st hs \<Longrightarrow> fresh (length_header n st) (hs @ [plain_nv ''content-length'' (decimal n)])"
  by (simp add: length_header_def to_string_decimal fresh_header)

lemma status_push [simp]: "status (push_header x r) = status r"
  by (simp add: push_header_def Let_def)

lemma kept_fields [simp]:
  "st_id (response_header n v st) = st_id st" "st_data (response_header n v st) = st_data st"
  "st_headers (response_header n v st) = st_headers st"
  "status (st_response (response_header n v st)) = status (st_response st)"
  "st_id (mem_alloc k st) = st_id st" "st_data (mem_alloc k st) = st_data st"
  "status (st_response (mem_alloc k st)) = status (st_response st)"
  "st_id (set_response_status s st) = st_id st" "st_data (set_response_status s st) = st_data st"
  "status (st_response (set_response_status s st)) = Some s"
  "st_id (add_string_stream t st) = st_id st"
  "st_data (add_string_stream t st) = Some (Is_string (new_string_stream t))"
  "status (st_response (add_string_stream t st)) = status (st_response st)"
  "st_id (length_header m st) = st_id st" "st_data (length_header m st) = st_data st"
  "status (st_response (length_header m st)) = status (st_response st)"
  by (simp_all add: response_header_def set_header_nc_def mem_alloc_def set_response_status_def
      add_string_stream_def length_header_def)

lemma submit_response_call:
  assumes "fresh st hs"
  shows "\<exists>st'. submit_response b st c = Inr (st',
      call_nghttp2 (response_call (st_id st) (case status (st_response st) of None \<Rightarrow> ''200'' | Some s \<Rightarrow> s) hs b) c) \<and>
    st_data st' = st_data st \<and> st_id st' = st_id st"
proof -
  define r where "r = (if status (st_response st) = None then (st_response st)\<lparr>status := Some ''200''\<rparr> else st_response st)"
  obtain s where s: "status r = Some s"
    "s = (case status (st_response st) of None \<Rightarrow> ''200'' | Some s \<Rightarrow> s)"
    by (cases "status (st_response st)") (auto simp: r_def)
  then obtain r' where r': "set_status r = Inr r'" by (simp add: set_status_def Let_def)
  have "headers_are r hs" using assms by (simp add: r_def fresh_def)
  then have "get_buffer r' = map Some (plain_nv '':status'' s # hs)"
    using get_buffer_are s(1) r' by (simp add: plain_nv_def)
  then show ?thesis
    using r' s(2) by (simp add: submit_response_def Let_def response_call_def flip: r_def)
qed

lemma submit_text_responses:
  fixes t :: string
  assumes "fresh st hs"
  defines "s \<equiv> (case status (st_response st) of None \<Rightarrow> ''200'' | Some s \<Rightarrow> s)"
    and "cl \<equiv> plain_nv ''content-length'' (decimal (int (length t)))"
  shows "\<exists>st'. submit_string_response t st c = Inr (st', call_nghttp2 (response_call (st_id st) s (hs @ [cl]) True) c) \<and>
      st_data st' = Some (Is_string (new_string_stream t))"
    and "\<exists>st'. submit_html_response t st c = Inr (st', call_nghttp2 (response_call (st_id st) s
        (hs @ [plain_nv ''content-type'' ''text/html; charset=utf-8'', cl]) True) c) \<and>
      st_data st' = Some (Is_string (new_string_stream t))"
    and "\<exists>st'. submit_json_response t st c = Inr (st', call_nghttp2 (response_call (st_id st) s
        (hs @ [plain_nv ''content-type'' ''application/json'', cl]) True) c) \<and>
      st_data st' = Some (Is_string (new_string_stream t))"
proof -
  let ?st = "add_string_stream t st" and ?n = "int (length t)"
  have f: "fresh ?st hs" using assms(1) by simp
  have g: "fresh (response_header ''content-type'' v ?st) (hs @ [plain_nv ''content-type'' v])" for v
    using f by (rule fresh_header)
  show "\<exists>st'. submit_string_response t st c = Inr (st', call_nghttp2 (response_call (st_id st) s (hs @ [cl]) True) c) \<and>
      st_data st' = Some (Is_string (new_string_stream t))"
    using submit_response_call [OF fresh_length [OF f, of ?n], of True c]
    by (auto simp: submit_string_response_def s_def cl_def)
  show "\<exists>st'. submit_html_response t st c = Inr (st', call_nghttp2 (response_call (st_id st) s
        (hs @ [plain_nv ''content-type'' ''text/html; charset=utf-8'', cl]) True) c) \<and>
      st_data st' = Some (Is_string (new_string_stream t))"
    using submit_response_call [OF fresh_length [OF g, of ?n]]
    by (fastforce simp: submit_html_response_def s_def cl_def)
  show "\<exists>st'. submit_json_response t st c = Inr (st', call_nghttp2 (response_call (st_id st) s
        (hs @ [plain_nv ''content-type'' ''application/json'', cl]) True) c) \<and>
      st_data st' = Some (Is_string (new_string_stream t))"
    using submit_response_call [OF fresh_length [OF g, of ?n]]
    by (fastforce simp: submit_json_response_def s_def cl_def)
qed

section \<open>Handlers\<close>

lemma set_headers_fresh:
  "fresh st hs \<Longrightarrow> \<exists>st'. response_steps env (map (\<lambda>(n, v). Set_header n v) nvs) (st, c, w) = Inr (st', c, w) \<and>
     fresh st' (hs @ map (\<lambda>(n, v). make_nv n v (False, True)) nvs) \<and>
     st_id st' = st_id st \<and> status (st_response st') = status (st_response st)"
proof (induction nvs arbitrary: st hs)
  case (Cons nv nvs)
  obtain n v where nv: "nv = (n, v)" by (cases nv)
  let ?st = "st\<lparr>st_response := set_header n v (st_response st)\<rparr>"
  have "fresh ?st (hs @ [make_nv n v (False, True)])" using Cons.prems by (rule fresh_set_header)
  from Cons.IH [OF this] show ?case
    by (auto simp: nv response_step_def stream_only_def set_header_def)
qed simp

lemma response_steps_append:
  "response_steps env (xs @ ys) x = bindE (response_steps env xs x) (response_steps env ys)"
proof (induction xs arbitrary: x)
  case (Cons a xs)
  then show ?case by (cases "response_step env a x") simp_all
qed simp

lemma handler_answers:
  assumes "fresh st []" and "status (st_response st) = None"
  shows "\<exists>st'. response_steps env (map (\<lambda>(n, v). Set_header n v) nvs @ [Send content]) (st, c, w) =
      Inr (st', call_nghttp2 (response_call (st_id st) ''200''
        (map (\<lambda>(n, v). make_nv n v (False, True)) nvs @
         [plain_nv ''content-length'' (decimal (int (length content)))]) True) c, w) \<and>
    st_data st' = Some (Is_string (new_string_stream content))"
proof -
  obtain st1 where st1: "response_steps env (map (\<lambda>(n, v). Set_header n v) nvs) (st, c, w) = Inr (st1, c, w)"
    "fresh st1 (map (\<lambda>(n, v). make_nv n v (False, True)) nvs)" "st_id st1 = st_id st" "status (st_response st1) = None"
    using set_headers_fresh [OF assms(1), of env nvs c w] assms(2) by auto
  obtain st2 where "submit_string_response content st1 c = Inr (st2, call_nghttp2 (response_call (st_id st) ''200''
      (map (\<lambda>(n, v). make_nv n v (False, True)) nvs @ [plain_nv ''content-length'' (decimal (int (length content)))]) True) c)"
    "st_data st2 = Some (Is_string (new_string_stream content))"
    using submit_text_responses(1) [OF st1(2), of content c] st1(3,4) by auto
  then show ?thesis using st1(1) by (auto simp: response_steps_append response_step_def stream_only_def)
qed

text \<open>
  A handler that sets headers and sends a text gives nghttp2 exactly one response: its status
  (200 when it set none), its headers in order, however many, and the length of the body in
  decimal; and the body nghttp2 will read is the text.
\<close>

theorem handler_response:
  "\<exists>st. response_steps env (map (\<lambda>(n, v). Set_header n v) nvs @ [Send content]) (new_stream i k, c, w) =
      Inr (st, call_nghttp2 (response_call i ''200''
        (map (\<lambda>(n, v). make_nv n v (False, True)) nvs @
         [plain_nv ''content-length'' (decimal (int (length content)))]) True) c, w) \<and>
    st_data st = Some (Is_string (new_string_stream content))"
  using handler_answers [OF fresh_new [of i k], of env nvs content c w] by (simp add: new_stream_def new_response_headers_def)

text \<open>What the client sees first, and that the stream starts with nothing to send and stays open.\<close>

lemma event_source_opens:
  assumes "fresh st hs" and "status (st_response st) = None"
  shows "\<exists>st'. create_event_source st c = Inr (st', call_nghttp2 (response_call (st_id st) ''200''
      (hs @ [plain_nv ''cache-control'' ''no-store'', plain_nv ''content-type'' ''text/event-stream'']) True) c) \<and>
    st_data st' = Some (Is_event new_event_stream) \<and> st_id st' = st_id st \<and>
    fst (ds_remaining (Is_event new_event_stream)) = (0, False)"
proof -
  let ?st = "response_header ''content-type'' ''text/event-stream'' (response_header ''cache-control'' ''no-store'' st)"
  let ?st' = "stop_read_timeout (?st\<lparr>st_data := Some (Is_event new_event_stream)\<rparr>)"
  have "fresh ?st' (hs @ [plain_nv ''cache-control'' ''no-store'', plain_nv ''content-type'' ''text/event-stream''])"
    using fresh_header [OF fresh_header [OF assms(1)]] by (simp add: fresh_def stop_read_timeout_def)
  from submit_response_call [OF this, of True c] show ?thesis
    using assms(2) by (auto simp: create_event_source_def stop_read_timeout_def new_event_stream_def
        es_remaining_def es_length_def)
qed

text \<open>
  A request no route takes is answered exactly once: with the file its path names when it is
  a GET, else with status 400 and the text for it.
\<close>

theorem unrouted_answered:
  assumes "dispatch_route (hmethod (st_headers st)) (st_path st) router = Inr NotFound"
    and "hmethod (st_headers st) \<noteq> GET" and "fresh st hs"
  shows "\<exists>st'. prepare_response env router (st, c, w) = Inr (st',
      call_nghttp2 (response_call (st_id st) ''400'' (hs @ [plain_nv ''content-type'' ''application/json'',
        plain_nv ''content-length'' (decimal (int (length bad_request_text)))]) True) c, w) \<and>
    st_data st' = Some (Is_string (new_string_stream bad_request_text))"
  using assms submit_text_responses(3) [of "set_response_status ''400'' st" hs bad_request_text c]
  by (auto simp: prepare_response_def)

theorem unrouted_answered_witness:
  "\<forall>env c w. \<exists>st'. prepare_response env sample_router
      ((new_stream 1 0)\<lparr>st_headers := no_headers\<lparr>hmethod := PUT\<rparr>, st_path := ''/x''\<rparr>, c, w) = Inr (st',
      call_nghttp2 (response_call 1 ''400'' [plain_nv ''content-type'' ''application/json'',
        plain_nv ''content-length'' (decimal 44)] True) c, w)"
proof -
  let ?st = "(new_stream 1 0)\<lparr>st_headers := no_headers\<lparr>hmethod := PUT\<rparr>, st_path := ''/x''\<rparr>"
  have "dispatch_route PUT ''/x'' sample_router = Inr NotFound"
    by (simp add: sample_router_def sample_routes_def add_route_def new_router_def new_root_def
        insert_path.simps find_child_def data_eq_def set_slot_def dispatch_route_def match_node.simps
        has_method bit_or_iff bit_method_bit path_eval)
  moreover have "fresh ?st []" using fresh_new by (simp add: fresh_def)
  ultimately show ?thesis
    using unrouted_answered [of ?st sample_router "[]"]
    by (simp add: new_stream_def bad_request_text_def) blast
qed

section \<open>Files\<close>

text \<open>
  A file's modification date, sent once, makes the next request conditional: the request that
  carries the date back is answered with 304, the date and no body, for an unchanged file. This
  rests on \<open>gmtime_r\<close> and \<open>strptime\<close> agreeing about dates (as in \<open>http_date_roundtrip\<close>).
\<close>

theorem conditional_get:
  assumes "ims (st_headers st) = Some (Rcbuf k d)" and "http_date (env_gmtime env) (fi_mtime (fst (file_info e))) = Inr d"
    and "env_gmtime env (fi_mtime (fst (file_info e))) = Some tm" and "tm_valid tm"
    and "epoch_seconds tm = fi_mtime (fst (file_info e))"
    and "env_strptime env d = Some tm"
    and "fresh st hs"
  shows "\<exists>st'. submit_file env e st c = Inr (st',
      call_nghttp2 (response_call (st_id st) ''304'' (hs @ [plain_nv ''date'' (env_date env)]) False) c)"
proof -
  have parse: "parse_http_date (env_strptime env) d = Inr (fi_mtime (fst (file_info e)))"
    using parse_http_date_epoch [of "env_strptime env" d tm] assms(4,6) assms(5) by simp
  let ?st = "st\<lparr>st_data := Some (Is_file (new_file_stream (nat (fi_length (fst (file_info e))))))\<rparr>"
  let ?st304 = "set_response_status ''304'' (response_header ''date'' (env_date env) ?st)"
  have "fresh ?st304 (hs @ [plain_nv ''date'' (env_date env)])"
    using fresh_header [of ?st hs "''date''" "env_date env"] assms(7) by simp
  from submit_response_call [OF this, of False c] show ?thesis
    using assms(1) parse by (auto simp: submit_file_def Let_def)
qed

text \<open>
  C29. A file that is found and not known to the client is sent with 200, its MIME type, its
  length, its encoding if compressed, and its modification date last; the body is the file's
  bytes, as many as announced.
\<close>

theorem file_response:
  assumes "ims (st_headers st) = None" and "http_date (env_gmtime env) (fi_mtime (fst (file_info e))) = Inr d"
    and "fresh st hs" and "status (st_response st) = None"
  shows "\<exists>st'. submit_file env e st c = Inr (st', call_nghttp2 (response_call (st_id st) ''200''
      (hs @ [plain_nv ''content-type'' (fe_mime_type e),
             plain_nv ''content-length'' (decimal (fi_length (fst (file_info e))))] @
       (if fe_compressed e then [plain_nv ''content-encoding'' (fe_encoding e)] else []) @
       [plain_nv ''cache-control'' ''max-age=0'', plain_nv ''date'' (env_date env), plain_nv ''last-modified'' d]) True) c) \<and>
    st_data st' = Some (Is_file (new_file_stream (nat (fi_length (fst (file_info e))))))"
proof -
  let ?i = "fst (file_info e)"
  let ?st = "st\<lparr>st_data := Some (Is_file (new_file_stream (nat (fi_length ?i))))\<rparr>"
  let ?st2 = "length_header (fi_length ?i) (response_header ''content-type'' (fe_mime_type e) ?st)"
  let ?hs2 = "hs @ [plain_nv ''content-type'' (fe_mime_type e)] @ [plain_nv ''content-length'' (decimal (fi_length ?i))]"
  let ?st3 = "if fe_compressed e then response_header ''content-encoding'' (fe_encoding e) ?st2 else ?st2"
  let ?hs3 = "?hs2 @ (if fe_compressed e then [plain_nv ''content-encoding'' (fe_encoding e)] else [])"
  let ?st4 = "response_header ''date'' (env_date env) (response_header ''cache-control'' ''max-age=0'' ?st3)"
  let ?st5 = "response_header ''last-modified'' d (mem_alloc 29 ?st4)"
  have "fresh ?st2 ?hs2"
    using fresh_length [OF fresh_header [of ?st hs "''content-type''" "fe_mime_type e"]] assms(3) by simp
  then have "fresh ?st3 ?hs3" by (auto dest: fresh_header)
  from fresh_header [OF fresh_header [OF this]]
  have "fresh ?st4 ((?hs3 @ [plain_nv ''cache-control'' ''max-age=0'']) @ [plain_nv ''date'' (env_date env)])" .
  then have "fresh ?st5 (((?hs3 @ [plain_nv ''cache-control'' ''max-age=0'']) @ [plain_nv ''date'' (env_date env)]) @
      [plain_nv ''last-modified'' d])"
    by (intro fresh_header) simp
  from submit_response_call [OF this, of True c] show ?thesis
    using assms by (auto simp: submit_file_def file_headers_def Let_def)
qed

definition sample_env :: Env where
  "sample_env = \<lparr>env_fs = (\<lambda>_. None), env_dict = (\<lambda>_. None), env_strptime = (\<lambda>_. Some sample_tm),
     env_gmtime = (\<lambda>_. Some sample_tm), env_date = ''Thu, 02 Mar 1972 00:00:00 GMT'', env_handler = (\<lambda>_ _. [])\<rparr>"

definition sample_file :: FileEntry where
  "sample_file = (sample_entry ''r/a'' False)
     \<lparr>fe_info := \<lparr>fi_mtime = epoch_seconds sample_tm, fi_length = 7\<rparr>, fe_mime_type := ''text/css''\<rparr>"

definition sample_conn :: Conn where
  "sample_conn = \<lparr>ng_calls = [], wev = False\<rparr>"

lemma sample_info: "fst (file_info sample_file) = \<lparr>fi_mtime = epoch_seconds sample_tm, fi_length = 7\<rparr>"
  by (simp add: file_info_def sample_file_def sample_entry_def)

lemma sample_date: "\<exists>d. http_date (\<lambda>_. Some sample_tm) t = Inr d"
  by (simp add: http_date_def sample_tm_def entry_def DAY_OF_WEEK_def MONTH_def)

theorem conditional_get_witness:
  "\<exists>d st'. http_date (\<lambda>_. Some sample_tm) (epoch_seconds sample_tm) = Inr d \<and>
     submit_file sample_env sample_file ((new_stream 5 0)\<lparr>st_headers := no_headers\<lparr>ims := Some (Rcbuf 1 d)\<rparr>\<rparr>) sample_conn =
       Inr (st', call_nghttp2 (response_call 5 ''304'' [plain_nv ''date'' ''Thu, 02 Mar 1972 00:00:00 GMT''] False) sample_conn)"
proof -
  obtain d where d: "http_date (\<lambda>_. Some sample_tm) (epoch_seconds sample_tm) = Inr d"
    using sample_date by blast
  let ?st = "(new_stream 5 0)\<lparr>st_headers := no_headers\<lparr>ims := Some (Rcbuf 1 d)\<rparr>\<rparr>"
  have "fresh ?st []" using fresh_new by (simp add: fresh_def)
  moreover have "env_gmtime sample_env = (\<lambda>_. Some sample_tm)" "env_strptime sample_env = (\<lambda>_. Some sample_tm)"
    by (simp_all add: sample_env_def)
  moreover have "ims (st_headers ?st) = Some (Rcbuf 1 d)" by simp
  ultimately have "\<exists>st'. submit_file sample_env sample_file ?st sample_conn = Inr (st', call_nghttp2
      (response_call (st_id ?st) ''304'' ([] @ [plain_nv ''date'' (env_date sample_env)]) False) sample_conn)"
    using d sample_valid sample_info
    by (intro conditional_get [where k = 1 and d = d and tm = sample_tm]) simp_all
  moreover have "st_id ?st = 5" by (simp add: new_stream_def)
  moreover have "env_date sample_env = ''Thu, 02 Mar 1972 00:00:00 GMT''" by (simp add: sample_env_def)
  ultimately show ?thesis using d by auto
qed

theorem file_response_witness:
  "\<exists>d st'. submit_file sample_env sample_file (new_stream 5 0) sample_conn =
     Inr (st', call_nghttp2 (response_call 5 ''200'' [plain_nv ''content-type'' ''text/css'',
       plain_nv ''content-length'' (decimal 7), plain_nv ''cache-control'' ''max-age=0'',
       plain_nv ''date'' ''Thu, 02 Mar 1972 00:00:00 GMT'', plain_nv ''last-modified'' d] True) sample_conn)"
proof -
  obtain d where d: "http_date (\<lambda>_. Some sample_tm) (epoch_seconds sample_tm) = Inr d"
    using sample_date by blast
  have "ims (st_headers (new_stream 5 0)) = None" "status (st_response (new_stream 5 0)) = None"
    "\<not> fe_compressed sample_file" "fe_mime_type sample_file = ''text/css''"
    by (simp_all add: new_stream_def no_headers_def new_response_headers_def sample_file_def sample_entry_def)
  moreover have "env_gmtime sample_env = (\<lambda>_. Some sample_tm)" "st_id (new_stream 5 0) = 5"
    "env_date sample_env = ''Thu, 02 Mar 1972 00:00:00 GMT''"
    by (simp_all add: sample_env_def new_stream_def)
  ultimately show ?thesis
    using file_response [of "new_stream 5 0" sample_env sample_file d "[]" sample_conn] fresh_new [of 5 0] d sample_info
    by (auto simp del: fresh_other kept_fields)
qed

end
