(* ===== verification/Tls_Check.thy ===== *)
theory Tls_Check
  imports Prelude
begin

text \<open>
  What the server asks of a TLS connection before it speaks HTTP/2 on it (\<open>util.h\<close>,
  \<open>util.cc\<close>): the protocol chosen, the version, and that the cipher is not one of those RFC 7540
  forbids. The two tables of \<open>IS_CIPHER_BANNED_METHOD2\<close> are kept as the source has them, one byte
  for eight ciphers.
\<close>

section \<open>The check\<close>

definition check_h2_is_selected :: "string \<Rightarrow> bool" where
  "check_h2_is_selected proto \<longleftrightarrow> proto = ''h2'' \<or> proto = ''h2-14'' \<or> proto = ''h2-16''"

definition banned_low :: "nat list" where
  "banned_low =
     [0xFF, 0xFF, 0xFF, 0xCF, 0xFF, 0xFF, 0xFF, 0xFF, 0x7F, 0x00, 0x00, 0x00, 0x80, 0x3F, 0x00, 0x00,
      0xF0, 0xFF, 0xFF, 0x3F, 0xF3, 0xF3, 0xFF, 0xFF, 0x3F, 0x00, 0x00, 0x00, 0x00, 0x00, 0x00, 0x80]"

definition banned_high :: "nat list" where
  "banned_high =
     [0xFE, 0xFF, 0xFF, 0xFF, 0xFF, 0x67, 0xFE, 0xFF, 0xFF, 0xFF, 0x33, 0xCF, 0xFC, 0xCF, 0xFF, 0xCF,
      0x3C, 0xF3, 0xFC, 0x3F, 0x33, 0x03, 0x00, 0x00, 0x00, 0x00, 0x00, 0x00, 0x00, 0x00, 0x00, 0x00]"

definition in_table :: "nat list \<Rightarrow> int \<Rightarrow> bool" where
  "in_table t c = odd (t ! nat (c mod 256 div 8) div 2 ^ nat (c mod 8))"

definition is_cipher_banned :: "int \<Rightarrow> bool" where
  "is_cipher_banned c \<longleftrightarrow>
     (0x0000 \<le> c \<and> c \<le> 0x00FF \<and> in_table banned_low c) \<or> (0xC000 \<le> c \<and> c \<le> 0xC0FF \<and> in_table banned_high c)"

abbreviation (input) TLS1_2_VERSION :: int where
  "TLS1_2_VERSION \<equiv> 0x0303"

text \<open>The version and the cipher's identifier are what \<open>SSL_version\<close> and \<open>SSL_CIPHER_get_id\<close> answer.\<close>

definition check_http2_requirements :: "int \<Rightarrow> int \<Rightarrow> bool" where
  "check_http2_requirements version c \<longleftrightarrow> TLS1_2_VERSION \<le> version \<and> \<not> is_cipher_banned c"

section \<open>What it lets through\<close>

text \<open>
  The cipher test never fires. The table forbids what the RFC forbids when it is asked by a
  suite's two-byte number (the CBC suites, say), but OpenSSL's identifiers carry \<open>0x03000000\<close> on top
  of that number, so every one is outside both ranges and any version from TLS 1.2 on passes.
\<close>

theorem cipher_test_never_fires:
  "is_cipher_banned 0x002F \<and> is_cipher_banned 0xC013 \<and> \<not> is_cipher_banned 0xC02F \<and>
   \<not> is_cipher_banned (0x03000000 + int n) \<and>
   (check_http2_requirements version (0x03000000 + int n) \<longleftrightarrow> TLS1_2_VERSION \<le> version)"
  by (auto simp: is_cipher_banned_def in_table_def banned_low_def banned_high_def check_http2_requirements_def)

end
