(* ===== verification/Http_Session.thy ===== *)
theory Http_Session
  imports Stream_Facts Tls_Check
begin

text \<open>
  One HTTP/2 connection (\<open>httpsession.cc\<close>): the callbacks nghttp2 makes on it, and the loops
  that move bytes between nghttp2, the write buffer and TLS.

  nghttp2, OpenSSL and the kernel are the environment. What they do is a script: during
  \<open>nghttp2_session_mem_send\<close> a list of \<open>ng_action\<close>s (callbacks made, bytes returned), during
  \<open>nghttp2_session_mem_recv\<close> a list of \<open>recv_event\<close>s, and for \<open>SSL_write\<close> and \<open>SSL_read\<close>
  lists of answers. Every function consumes its script and is \<open>Unfinished\<close> when it runs out
  while the code would still be running; the properties hold for all scripts.
\<close>

section \<open>Frames and the session\<close>

datatype frame_type = DATA | HEADERS | SETTINGS | PUSH_PROMISE | Other_frame

text \<open>
  \<open>f_cat\<close> is whether \<open>frame->headers.cat\<close> reads as \<open>NGHTTP2_HCAT_REQUEST\<close>. A frame is a
  union: for one that is not a HEADERS frame the member is some bytes of another one.
\<close>

record Frame =
  f_type :: frame_type
  f_stream :: int
  f_end_stream :: bool
  f_ack :: bool
  f_cat :: bool
  f_promised :: int

text \<open>
  The session, with what the worker keeps of its streams and files. \<open>out\<close>, \<open>sent\<close> and \<open>created\<close>
  are history: every byte nghttp2 or a callback has put on the connection, every byte TLS took, and
  the number of streams that were opened.
\<close>

record HttpSession =
  wbuf :: Buffer
  data_pending :: "byte list option"
  conn :: Conn
  streams :: "int \<rightharpoonup> Stream"
  store :: FileStore
  next_serial :: "64 word"
  created :: nat
  alive :: "64 word set"
  settings_timer :: bool
  running :: bool
  has_session :: bool
  out :: "byte list"
  sent :: "byte list"

abbreviation (input) WBUF_SIZE :: nat where
  "WBUF_SIZE \<equiv> 65536"

definition new_session :: "byte list \<Rightarrow> FileStore \<Rightarrow> 64 word \<Rightarrow> 64 word set \<Rightarrow> HttpSession" where
  "new_session garbage w serial al =
     \<lparr>wbuf = new_buffer garbage, data_pending = None, conn = \<lparr>ng_calls = [], wev = False\<rparr>,
      streams = Map.empty, store = w, next_serial = serial, created = 0, alive = al, settings_timer = False,
      running = False, has_session = False, out = [], sent = []\<rparr>"

abbreviation (input) ERR_WOULDBLOCK :: int where
  "ERR_WOULDBLOCK \<equiv> (-504)"
abbreviation (input) ERR_DEFERRED :: int where
  "ERR_DEFERRED \<equiv> (-508)"

definition put_stream :: "Stream \<Rightarrow> HttpSession \<Rightarrow> HttpSession" where
  "put_stream st s = s\<lparr>streams := (streams s)(st_id st \<mapsto> st)\<rparr>"

text \<open>\<open>Worker::add_stream\<close> and \<open>remove_stream\<close>, called by the constructor and destructor of a stream.\<close>

definition create_stream :: "int \<Rightarrow> HttpSession \<Rightarrow> Stream \<times> HttpSession" where
  "create_stream i s =
     (new_stream i (next_serial s),
      s\<lparr>next_serial := next_serial s + 1, created := created s + 1, alive := insert (next_serial s) (alive s)\<rparr>)"

definition remove_stream :: "int \<Rightarrow> HttpSession \<Rightarrow> HttpSession" where
  "remove_stream i s =
     (case streams s i of
        None \<Rightarrow> s
      | Some st \<Rightarrow> s\<lparr>streams := (streams s)(i := None), alive := alive s - {st_serial st}\<rparr>)"

section \<open>Callbacks while receiving\<close>

definition on_begin_headers_cb :: "Frame \<Rightarrow> HttpSession \<Rightarrow> int \<times> HttpSession" where
  "on_begin_headers_cb f s =
     (if f_type f \<noteq> HEADERS \<or> \<not> f_cat f then (0, s)
      else
        (case streams s (f_stream f) of
           Some _ \<Rightarrow> (ERR_TEMPORAL_CALLBACK_FAILURE, s)
         | None \<Rightarrow> (let (st, s) = create_stream (f_stream f) s in (0, put_stream (reset_read_timeout st) s))))"

abbreviation (input) MAX_HEADERS :: nat where
  "MAX_HEADERS \<equiv> 64 * 1024"

definition on_header_cb :: "Frame \<Rightarrow> rcbuf \<Rightarrow> rcbuf \<Rightarrow> HttpSession \<Rightarrow> int \<times> HttpSession" where
  "on_header_cb f name v s =
     (if f_type f \<noteq> HEADERS \<or> \<not> f_cat f then (0, s)
      else
        (case streams s (f_stream f) of
           None \<Rightarrow> (0, s)
         | Some st \<Rightarrow>
             let h = st_headers st; n = length (rbytes name) + length (rbytes v) in
             if buffer_size h + length (rbytes name) + length (rbytes v) > MAX_HEADERS then
               (let (st, c) = submit_rst NGHTTP2_INTERNAL_ERROR st (conn s)
                in (0, put_stream st (s\<lparr>conn := c\<rparr>)))
             else
               (let (h, _, _) = add_header name v (h\<lparr>buffer_size := buffer_size h + n\<rparr>)
                in (0, put_stream (st\<lparr>st_headers := h\<rparr>) s))))"

text \<open>Runs a function of the stream, the connection and the files in the session.\<close>

definition in_session ::
  "(Stream \<times> Conn \<times> FileStore \<Rightarrow> (Stream \<times> Conn \<times> FileStore) res) \<Rightarrow> Stream \<Rightarrow> HttpSession \<Rightarrow>
     (Stream \<times> HttpSession) res" where
  "in_session g st s =
     bindE (g (st, conn s, store s)) (\<lambda>(st, c, w). Inr (st, s\<lparr>conn := c, store := w\<rparr>))"

text \<open>\<open>if (!stream->prepared_response_) { parse_path; prepare_response; \<dots> }\<close>\<close>

definition prepare_once :: "Env \<Rightarrow> HttpRouter \<Rightarrow> Stream \<Rightarrow> HttpSession \<Rightarrow> (Stream \<times> HttpSession) res" where
  "prepare_once env router st s =
     (if st_prepared st then Inr (st, s)
      else
        bindE (in_session (prepare_response env router) (parse_path st) s)
          (\<lambda>(st, s). Inr (st\<lparr>st_prepared := True\<rparr>, s)))"

text \<open>The case of HEADERS, into which the case of DATA falls through.\<close>

definition recv_headers_case :: "Env \<Rightarrow> HttpRouter \<Rightarrow> Frame \<Rightarrow> HttpSession \<Rightarrow> (int \<times> HttpSession) res" where
  "recv_headers_case env router f s =
     (case streams s (f_stream f) of
        None \<Rightarrow> Inr (0, s)
      | Some st \<Rightarrow>
          let c = (case expect (st_headers st) of
                     Some v \<Rightarrow>
                       (if f_cat f \<and> streq_l ''100-continue'' (rbytes v)
                        then submit_non_final_response ''100'' st (conn s) else conn s)
                   | None \<Rightarrow> conn s);
              s = s\<lparr>conn := c\<rparr> in
          if f_end_stream f then
            bindE (prepare_once env router st s) (\<lambda>(st, s). Inr (0, put_stream (stop_read_timeout st) s))
          else Inr (0, put_stream (reset_read_timeout st) s))"

definition recv_data_case :: "Env \<Rightarrow> HttpRouter \<Rightarrow> Frame \<Rightarrow> HttpSession \<Rightarrow> HttpSession option res" where
  "recv_data_case env router f s =
     (case streams s (f_stream f) of
        None \<Rightarrow> Inr None
      | Some st \<Rightarrow>
          bindE (prepare_once env router st s) (\<lambda>(st, s).
            if f_end_stream f then
              bindE (on_request handle_body (stop_read_timeout st)) (\<lambda>st. Inr (Some (put_stream st s)))
            else Inr (Some (put_stream (reset_read_timeout st) s))))"

definition on_frame_recv_cb :: "Env \<Rightarrow> HttpRouter \<Rightarrow> Frame \<Rightarrow> HttpSession \<Rightarrow> (int \<times> HttpSession) res" where
  "on_frame_recv_cb env router f s =
     (case f_type f of
        DATA \<Rightarrow>
          bindE (recv_data_case env router f s)
            (\<lambda>r. case r of None \<Rightarrow> Inr (0, s) | Some s \<Rightarrow> recv_headers_case env router f s)
      | HEADERS \<Rightarrow> recv_headers_case env router f s
      | SETTINGS \<Rightarrow> Inr (0, if f_ack f then s\<lparr>settings_timer := False\<rparr> else s)
      | _ \<Rightarrow> Inr (0, s))"

definition on_data_chunk_recv_cb :: "int \<Rightarrow> byte list \<Rightarrow> HttpSession \<Rightarrow> (int \<times> HttpSession) res" where
  "on_data_chunk_recv_cb i bs s =
     (case streams s i of
        None \<Rightarrow> Inr (0, s)
      | Some st \<Rightarrow>
          bindE (on_request (handle_data bs False) st) (\<lambda>st. Inr (0, put_stream (reset_read_timeout st) s)))"

definition on_stream_close_cb :: "int \<Rightarrow> HttpSession \<Rightarrow> int \<times> HttpSession" where
  "on_stream_close_cb i s = (0, remove_stream i s)"

section \<open>Callbacks while sending\<close>

text \<open>The window is the smaller of the stream's and the connection's.\<close>

definition on_frame_send_cb :: "Env \<Rightarrow> HttpRouter \<Rightarrow> Frame \<Rightarrow> int \<Rightarrow> HttpSession \<Rightarrow> (int \<times> HttpSession) res" where
  "on_frame_send_cb env router f window s =
     (if f_type f = DATA \<or> f_type f = HEADERS then
        (case streams s (f_stream f) of
           None \<Rightarrow> Inr (0, s)
         | Some st \<Rightarrow>
             Inr (0, put_stream
               (if f_end_stream f then stop_write_timeout st
                else if window \<le> 0 then reset_write_timeout (reset_read_timeout_if_active st)
                else stop_write_timeout (reset_read_timeout_if_active st)) s))
      else if f_type f = SETTINGS then Inr (0, if f_ack f then s else s\<lparr>settings_timer := True\<rparr>)
      else if f_type f = PUSH_PROMISE then
        (case (streams s (f_stream f), streams s (f_promised f)) of
           (Some st, Some _) \<Rightarrow>
             bindE (in_session (prepare_response env router)
                     (reset_write_timeout (reset_read_timeout_if_active st)) s)
               (\<lambda>(st, s). Inr (0, put_stream st s))
         | _ \<Rightarrow> Inr (0, s))
      else Inr (0, s))"

text \<open>
  \<open>data_read_cb\<close>: the number of bytes to send, the end-of-file flag, or \<open>ERR_DEFERRED\<close>. The
  source is the stream's data stream; without the stream it is gone.
\<close>

definition data_read_cb :: "int \<Rightarrow> nat \<Rightarrow> bool \<Rightarrow> HttpSession \<Rightarrow> ((int \<times> bool) \<times> HttpSession) res" where
  "data_read_cb i len remote_close s =
     (case streams s i of
        None \<Rightarrow> Inl Undefined
      | Some st \<Rightarrow>
          (case st_data st of
             None \<Rightarrow> Inl Undefined
           | Some ds \<Rightarrow>
               let ((left, should_close), ds) = ds_remaining ds;
                   st = st\<lparr>st_data := Some ds\<rparr>;
                   nread = min left len;
                   eof = (should_close \<and> (nread = 0 \<or> left = nread)) in
               if left \<le> 0 \<and> \<not> should_close then Inr ((ERR_DEFERRED, False), put_stream st s)
               else if eof \<and> \<not> remote_close then
                 (let (st, c) = submit_rst NGHTTP2_NO_ERROR (stop_write_timeout (stop_read_timeout st)) (conn s)
                  in Inr ((int nread, True), put_stream st (s\<lparr>conn := c\<rparr>)))
               else Inr ((int nread, eof), put_stream st s)))"

text \<open>
  \<open>send_data_cb\<close>: the frame's head, the padding's length, the payload straight from the data
  stream, the padding. A file stream that fails to read stops the stream's timers.
\<close>

definition send_data_cb ::
  "(nat \<Rightarrow> nat \<Rightarrow> pread_result list) \<Rightarrow> int \<Rightarrow> byte list \<Rightarrow> nat \<Rightarrow> nat \<Rightarrow> HttpSession \<Rightarrow> (int \<times> HttpSession) res"
where
  "send_data_cb scripts i framehd len padlen s =
     (case streams s i of
        None \<Rightarrow> Inl Undefined
      | Some st \<Rightarrow>
          (case st_data st of
             None \<Rightarrow> Inl Undefined
           | Some ds \<Rightarrow>
               if wleft (wbuf s) < 9 + len + padlen then Inr (ERR_WOULDBLOCK, s)
               else
                 bindE (write_full (take 9 framehd) (wbuf s)) (\<lambda>wb.
                 bindE (if padlen \<noteq> 0 then write_byte (char_of (padlen - 1)) wb else Inr wb) (\<lambda>wb.
                 bindE (ds_send scripts len ds wb) (\<lambda>(rv, ds, wb).
                   let st = st\<lparr>st_data := Some ds\<rparr> in
                   if rv \<noteq> 0 then
                     Inr (rv, put_stream (stop_write_timeout (stop_read_timeout st)) (s\<lparr>wbuf := wb\<rparr>))
                   else
                     bindE (if padlen \<noteq> 0 then fill (CHR 0x00) (padlen - 1) wb else Inr wb) (\<lambda>wb.
                       Inr (0, put_stream st (s\<lparr>wbuf := wb\<rparr>))))))))"

definition select_padding_cb :: "nat \<Rightarrow> nat \<Rightarrow> nat" where
  "select_padding_cb hd_length max_payload = min max_payload (hd_length + 0)"

text \<open>What a callback appended to the buffer goes into the history.\<close>

definition note_output :: "HttpSession \<Rightarrow> HttpSession \<Rightarrow> HttpSession" where
  "note_output s s' = s'\<lparr>out := out s @ drop (length (pending (wbuf s))) (pending (wbuf s'))\<rparr>"

section \<open>Filling the write buffer\<close>

datatype ng_action =
    Ng_bytes "byte list"
  | Ng_nothing
  | Ng_error
  | Ng_read int nat bool
  | Ng_send int "byte list" nat nat "nat \<Rightarrow> nat \<Rightarrow> pread_result list"
  | Ng_frame_sent Frame int
  | Ng_close int

text \<open>
  The pending bytes first: what fits goes to the buffer. \<open>False\<close> when some are left, and
  \<open>fill_wb\<close> returns.
\<close>

definition flush_pending :: "HttpSession \<Rightarrow> bool \<times> HttpSession" where
  "flush_pending s =
     (case data_pending s of
        None \<Rightarrow> (True, s)
      | Some bs \<Rightarrow>
          let (n, wb) = buf_write bs (wbuf s) in
          if n < length bs then (False, s\<lparr>wbuf := wb, data_pending := Some (drop n bs)\<rparr>)
          else (True, s\<lparr>wbuf := wb, data_pending := None\<rparr>))"

text \<open>One callback of \<open>mem_send\<close>, or bytes it returns; \<open>mem_send\<close> returning is \<open>fill_wb\<close>'s business.\<close>

definition mem_send_callback :: "Env \<Rightarrow> HttpRouter \<Rightarrow> ng_action \<Rightarrow> HttpSession \<Rightarrow> HttpSession res" where
  "mem_send_callback env router a s =
     (case a of
        Ng_read i len rc \<Rightarrow> bindE (data_read_cb i len rc s) (\<lambda>(_, s). Inr s)
      | Ng_send i fh len pad scripts \<Rightarrow>
          bindE (send_data_cb scripts i fh len pad s) (\<lambda>(_, s'). Inr (note_output s s'))
      | Ng_frame_sent f window \<Rightarrow> bindE (on_frame_send_cb env router f window s) (\<lambda>(_, s). Inr s)
      | Ng_close i \<Rightarrow> Inr (snd (on_stream_close_cb i s))
      | _ \<Rightarrow> Inr s)"

fun fill_loop ::
  "Env \<Rightarrow> HttpRouter \<Rightarrow> ng_action list \<Rightarrow> HttpSession \<Rightarrow> (int \<times> HttpSession \<times> ng_action list) res"
where
  "fill_loop env router [] s = Inl Unfinished"
| "fill_loop env router (a # as) s =
     (case a of
        Ng_error \<Rightarrow> Inr (-1, s, as)
      | Ng_nothing \<Rightarrow> Inr (0, s, as)
      | Ng_bytes bs \<Rightarrow>
          (case flush_pending (s\<lparr>data_pending := Some bs, out := out s @ bs\<rparr>) of
             (False, s) \<Rightarrow> Inr (0, s, as)
           | (True, s) \<Rightarrow> fill_loop env router as s)
      | _ \<Rightarrow> bindE (mem_send_callback env router a s) (fill_loop env router as))"

definition fill_wb ::
  "Env \<Rightarrow> HttpRouter \<Rightarrow> ng_action list \<Rightarrow> HttpSession \<Rightarrow> (int \<times> HttpSession \<times> ng_action list) res"
where
  "fill_wb env router ng s =
     (case flush_pending s of
        (False, s) \<Rightarrow> Inr (0, s, ng)
      | (True, s) \<Rightarrow> fill_loop env router ng s)"

section \<open>Writing\<close>

datatype ssl_write_answer = Wrote nat | Write_wants_read | Write_wants_write | Write_failed

text \<open>\<open>ssl_write\<close>: the result, and the session with the bytes TLS took noted and the watcher started.\<close>

definition ssl_write :: "ssl_write_answer \<Rightarrow> byte list \<Rightarrow> HttpSession \<Rightarrow> int \<times> HttpSession" where
  "ssl_write a bs s =
     (case a of
        Wrote n \<Rightarrow> (let k = max 1 (min n (length bs)) in (int k, s\<lparr>sent := sent s @ take k bs\<rparr>))
      | Write_wants_read \<Rightarrow> (-1, s)
      | Write_wants_write \<Rightarrow> (0, s\<lparr>conn := (conn s)\<lparr>wev := True\<rparr>\<rparr>)
      | Write_failed \<Rightarrow> (-1, s))"

text \<open>
  \<open>HttpSession::write\<close>, with the answers of \<open>SSL_write\<close> and the actions of nghttp2; the rest of
  both is returned. \<open>wants\<close>: nghttp2 still wants to read or write.
\<close>

function write_loop ::
  "Env \<Rightarrow> HttpRouter \<Rightarrow> bool \<Rightarrow> ssl_write_answer list \<Rightarrow> ng_action list \<Rightarrow> HttpSession \<Rightarrow>
     (int \<times> HttpSession \<times> ssl_write_answer list \<times> ng_action list) res"
where
  "write_loop env router wants ssl ng s =
     (if rleft (wbuf s) > 0 then
        (case ssl of
           [] \<Rightarrow> Inl Unfinished
         | a # ssl' \<Rightarrow>
             (let (rv, s) = ssl_write a (pending (wbuf s)) s in
              if rv \<le> 0 then Inr (rv, s, ssl', ng)
              else write_loop env router wants ssl' ng (s\<lparr>wbuf := snd (drain (nat rv) (wbuf s))\<rparr>)))
      else
        bindE (fill_wb env router ng (s\<lparr>wbuf := buf_reset (wbuf s)\<rparr>)) (\<lambda>(rv, s, ng).
          if rv \<noteq> 0 then Inr (-1, s, ssl, ng)
          else if rleft (wbuf s) = 0 then
            Inr (if \<not> wants then -1 else 0, s\<lparr>conn := (conn s)\<lparr>wev := False\<rparr>\<rparr>, ssl, ng)
          else write_loop env router wants ssl ng s))"
  by pat_completeness auto
termination
  by (relation "measures [\<lambda>(env, router, wants, ssl, ng, s). length ssl,
        \<lambda>(env, router, wants, ssl, ng, s). if rleft (wbuf s) = 0 then 1 else 0]") auto

declare write_loop.simps [simp del]

section \<open>The handshake and reading\<close>

record Handshake =
  hs_result :: "ssl_write_answer"
  hs_protocol :: "string option"
  hs_server_new :: int
  hs_settings :: int
  hs_version :: int
  hs_cipher :: int

definition verify_npn :: "string option \<Rightarrow> int" where
  "verify_npn proto = (case proto of None \<Rightarrow> -1 | Some p \<Rightarrow> if check_h2_is_selected p then 0 else -1)"

type_synonym write_result = "(int \<times> HttpSession \<times> ssl_write_answer list \<times> ng_action list) res"

definition connection_made ::
  "Env \<Rightarrow> HttpRouter \<Rightarrow> bool \<Rightarrow> Handshake \<Rightarrow> ssl_write_answer list \<Rightarrow> ng_action list \<Rightarrow> HttpSession \<Rightarrow> write_result"
where
  "connection_made env router wants h ssl ng s =
     (if hs_server_new h \<noteq> 0 then Inr (hs_server_new h, s, ssl, ng)
      else
        (let s = s\<lparr>has_session := True\<rparr> in
         if hs_settings h \<noteq> 0 then Inr (hs_settings h, s, ssl, ng)
         else
           (let s = s\<lparr>conn := (conn s)\<lparr>ng_calls := ng_calls (conn s) @ [Submit_settings]\<rparr>\<rparr> in
            if \<not> check_http2_requirements (hs_version h) (hs_cipher h) then
              Inr (-1, s\<lparr>conn := (conn s)\<lparr>ng_calls := ng_calls (conn s) @ [Terminate_session 12]\<rparr>\<rparr>, ssl, ng)
            else write_loop env router wants ssl ng s)))"

definition tls_handshake ::
  "Env \<Rightarrow> HttpRouter \<Rightarrow> bool \<Rightarrow> Handshake \<Rightarrow> ssl_write_answer list \<Rightarrow> ng_action list \<Rightarrow> HttpSession \<Rightarrow> write_result"
where
  "tls_handshake env router wants h ssl ng s =
     (let s = s\<lparr>conn := (conn s)\<lparr>wev := False\<rparr>\<rparr> in
      case hs_result h of
        Write_wants_read \<Rightarrow> Inr (0, s, ssl, ng)
      | Write_wants_write \<Rightarrow> Inr (0, s\<lparr>conn := (conn s)\<lparr>wev := True\<rparr>\<rparr>, ssl, ng)
      | Write_failed \<Rightarrow> Inr (-1, s, ssl, ng)
      | Wrote _ \<Rightarrow>
          if verify_npn (hs_protocol h) \<noteq> 0 then Inr (-1, s, ssl, ng)
          else
            bindE (connection_made env router wants h ssl ng (s\<lparr>running := True\<rparr>))
              (\<lambda>(rv, s, ssl, ng). Inr (if rv \<noteq> 0 then -1 else 0, s, ssl, ng)))"

definition on_write ::
  "Env \<Rightarrow> HttpRouter \<Rightarrow> bool \<Rightarrow> Handshake \<Rightarrow> ssl_write_answer list \<Rightarrow> ng_action list \<Rightarrow> HttpSession \<Rightarrow> write_result"
where
  "on_write env router wants h ssl ng s =
     (if running s then write_loop env router wants ssl ng s
      else tls_handshake env router wants h ssl ng s)"

datatype recv_event =
    Recv_begin Frame
  | Recv_header Frame rcbuf rcbuf
  | Recv_frame Frame
  | Recv_chunk int "byte list"
  | Recv_close int
  | Handler_call int response_op

definition recv_step :: "Env \<Rightarrow> HttpRouter \<Rightarrow> recv_event \<Rightarrow> HttpSession \<Rightarrow> HttpSession res" where
  "recv_step env router e s =
     (case e of
        Recv_begin f \<Rightarrow> Inr (snd (on_begin_headers_cb f s))
      | Recv_header f n v \<Rightarrow> Inr (snd (on_header_cb f n v s))
      | Recv_frame f \<Rightarrow> bindE (on_frame_recv_cb env router f s) (\<lambda>(_, s). Inr s)
      | Recv_chunk i bs \<Rightarrow> bindE (on_data_chunk_recv_cb i bs s) (\<lambda>(_, s). Inr s)
      | Recv_close i \<Rightarrow> Inr (snd (on_stream_close_cb i s))
      | Handler_call i op \<Rightarrow>
          (case streams s i of
             None \<Rightarrow> Inr s
           | Some st \<Rightarrow> bindE (in_session (response_step env op) st s) (\<lambda>(st, s). Inr (put_stream st s))))"

fun recv_steps :: "Env \<Rightarrow> HttpRouter \<Rightarrow> recv_event list \<Rightarrow> HttpSession \<Rightarrow> HttpSession res" where
  "recv_steps env router [] s = Inr s"
| "recv_steps env router (e # es) s = bindE (recv_step env router e s) (recv_steps env router es)"

text \<open>Answers of \<open>SSL_read\<close>: a chunk, as the events it causes in \<open>mem_recv\<close> and that call's result.\<close>

datatype ssl_read_answer = Read_chunk "recv_event list" int | Read_wants_read | Read_wants_write | Read_error

fun read_loop ::
  "Env \<Rightarrow> HttpRouter \<Rightarrow> bool \<Rightarrow> ssl_read_answer list \<Rightarrow> ssl_write_answer list \<Rightarrow> ng_action list \<Rightarrow> HttpSession \<Rightarrow>
     (int \<times> HttpSession) res"
where
  "read_loop env router wants [] ssl ng s = Inl Unfinished"
| "read_loop env router wants (a # as) ssl ng s =
     (case a of
        Read_wants_read \<Rightarrow> bindE (write_loop env router wants ssl ng s) (\<lambda>(rv, s, _). Inr (rv, s))
      | Read_wants_write \<Rightarrow> Inr (-1, s)
      | Read_error \<Rightarrow> Inr (-1, s)
      | Read_chunk es rv \<Rightarrow>
          bindE (recv_steps env router es s) (\<lambda>s.
            if rv < 0 then Inr (-1, s) else read_loop env router wants as ssl ng s))"

text \<open>\<open>on_read\<close>: \<open>read_func_\<close> is \<open>tls_handshake\<close> until the handshake is done.\<close>

definition on_read ::
  "Env \<Rightarrow> HttpRouter \<Rightarrow> bool \<Rightarrow> Handshake \<Rightarrow> ssl_read_answer list \<Rightarrow> ssl_write_answer list \<Rightarrow> ng_action list \<Rightarrow>
     HttpSession \<Rightarrow> (int \<times> HttpSession) res"
where
  "on_read env router wants h rds ssl ng s =
     (if running s then read_loop env router wants rds ssl ng s
      else bindE (tls_handshake env router wants h ssl ng s) (\<lambda>(rv, s, _). Inr (rv, s)))"

section \<open>Timers\<close>

text \<open>\<open>Stream::timeout_cb\<close> and \<open>settings_timeout_cb\<close>; \<open>-1\<close> makes the worker drop the session.\<close>

definition stream_timeout_cb ::
  "Env \<Rightarrow> HttpRouter \<Rightarrow> bool \<Rightarrow> Handshake \<Rightarrow> ssl_write_answer list \<Rightarrow> ng_action list \<Rightarrow> int \<Rightarrow> HttpSession \<Rightarrow> write_result"
where
  "stream_timeout_cb env router wants h ssl ng i s =
     (case streams s i of
        None \<Rightarrow> Inl Undefined
      | Some st \<Rightarrow>
          let st = stop_write_timeout (stop_read_timeout st);
              (st, c) = submit_rst NGHTTP2_INTERNAL_ERROR st (conn s)
          in on_write env router wants h ssl ng (put_stream st (s\<lparr>conn := c\<rparr>)))"

definition settings_timeout_cb ::
  "Env \<Rightarrow> HttpRouter \<Rightarrow> bool \<Rightarrow> Handshake \<Rightarrow> ssl_write_answer list \<Rightarrow> ng_action list \<Rightarrow> HttpSession \<Rightarrow> write_result"
where
  "settings_timeout_cb env router wants h ssl ng s =
     (let s = (if has_session s
               then s\<lparr>conn := (conn s)\<lparr>ng_calls := ng_calls (conn s) @ [Terminate_session 4]\<rparr>\<rparr> else s)
      in on_write env router wants h ssl ng s)"

text \<open>
  An event for one of the session's event streams: published on a channel it listens to, or the
  stream's own periodic ping.
\<close>

definition event_cb :: "int \<Rightarrow> Event \<Rightarrow> HttpSession \<Rightarrow> HttpSession res" where
  "event_cb i ev s =
     (case streams s i of
        None \<Rightarrow> Inl Undefined
      | Some st \<Rightarrow> bindE (submit_event ev st (conn s)) (\<lambda>(st, c). Inr (put_stream st (s\<lparr>conn := c\<rparr>))))"

section \<open>The life of a session\<close>

text \<open>
  What libev makes a session do: its socket becomes readable or writable, or a timer fires; and
  an event may be handed to one of its streams. The scripts are whatever nghttp2 and TLS do meanwhile.
\<close>

inductive session_step :: "Env \<Rightarrow> HttpRouter \<Rightarrow> HttpSession \<Rightarrow> int \<Rightarrow> HttpSession \<Rightarrow> bool"
  for env router where
  readable: "on_read env router wants h rds ssl ng s = Inr (rv, s') \<Longrightarrow> session_step env router s rv s'"
| writable: "on_write env router wants h ssl ng s = Inr (rv, s', rest) \<Longrightarrow> session_step env router s rv s'"
| stream_timeout:
    "stream_timeout_cb env router wants h ssl ng i s = Inr (rv, s', rest) \<Longrightarrow> session_step env router s rv s'"
| settings_timeout:
    "settings_timer s \<Longrightarrow> settings_timeout_cb env router wants h ssl ng s = Inr (rv, s', rest) \<Longrightarrow>
     session_step env router s rv s'"
| event: "event_cb i ev s = Inr s' \<Longrightarrow> session_step env router s 0 s'"

text \<open>A session whose step gave \<open>-1\<close> is destroyed, so nothing follows such a step.\<close>

inductive reachable :: "Env \<Rightarrow> HttpRouter \<Rightarrow> HttpSession \<Rightarrow> HttpSession \<Rightarrow> bool" for env router s0 where
  start: "reachable env router s0 s0"
| move: "reachable env router s0 s \<Longrightarrow> session_step env router s rv s' \<Longrightarrow> rv \<noteq> -1 \<Longrightarrow> reachable env router s0 s'"

inductive_cases session_stepE: "session_step env router s rv s'"

end
