(* ===== verification/Session_Output.thy ===== *)
theory Session_Output
  imports Http_Session
begin

text \<open>
  What a session sends. The locale \<open>session_invariant\<close> is the frame of every argument about
  sessions: a predicate kept by each of the small things nghttp2, TLS and the timers make the
  session do is kept by its loops, and so holds in every state a session reaches. Its first
  instance is the conservation of output bytes.
\<close>

section \<open>What the callbacks leave alone\<close>

text \<open>The output side of a session.\<close>

definition output_of :: "HttpSession \<Rightarrow> Buffer \<times> byte list option \<times> byte list \<times> byte list" where
  "output_of s = (wbuf s, data_pending s, out s, sent s)"

lemma output_put [simp]: "output_of (put_stream st s) = output_of s"
  by (simp add: output_of_def put_stream_def)

lemma output_upd [simp]:
  "output_of (s\<lparr>conn := c\<rparr>) = output_of s" "output_of (s\<lparr>store := w\<rparr>) = output_of s"
  "output_of (s\<lparr>settings_timer := b\<rparr>) = output_of s" "output_of (s\<lparr>running := b\<rparr>) = output_of s"
  "output_of (s\<lparr>has_session := b\<rparr>) = output_of s" "output_of (s\<lparr>streams := m\<rparr>) = output_of s"
  "output_of (s\<lparr>alive := a\<rparr>) = output_of s" "output_of (s\<lparr>next_serial := k\<rparr>) = output_of s"
  "output_of (s\<lparr>created := n\<rparr>) = output_of s"
  by (simp_all add: output_of_def)

lemma output_in_session: "in_session g st s = Inr (st', s') \<Longrightarrow> output_of s' = output_of s"
  by (auto simp: in_session_def fault_simps)

lemma output_prepare: "prepare_once env router st s = Inr (st', s') \<Longrightarrow> output_of s' = output_of s"
  by (auto simp: prepare_once_def fault_simps dest!: output_in_session split: if_splits)

lemma output_headers_case: "recv_headers_case env router f s = Inr (rv, s') \<Longrightarrow> output_of s' = output_of s"
  by (auto simp: recv_headers_case_def fault_simps Let_def dest!: output_prepare split: option.splits if_splits)

lemma output_data_case: "recv_data_case env router f s = Inr (Some s') \<Longrightarrow> output_of s' = output_of s"
  by (auto simp: recv_data_case_def fault_simps dest!: output_prepare split: option.splits if_splits)

lemma output_frame_recv: "on_frame_recv_cb env router f s = Inr (rv, s') \<Longrightarrow> output_of s' = output_of s"
  by (auto simp: on_frame_recv_cb_def fault_simps dest!: output_headers_case output_data_case
      split: frame_type.splits if_splits option.splits)

lemma output_recv_step: "recv_step env router e s = Inr s' \<Longrightarrow> output_of s' = output_of s"
  by (auto simp: recv_step_def fault_simps on_begin_headers_cb_def on_header_cb_def create_stream_def
      on_data_chunk_recv_cb_def on_stream_close_cb_def remove_stream_def Let_def
      dest!: output_frame_recv output_in_session
      split: recv_event.splits if_splits option.splits prod.splits)

lemma output_event: "event_cb i ev s = Inr s' \<Longrightarrow> output_of s' = output_of s"
  by (auto simp: event_cb_def fault_simps split: option.splits)

lemma output_frame_send: "on_frame_send_cb env router f w s = Inr (rv, s') \<Longrightarrow> output_of s' = output_of s"
  by (auto simp: on_frame_send_cb_def fault_simps dest!: output_in_session split: if_splits option.splits)

lemma output_data_read: "data_read_cb i len rc s = Inr (r, s') \<Longrightarrow> output_of s' = output_of s"
  by (auto simp: data_read_cb_def fault_simps Let_def split: option.splits prod.splits if_splits)

lemma output_close [simp]: "output_of (snd (on_stream_close_cb i s)) = output_of s"
  by (auto simp: on_stream_close_cb_def remove_stream_def split: option.splits)

section \<open>Sending only appends\<close>

text \<open>Whatever a data stream does, it only appends to the buffer, also when it fails.\<close>

definition extends :: "Buffer \<Rightarrow> Buffer \<Rightarrow> bool" where
  "extends b b' \<longleftrightarrow> (\<forall>N. buf_ok N b \<longrightarrow> buf_ok N b' \<and> (\<exists>xs. pending b' = pending b @ xs))"

lemma extends_refl [simp]: "extends b b"
  by (auto simp: extends_def)

lemma extends_trans: "extends b b' \<Longrightarrow> extends b' b'' \<Longrightarrow> extends b b''"
  unfolding extends_def by (metis append_assoc)

lemma extends_writes:
  "write_full src b = Inr b' \<Longrightarrow> extends b b'" "write_byte v b = Inr b' \<Longrightarrow> extends b b'"
  "fill v n b = Inr b' \<Longrightarrow> extends b b'"
  by (auto simp: extends_def dest: write_full_ok write_byte_ok fill_ok)

lemma extends_store: "store_raw bs b = Inr b' \<Longrightarrow> extends b (snd (write_n (length bs) b'))"
proof -
  assume st: "store_raw bs b = Inr b'"
  have "appends N b bs (snd (write_n (length bs) b'))" if ok: "buf_ok N b" for N
  proof -
    have "length bs \<le> wleft b" using st by (auto simp: store_raw_def wleft_def split: if_splits)
    from store_raw_fits [OF ok this] show ?thesis using st by auto
  qed
  then show ?thesis by (auto simp: extends_def appends_def)
qed

lemma extends_file: "fs_send_loop script n f wb = Inr (rv, f', wb') \<Longrightarrow> extends wb wb'"
  by (induction script n f wb rule: fs_send_loop.induct)
    (auto simp: fault_simps split: pread_result.splits dest!: extends_store intro: extends_trans)

lemma extends_pre: "pre_loop name pos n wb = Inr (pos', n', wb') \<Longrightarrow> extends wb wb'"
proof (induction name pos n wb rule: pre_loop.induct)
  case (1 name pos n wb)
  then show ?case
    by (subst (asm) (2) pre_loop.simps)
      (auto simp: fault_simps Let_def split: if_splits dest!: extends_writes(1) intro: extends_trans)
qed

lemma extends_newlines: "newlines n wb = Inr wb' \<Longrightarrow> extends wb wb'"
  by (induction n arbitrary: wb) (auto simp: fault_simps dest!: extends_writes intro: extends_trans)

lemma extends_head: "es_send_head name pos n wb = Inr (pos', n', wb') \<Longrightarrow> extends wb wb'"
  by (auto simp: es_send_head_def fault_simps split: if_splits dest!: extends_writes extends_pre
      intro: extends_trans)

lemma extends_send: "ds_send scripts n d wb = Inr (rv, d', wb') \<Longrightarrow> extends wb wb'"
  by (cases d)
    (auto simp: wrap_send_def fault_simps ss_send_def fs_send_def es_send_def Let_def
      split: if_splits list.splits dest!: extends_writes extends_file extends_head extends_newlines
      intro: extends_trans)

lemma send_data_extends:
  assumes "send_data_cb scripts i fh n pad s = Inr (rv, s')"
  shows "extends (wbuf s) (wbuf s')" and "data_pending s' = data_pending s" and "out s' = out s"
    and "sent s' = sent s"
proof -
  show "extends (wbuf s) (wbuf s')"
    using assms by (auto simp: send_data_cb_def fault_simps Let_def put_stream_def
        split: option.splits if_splits dest!: extends_writes extends_send)
      (blast intro: extends_trans)+
  show "data_pending s' = data_pending s" "out s' = out s" "sent s' = sent s"
    using assms by (auto simp: send_data_cb_def fault_simps Let_def put_stream_def
        split: option.splits if_splits)
qed

lemma callback_pending: "mem_send_callback env router a s = Inr s' \<Longrightarrow> data_pending s' = data_pending s"
  by (auto simp: mem_send_callback_def fault_simps note_output_def send_data_extends
      dest!: output_data_read output_frame_send simp: output_of_def split: ng_action.splits)
    (metis output_close output_of_def prod.inject)

section \<open>Invariants of a session\<close>

locale session_invariant =
  fixes inv :: "HttpSession \<Rightarrow> bool"
  assumes recv_law: "inv s \<Longrightarrow> recv_step env router e s = Inr s' \<Longrightarrow> inv s'"
    and callback_law: "inv s \<Longrightarrow> data_pending s = None \<Longrightarrow> mem_send_callback env router a s = Inr s' \<Longrightarrow> inv s'"
    and bytes_law: "inv s \<Longrightarrow> data_pending s = None \<Longrightarrow> inv (s\<lparr>data_pending := Some bs, out := out s @ bs\<rparr>)"
    and flush_law: "inv s \<Longrightarrow> inv (snd (flush_pending s))"
    and sent_law: "inv s \<Longrightarrow> 0 < rleft (wbuf s) \<Longrightarrow> ssl_write w (pending (wbuf s)) s = (rv, s') \<Longrightarrow>
      inv (if rv \<le> 0 then s' else s'\<lparr>wbuf := snd (drain (nat rv) (wbuf s'))\<rparr>)"
    and reset_law: "inv s \<Longrightarrow> rleft (wbuf s) = 0 \<Longrightarrow> inv (s\<lparr>wbuf := buf_reset (wbuf s)\<rparr>)"
    and watcher_law: "inv s \<Longrightarrow> inv (s\<lparr>conn := (conn s)\<lparr>wev := b\<rparr>\<rparr>)"
    and call_law: "inv s \<Longrightarrow> x = Submit_settings \<or> (\<exists>k. x = Terminate_session k) \<Longrightarrow>
      inv (s\<lparr>conn := (conn s)\<lparr>ng_calls := ng_calls (conn s) @ [x]\<rparr>\<rparr>)"
    and phase_law: "inv s \<Longrightarrow> inv (s\<lparr>running := r\<rparr>)" "inv s \<Longrightarrow> inv (s\<lparr>has_session := r\<rparr>)"
    and timeout_law: "inv s \<Longrightarrow> streams s i = Some st \<Longrightarrow>
      submit_rst NGHTTP2_INTERNAL_ERROR (stop_write_timeout (stop_read_timeout st)) (conn s) = (st', c) \<Longrightarrow>
      inv (put_stream st' (s\<lparr>conn := c\<rparr>))"
    and event_law: "inv s \<Longrightarrow> event_cb i ev s = Inr s' \<Longrightarrow> inv s'"
begin

lemma fill_loop_inv:
  "inv s \<Longrightarrow> data_pending s = None \<Longrightarrow> fill_loop env router as s = Inr (rv, s', as') \<Longrightarrow> inv s'"
proof (induction env router as s rule: fill_loop.induct)
  case (2 env router a as s)
  show ?case
  proof (cases "\<exists>bs. a = Ng_bytes bs")
    case True
    then obtain bs where a: "a = Ng_bytes bs" by blast
    let ?s = "s\<lparr>data_pending := Some bs, out := out s @ bs\<rparr>"
    obtain ok s1 where f: "flush_pending ?s = (ok, s1)" by fastforce
    have "inv s1" using flush_law [OF bytes_law [OF "2.prems"(1,2)], of bs] f by simp
    moreover have "ok \<Longrightarrow> data_pending s1 = None"
      using f by (auto simp: flush_pending_def split: prod.splits if_splits)
    ultimately show ?thesis using "2.IH"(1) [OF a f [symmetric]] "2.prems"(3) a f by (cases ok) auto
  next
    case False
    show ?thesis
    proof (cases "a = Ng_error \<or> a = Ng_nothing")
      case True
      then show ?thesis using "2.prems" by auto
    next
      case no: False
      obtain s1 where s1: "mem_send_callback env router a s = Inr s1"
        "fill_loop env router as s1 = Inr (rv, s', as')"
        using "2.prems"(3) False no by (auto simp: fault_simps split: ng_action.splits)
      have "inv s1" "data_pending s1 = None"
        using callback_law [OF "2.prems"(1,2) s1(1)] callback_pending [OF s1(1)] "2.prems"(2) by simp_all
      then show ?thesis using "2.IH" s1 False no by (cases a) auto
    qed
  qed
qed simp

lemma fill_wb_inv: "inv s \<Longrightarrow> fill_wb env router as s = Inr (rv, s', as') \<Longrightarrow> inv s'"
  using flush_law [of s] fill_loop_inv
  by (fastforce simp: fill_wb_def flush_pending_def split: prod.splits bool.splits if_splits option.splits)

lemma write_loop_inv:
  "inv s \<Longrightarrow> write_loop env router wants ssl ng s = Inr (rv, s', ssl', ng') \<Longrightarrow> inv s'"
proof (induction env router wants ssl ng s rule: write_loop.induct)
  case (1 env router wants ssl ng s)
  show ?case
  proof (cases "rleft (wbuf s) > 0")
    case True
    from "1.prems"(2) True obtain a ssl1 where ssl: "ssl = a # ssl1"
      by (cases ssl) (auto simp: write_loop.simps)
    obtain k s1 where w: "ssl_write a (pending (wbuf s)) s = (k, s1)" by fastforce
    note law = sent_law [OF "1.prems"(1) True w]
    show ?thesis
    proof (cases "k \<le> 0")
      case stop: True
      then have "s' = s1" using "1.prems"(2) True ssl w by (simp add: write_loop.simps [of env router wants "a # ssl1" ng s])
      then show ?thesis using law stop by simp
    next
      case False
      then show ?thesis
        using "1.IH"(1) [OF True ssl w [symmetric] refl] "1.prems"(2) law True ssl w
        by (simp add: write_loop.simps [of env router wants "a # ssl1" ng s])
    qed
  next
    case False
    let ?s = "s\<lparr>wbuf := buf_reset (wbuf s)\<rparr>"
    have "inv ?s" using reset_law "1.prems"(1) False by auto
    then have fill: "fill_wb env router ng ?s = Inr (k, s1, ng1) \<Longrightarrow> inv s1" for k s1 ng1
      by (rule fill_wb_inv)
    obtain k s1 ng1 where f: "fill_wb env router ng ?s = Inr (k, s1, ng1)"
      using "1.prems"(2) False by (auto simp: write_loop.simps [of env router wants ssl ng s] fault_simps)
    note s1 = fill [OF f]
    show ?thesis
    proof (cases "k \<noteq> 0 \<or> rleft (wbuf s1) = 0")
      case True
      then have "s' = s1 \<or> s' = s1\<lparr>conn := (conn s1)\<lparr>wev := False\<rparr>\<rparr>"
        using "1.prems"(2) False f by (auto simp: write_loop.simps [of env router wants ssl ng s] split: if_splits)
      then show ?thesis using s1 watcher_law by auto
    next
      case go: False
      then have "write_loop env router wants ssl ng1 s1 = Inr (rv, s', ssl', ng')"
        using "1.prems"(2) False f by (simp add: write_loop.simps [of env router wants ssl ng s])
      then show ?thesis using "1.IH"(2) [OF False] go s1 by blast
    qed
  qed
qed

lemma connection_made_inv:
  assumes "inv s" and "connection_made env router wants h ssl ng s = Inr (rv, s', rest)"
  shows "inv s'"
proof -
  let ?s = "s\<lparr>has_session := True\<rparr>"
  let ?t = "?s\<lparr>conn := (conn ?s)\<lparr>ng_calls := ng_calls (conn ?s) @ [Submit_settings]\<rparr>\<rparr>"
  let ?u = "?t\<lparr>conn := (conn ?t)\<lparr>ng_calls := ng_calls (conn ?t) @ [Terminate_session 12]\<rparr>\<rparr>"
  have s: "inv ?s" using assms(1) by (rule phase_law)
  then have t: "inv ?t" by (rule call_law) simp
  then have "inv ?u" by (rule call_law) simp
  with s t assms show ?thesis
    by (cases rest) (auto simp: connection_made_def Let_def split: if_splits dest: write_loop_inv)
qed

lemma tls_handshake_inv:
  assumes "inv s" and "tls_handshake env router wants h ssl ng s = Inr (rv, s', rest)"
  shows "inv s'"
proof -
  let ?s = "s\<lparr>conn := (conn s)\<lparr>wev := False\<rparr>\<rparr>"
  have s: "inv ?s" using assms(1) by (rule watcher_law)
  have w: "inv (?s\<lparr>conn := (conn ?s)\<lparr>wev := True\<rparr>\<rparr>)" using s by (rule watcher_law)
  have r: "inv (?s\<lparr>running := True\<rparr>)" using s by (rule phase_law)
  show ?thesis
  proof (cases "hs_result h")
    case (Wrote n)
    then show ?thesis
      using assms(2) s connection_made_inv [OF r]
      by (auto simp: tls_handshake_def Let_def fault_simps split: if_splits)
  qed (use assms(2) s w in \<open>auto simp: tls_handshake_def Let_def\<close>)
qed

lemma on_write_inv: "inv s \<Longrightarrow> on_write env router wants h ssl ng s = Inr (rv, s', rest) \<Longrightarrow> inv s'"
  by (cases rest) (auto simp: on_write_def split: if_splits dest: write_loop_inv tls_handshake_inv)

lemma recv_steps_inv: "inv s \<Longrightarrow> recv_steps env router es s = Inr s' \<Longrightarrow> inv s'"
  by (induction es arbitrary: s) (auto simp: fault_simps dest: recv_law)

lemma read_loop_inv: "inv s \<Longrightarrow> read_loop env router wants rds ssl ng s = Inr (rv, s') \<Longrightarrow> inv s'"
  by (induction env router wants rds ssl ng s rule: read_loop.induct)
    (auto simp: fault_simps split: ssl_read_answer.splits if_splits dest: write_loop_inv recv_steps_inv)

lemma timeout_inv:
  assumes "inv s" and "stream_timeout_cb env router wants h ssl ng i s = Inr (rv, s', rest)"
  shows "inv s'"
proof -
  obtain st where st: "streams s i = Some st"
    using assms(2) by (auto simp: stream_timeout_cb_def split: option.splits)
  obtain st' c where r: "submit_rst NGHTTP2_INTERNAL_ERROR (stop_write_timeout (stop_read_timeout st)) (conn s) = (st', c)"
    by fastforce
  have "on_write env router wants h ssl ng (put_stream st' (s\<lparr>conn := c\<rparr>)) = Inr (rv, s', rest)"
    using assms(2) st r by (simp add: stream_timeout_cb_def)
  then show ?thesis by (rule on_write_inv [OF timeout_law [OF assms(1) st r]])
qed

lemma settings_timeout_inv:
  assumes "inv s" and "settings_timeout_cb env router wants h ssl ng s = Inr (rv, s', rest)"
  shows "inv s'"
proof -
  have "inv (s\<lparr>conn := (conn s)\<lparr>ng_calls := ng_calls (conn s) @ [Terminate_session 4]\<rparr>\<rparr>)"
    using assms(1) by (rule call_law) simp
  then show ?thesis
    using assms by (cases "has_session s") (auto simp: settings_timeout_cb_def dest: on_write_inv)
qed

lemma step_inv: "session_step env router s rv s' \<Longrightarrow> inv s \<Longrightarrow> inv s'"
proof (induction rule: session_step.induct)
  case (readable wants h rds ssl ng s rv s')
  then show ?case
    by (auto simp: on_read_def fault_simps split: if_splits dest: read_loop_inv tls_handshake_inv)
qed (auto dest: on_write_inv timeout_inv settings_timeout_inv event_law)

lemma reachable_inv: "reachable env router s0 s \<Longrightarrow> inv s0 \<Longrightarrow> inv s"
  by (induction rule: reachable.induct) (auto dest: step_inv)

end

section \<open>Conservation of output\<close>

text \<open>
  Everything put on the connection so far is, in order, what TLS took, what is in the buffer, and
  the rest of the last piece nghttp2 returned.
\<close>

definition owed :: "HttpSession \<Rightarrow> byte list" where
  "owed s = (case data_pending s of None \<Rightarrow> [] | Some bs \<Rightarrow> bs)"

definition conserves :: "HttpSession \<Rightarrow> bool" where
  "conserves s \<longleftrightarrow> buf_ok WBUF_SIZE (wbuf s) \<and> out s = sent s @ pending (wbuf s) @ owed s"

lemma conserves_output: "output_of s' = output_of s \<Longrightarrow> conserves s' = conserves s"
  by (simp add: conserves_def owed_def output_of_def)

lemma conserves_upd [simp]:
  "conserves (s\<lparr>conn := c\<rparr>) = conserves s" "conserves (s\<lparr>running := b\<rparr>) = conserves s"
  "conserves (s\<lparr>has_session := b\<rparr>) = conserves s" "conserves (put_stream st s) = conserves s"
  by (simp_all add: conserves_def owed_def put_stream_def)

lemma conserves_flush:
  assumes "conserves s"
  shows "conserves (snd (flush_pending s))"
proof (cases "data_pending s")
  case None
  then show ?thesis using assms by (simp add: flush_pending_def)
next
  case (Some bs)
  obtain n b where b: "buf_write bs (wbuf s) = (n, b)" by fastforce
  have ok: "buf_ok WBUF_SIZE (wbuf s)" and out: "out s = sent s @ pending (wbuf s) @ bs"
    using assms Some by (simp_all add: conserves_def owed_def)
  note rest = wb.put_rest [OF ok b]
  show ?thesis
  proof (cases "n < length bs")
    case True
    then show ?thesis using Some b ok out rest by (simp add: flush_pending_def conserves_def owed_def)
  next
    case False
    then show ?thesis
      using Some b ok out rest wb.put_all [OF ok b] by (simp add: flush_pending_def conserves_def owed_def)
  qed
qed

lemma conserves_callback:
  assumes "conserves s" and "data_pending s = None" and "mem_send_callback env router a s = Inr s'"
  shows "conserves s'"
proof (cases "\<exists>i fh n pad scripts. a = Ng_send i fh n pad scripts")
  case False
  then have "output_of s' = output_of s"
    using assms(3) by (auto simp: mem_send_callback_def fault_simps split: ng_action.splits
        dest: output_data_read output_frame_send)
  then show ?thesis using assms(1) conserves_output by blast
next
  case True
  then obtain i fh n pad scripts rv t where t: "send_data_cb scripts i fh n pad s = Inr (rv, t)" "s' = note_output s t"
    using assms(3) by (auto simp: mem_send_callback_def fault_simps)
  note sd = send_data_extends [OF t(1)]
  have "buf_ok WBUF_SIZE (wbuf s)" using assms(1) by (simp add: conserves_def)
  then obtain xs where "pending (wbuf t) = pending (wbuf s) @ xs" "buf_ok WBUF_SIZE (wbuf t)"
    using sd(1) by (auto simp: extends_def)
  then show ?thesis
    using assms(1,2) sd by (auto simp: conserves_def owed_def t(2) note_output_def)
qed

lemma conserves_sent:
  assumes "conserves s" and "pending (wbuf s) \<noteq> []" and "ssl_write w (pending (wbuf s)) s = (rv, s')"
  shows "conserves (if rv \<le> 0 then s' else s'\<lparr>wbuf := snd (drain (nat rv) (wbuf s'))\<rparr>)"
proof (cases w)
  case (Wrote n)
  let ?k = "max 1 (min n (length (pending (wbuf s))))"
  have ok: "buf_ok WBUF_SIZE (wbuf s)" using assms(1) by (simp add: conserves_def)
  have le: "?k \<le> length (pending (wbuf s))"
    using assms(2) by (simp add: Suc_le_eq)
  obtain c b where b: "drain ?k (wbuf s) = (c, b)" by fastforce
  have "rv = int ?k" "s' = s\<lparr>sent := sent s @ take ?k (pending (wbuf s))\<rparr>"
    using assms(3) Wrote by (auto simp: ssl_write_def Let_def)
  moreover note front = wb.get_front [OF ok b le]
  moreover from front(1) have "sent s @ take ?k (pending (wbuf s)) @ pending b @ owed s = sent s @ pending (wbuf s) @ owed s"
    by (metis append_assoc)
  ultimately show ?thesis using assms(1) b by (simp add: conserves_def owed_def)
qed (use assms in \<open>auto simp: ssl_write_def conserves_def owed_def\<close>)

interpretation conserved: session_invariant conserves
proof unfold_locales
  fix s assume c: "conserves s"
  have ok: "buf_ok WBUF_SIZE (wbuf s)" using c by (simp add: conserves_def)
  show "recv_step env router e s = Inr s' \<Longrightarrow> conserves s'" for env router e s'
    using c conserves_output output_recv_step by blast
  show "data_pending s = None \<Longrightarrow> mem_send_callback env router a s = Inr s' \<Longrightarrow> conserves s'" for env router a s'
    by (rule conserves_callback [OF c])
  show "data_pending s = None \<Longrightarrow> conserves (s\<lparr>data_pending := Some bs, out := out s @ bs\<rparr>)" for bs
    using c by (simp add: conserves_def owed_def)
  show "conserves (snd (flush_pending s))" by (rule conserves_flush [OF c])
  show "0 < rleft (wbuf s) \<Longrightarrow> ssl_write w (pending (wbuf s)) s = (rv, s') \<Longrightarrow>
      conserves (if rv \<le> 0 then s' else s'\<lparr>wbuf := snd (drain (nat rv) (wbuf s'))\<rparr>)" for w rv s'
    using conserves_sent [OF c] length_pending [OF ok] by fastforce
  show "rleft (wbuf s) = 0 \<Longrightarrow> conserves (s\<lparr>wbuf := buf_reset (wbuf s)\<rparr>)"
    using c wb.clear_empty [OF ok] length_pending [OF ok] by (simp add: conserves_def owed_def)
  show "submit_rst NGHTTP2_INTERNAL_ERROR (stop_write_timeout (stop_read_timeout st)) (conn s) = (st', x) \<Longrightarrow>
      conserves (put_stream st' (s\<lparr>conn := x\<rparr>))" for st st' x
    using c by simp
  show "event_cb i ev s = Inr s' \<Longrightarrow> conserves s'" for i ev s'
    using c conserves_output output_event by blast
qed auto

lemma conserves_new: "length garbage = WBUF_SIZE \<Longrightarrow> conserves (new_session garbage w k al)"
  using new_buffer_ok [of garbage] by (simp add: conserves_def new_session_def owed_def)

section \<open>Everything is written out\<close>

text \<open>What is still to be sent, when nghttp2 has the pieces \<open>cs\<close> left.\<close>

definition to_send :: "byte list list \<Rightarrow> HttpSession \<Rightarrow> byte list" where
  "to_send cs s = pending (wbuf s) @ owed s @ concat cs"

lemma flush_cases:
  assumes "conserves s" and "flush_pending s = (ok, s')"
  shows "to_send cs s' = to_send cs s" and "sent s' = sent s" and "bpos (wbuf s') = bpos (wbuf s)"
    and "conserves s'" and "if ok then data_pending s' = None else wleft (wbuf s') = 0"
proof -
  have b: "buf_ok WBUF_SIZE (wbuf s)" using assms(1) by (simp add: conserves_def)
  have c: "conserves s'" using conserves_flush [OF assms(1)] assms(2) by simp
  then show "conserves s'" .
  have same: "sent s' = sent s \<and> out s' = out s \<and> bpos (wbuf s') = bpos (wbuf s)"
    using assms(2) by (auto simp: flush_pending_def buf_write_def Let_def split: option.splits if_splits)
  then show "sent s' = sent s" "bpos (wbuf s') = bpos (wbuf s)" by simp_all
  have "pending (wbuf s') @ owed s' = pending (wbuf s) @ owed s"
    using c assms(1) same by (simp add: conserves_def)
  then show "to_send cs s' = to_send cs s"
    unfolding to_send_def by (metis append_assoc)
  show "if ok then data_pending s' = None else wleft (wbuf s') = 0"
  proof (cases "data_pending s")
    case (Some bs)
    obtain n b' where n: "buf_write bs (wbuf s) = (n, b')" by fastforce
    show ?thesis
      using assms(2) Some n wb.put_short [OF b n] by (auto simp: flush_pending_def split: if_splits)
  qed (use assms(2) in \<open>auto simp: flush_pending_def\<close>)
qed

lemma fill_loop_pieces:
  "conserves s \<Longrightarrow> data_pending s = None \<Longrightarrow> 0 < k \<Longrightarrow>
   \<exists>s' cs' k'. fill_loop env router (map Ng_bytes cs @ replicate k Ng_nothing) s =
       Inr (0, s', map Ng_bytes cs' @ replicate k' Ng_nothing) \<and>
     conserves s' \<and> to_send cs' s' = to_send cs s \<and> sent s' = sent s \<and> bpos (wbuf s') = bpos (wbuf s) \<and>
     (k' = k \<and> wleft (wbuf s') = 0 \<or> k' = k - 1 \<and> cs' = [] \<and> owed s' = [])"
proof (induction cs arbitrary: s)
  case Nil
  then obtain j where "k = Suc j" by (cases k) auto
  then show ?case
    using Nil by (intro exI [of _ s] exI [of _ "[]"] exI [of _ j]) (simp add: owed_def)
next
  case (Cons c cs)
  let ?s = "s\<lparr>data_pending := Some c, out := out s @ c\<rparr>"
  obtain ok s1 where f: "flush_pending ?s = (ok, s1)" by fastforce
  have c: "conserves ?s" by (rule conserved.bytes_law [OF Cons.prems(1,2)])
  note fc = flush_cases [OF c f]
  have todo: "to_send cs ?s = to_send (c # cs) s"
    using Cons.prems(2) by (simp add: to_send_def owed_def)
  show ?case
  proof (cases ok)
    case False
    then show ?thesis
      using f fc todo by (intro exI [of _ s1] exI [of _ cs] exI [of _ k]) simp
  next
    case True
    then have "data_pending s1 = None" using fc(5) by simp
    from Cons.IH [OF fc(4) this Cons.prems(3)] show ?thesis
      using f fc todo True by simp
  qed
qed

lemma fill_wb_pieces:
  assumes "conserves s" and "0 < k"
  shows "\<exists>s' cs' k'. fill_wb env router (map Ng_bytes cs @ replicate k Ng_nothing) s =
       Inr (0, s', map Ng_bytes cs' @ replicate k' Ng_nothing) \<and>
     conserves s' \<and> to_send cs' s' = to_send cs s \<and> sent s' = sent s \<and> bpos (wbuf s') = bpos (wbuf s) \<and>
     (k' = k \<and> wleft (wbuf s') = 0 \<or> k' = k - 1 \<and> cs' = [] \<and> owed s' = [])"
proof -
  obtain ok s1 where f: "flush_pending s = (ok, s1)" by fastforce
  note fc = flush_cases [OF assms(1) f]
  show ?thesis
  proof (cases ok)
    case False
    then show ?thesis
      using f fc by (intro exI [of _ s1] exI [of _ cs] exI [of _ k]) (simp add: fill_wb_def)
  next
    case True
    then have "data_pending s1 = None" using fc(5) by simp
    from fill_loop_pieces [OF fc(4) this assms(2), of env router cs] show ?thesis
      using f fc True by (simp add: fill_wb_def)
  qed
qed

definition takes_all :: "ssl_write_answer list \<Rightarrow> bool" where
  "takes_all ssl \<longleftrightarrow> (\<forall>a \<in> set ssl. \<exists>n. a = Wrote n)"

lemma write_loop_flushes:
  "conserves s \<Longrightarrow> ng = map Ng_bytes cs @ replicate k Ng_nothing \<Longrightarrow>
   2 \<le> k \<or> 1 \<le> k \<and> cs = [] \<and> owed s = [] \<Longrightarrow>
   takes_all ssl \<Longrightarrow> length (to_send cs s) \<le> length ssl \<Longrightarrow>
   \<exists>s' ssl' ng'. write_loop env router wants ssl ng s = Inr (if wants then 0 else -1, s', ssl', ng') \<and>
     sent s' = sent s @ to_send cs s \<and> pending (wbuf s') = [] \<and> owed s' = [] \<and> \<not> wev (conn s')"
proof (induction env router wants ssl ng s arbitrary: cs k rule: write_loop.induct)
  case (1 env router wants ssl ng s)
  have ok: "buf_ok WBUF_SIZE (wbuf s)" using "1.prems"(1) by (simp add: conserves_def)
  show ?case
  proof (cases "rleft (wbuf s) > 0")
    case True
    then have ne: "pending (wbuf s) \<noteq> []" using length_pending [OF ok] by auto
    then have "ssl \<noteq> []" using "1.prems"(5) by (auto simp: to_send_def)
    then obtain a ssl1 where ssl: "ssl = a # ssl1" by (cases ssl) auto
    then obtain n where a: "a = Wrote n" using "1.prems"(4) by (auto simp: takes_all_def)
    let ?k = "max 1 (min n (length (pending (wbuf s))))"
    let ?s1 = "s\<lparr>sent := sent s @ take ?k (pending (wbuf s))\<rparr>"
    let ?s2 = "?s1\<lparr>wbuf := snd (drain ?k (wbuf s))\<rparr>"
    have w: "ssl_write a (pending (wbuf s)) s = (int ?k, ?s1)" by (simp add: ssl_write_def a Let_def)
    have c: "conserves ?s2" using conserves_sent [OF "1.prems"(1) ne w] by simp
    have le: "?k \<le> length (pending (wbuf s))" using ne by (simp add: Suc_le_eq)
    obtain d b where b: "drain ?k (wbuf s) = (d, b)" by fastforce
    note front = wb.get_front [OF ok b le]
    then have split: "sent ?s2 @ to_send cs ?s2 = sent s @ to_send cs s"
      using b by (simp add: to_send_def owed_def)
    have "length (to_send cs ?s2) < length (to_send cs s)"
      using arg_cong [OF front(1), of length] b le by (simp add: to_send_def owed_def)
    then have len: "length (to_send cs ?s2) \<le> length ssl1" and all: "takes_all ssl1"
      using "1.prems"(4,5) ssl by (simp_all add: takes_all_def)
    have k: "2 \<le> k \<or> 1 \<le> k \<and> cs = [] \<and> owed ?s2 = []"
      using "1.prems"(3) by (simp add: owed_def)
    have eq: "?s1\<lparr>wbuf := snd (drain (nat (int ?k)) (wbuf ?s1))\<rparr> = ?s2" by simp
    have "\<not> int ?k \<le> 0" by simp
    from "1.IH"(1) [OF True ssl w [symmetric] refl this, unfolded eq, OF c "1.prems"(2) k all len]
    obtain s' ssl' ng' where
      "write_loop env router wants ssl1 ng ?s2 = Inr (if wants then 0 else -1, s', ssl', ng')"
      "sent s' = sent ?s2 @ to_send cs ?s2" "pending (wbuf s') = []" "owed s' = []" "\<not> wev (conn s')"
      by blast
    then show ?thesis
      using True ssl w split by (simp add: write_loop.simps [of env router wants "a # ssl1" ng s])
  next
    case False
    then have empty: "pending (wbuf s) = []" using length_pending [OF ok] by simp
    let ?s = "s\<lparr>wbuf := buf_reset (wbuf s)\<rparr>"
    have c: "conserves ?s" using conserved.reset_law [OF "1.prems"(1)] False by simp
    have same: "to_send cs ?s = to_send cs s" "owed ?s = owed s"
      using wb.clear_empty [OF ok empty] by (simp_all add: to_send_def owed_def)
    have "0 < k" using "1.prems"(3) by auto
    from fill_wb_pieces [OF c this, of env router cs] obtain s1 cs1 k1 where
      f: "fill_wb env router ng ?s = Inr (0, s1, map Ng_bytes cs1 @ replicate k1 Ng_nothing)"
      and s1: "conserves s1" "to_send cs1 s1 = to_send cs s" "sent s1 = sent s" "bpos (wbuf s1) = 0"
      and k1: "k1 = k \<and> wleft (wbuf s1) = 0 \<or> k1 = k - 1 \<and> cs1 = [] \<and> owed s1 = []"
      using "1.prems"(2) same by (auto simp: buf_reset_def)
    have ok1: "buf_ok WBUF_SIZE (wbuf s1)" using s1(1) by (simp add: conserves_def)
    show ?thesis
    proof (cases "rleft (wbuf s1) = 0")
      case True
      then have "pending (wbuf s1) = []" using length_pending [OF ok1] by simp
      moreover from this have "wleft (wbuf s1) \<noteq> 0"
        using s1(4) ok1 True by (auto simp: wleft_def rleft_def buf_ok_def)
      ultimately show ?thesis
        using False f s1 k1 True
        by (auto simp: write_loop.simps [of env router wants ssl ng s] to_send_def owed_def)
    next
      case go: False
      have k2: "2 \<le> k1 \<or> 1 \<le> k1 \<and> cs1 = [] \<and> owed s1 = []"
      proof (cases "2 \<le> k")
        case True
        then show ?thesis using k1 by auto
      next
        case one: False
        then have "to_send cs s = []" using "1.prems"(3) empty by (simp add: to_send_def)
        then have "to_send cs1 s1 = []" using s1(2) by simp
        then have "pending (wbuf s1) = []" by (simp add: to_send_def)
        then show ?thesis using go length_pending [OF ok1] by simp
      qed
      obtain s' ssl' ng' where
        "write_loop env router wants ssl (map Ng_bytes cs1 @ replicate k1 Ng_nothing) s1 =
          Inr (if wants then 0 else -1, s', ssl', ng')"
        "sent s' = sent s1 @ to_send cs1 s1" "pending (wbuf s') = []" "owed s' = []" "\<not> wev (conn s')"
        using "1.IH"(2) [OF False, of 0, OF _ go s1(1) refl k2 "1.prems"(4)] "1.prems"(5) s1(2) by auto
      then show ?thesis
        using False f go s1 by (simp add: write_loop.simps [of env router wants ssl ng s])
    qed
  qed
qed

section \<open>Properties\<close>

definition garbage_buffer :: "byte list" where
  "garbage_buffer = replicate WBUF_SIZE (CHR ''?'')"

text \<open>
  C2. In every state a session reaches, the bytes TLS has taken are a prefix of the bytes nghttp2
  and the callbacks have put on the connection, and what is missing of them is exactly the unread
  part of the write buffer followed by the rest of nghttp2's last piece: no partial write, full
  buffer, timer or failing stream loses, repeats or reorders a byte.
\<close>

theorem output_conserved:
  assumes "length garbage = WBUF_SIZE" and "reachable env router (new_session garbage w k al) s"
  shows "out s = sent s @ pending (wbuf s) @ (case data_pending s of None \<Rightarrow> [] | Some bs \<Rightarrow> bs)"
proof -
  have "conserves s"
    by (rule conserved.reachable_inv [OF assms(2) conserves_new [OF assms(1)]])
  then show ?thesis by (simp add: conserves_def owed_def)
qed


definition sample_session :: HttpSession where
  "sample_session = new_session garbage_buffer empty_store 0 {}"

definition sample_handshake :: Handshake where
  "sample_handshake = \<lparr>hs_result = Wrote 1, hs_protocol = Some ''h2'', hs_server_new = 0, hs_settings = 0,
     hs_version = 0x0303, hs_cipher = 0x0300C02F\<rparr>"


text \<open>A session that has shaken hands and sent its first bytes.\<close>

lemma sample_run:
  "\<exists>s. reachable sample_env sample_router sample_session s \<and> sent s = ''abc''"
proof -
  let ?s = "sample_session\<lparr>conn := \<lparr>ng_calls = [Submit_settings], wev = False\<rparr>, running := True, has_session := True\<rparr>"
  have "conserves sample_session"
    unfolding sample_session_def by (rule conserves_new) (simp add: garbage_buffer_def)
  then have "conserves ?s" by (simp add: conserves_def owed_def)
  moreover have "to_send [''abc''] ?s = ''abc''"
    by (simp add: to_send_def sample_session_def new_session_def new_buffer_ok owed_def)
  ultimately obtain s ssl' ng' where
    "write_loop sample_env sample_router True (replicate 3 (Wrote 1)) (map Ng_bytes [''abc''] @ replicate 2 Ng_nothing) ?s =
      Inr (0, s, ssl', ng')" "sent s = ''abc''"
    using write_loop_flushes [of ?s "map Ng_bytes [''abc''] @ replicate 2 Ng_nothing" "[''abc'']" 2
        "replicate 3 (Wrote 1)" sample_env sample_router True]
    by (auto simp: takes_all_def sample_session_def new_session_def)
  then have "on_write sample_env sample_router True sample_handshake (replicate 3 (Wrote 1))
      (map Ng_bytes [''abc''] @ replicate 2 Ng_nothing) sample_session = Inr (0, s, ssl', ng')"
    by (simp add: on_write_def tls_handshake_def connection_made_def sample_handshake_def verify_npn_def
        check_h2_is_selected_def check_http2_requirements_def is_cipher_banned_def sample_session_def new_session_def)
  then have "session_step sample_env sample_router sample_session 0 s" by (rule session_step.writable)
  with \<open>sent s = ''abc''\<close> show ?thesis
    using reachable.move [OF reachable.start] by (intro exI [of _ s]) auto
qed

theorem output_conserved_witness:
  "\<exists>s. reachable sample_env sample_router sample_session s \<and> sent s = ''abc'' \<and>
     out s = ''abc'' @ pending (wbuf s) @ (case data_pending s of None \<Rightarrow> [] | Some bs \<Rightarrow> bs)"
proof -
  obtain s where s: "reachable sample_env sample_router sample_session s" "sent s = ''abc''"
    using sample_run by blast
  then have "out s = sent s @ pending (wbuf s) @ (case data_pending s of None \<Rightarrow> [] | Some bs \<Rightarrow> bs)"
    by (intro output_conserved [of garbage_buffer]) (simp_all add: sample_session_def garbage_buffer_def)
  then show ?thesis using s by auto
qed

end
