(* ===== verification/Session_Streams.thy ===== *)
theory Session_Streams
  imports Session_Output
begin

text \<open>
  The streams of a session: the map from stream identifiers to streams, the memory a request's
  headers may take, what makes the session run at all, and when responses are prepared.
\<close>

section \<open>What handlers leave alone\<close>

text \<open>Identity and request headers of a stream.\<close>

definition request_of :: "Stream \<Rightarrow> int \<times> 64 word \<times> Headers" where
  "request_of st = (st_id st, st_serial st, st_headers st)"

lemma request_upd [simp]:
  "request_of (st\<lparr>st_response := r\<rparr>) = request_of st" "request_of (st\<lparr>st_data := d\<rparr>) = request_of st"
  "request_of (st\<lparr>st_request := q\<rparr>) = request_of st" "request_of (st\<lparr>st_delivered := ds\<rparr>) = request_of st"
  "request_of (st\<lparr>st_prepared := b\<rparr>) = request_of st" "request_of (mem_alloc n st) = request_of st"
  "request_of (st\<lparr>st_path := p\<rparr>) = request_of st" "request_of (st\<lparr>st_query := p\<rparr>) = request_of st"
  "request_of (reset_read_timeout st) = request_of st" "request_of (reset_write_timeout st) = request_of st"
  "request_of (reset_read_timeout_if_active st) = request_of st"
  "request_of (stop_read_timeout st) = request_of st" "request_of (stop_write_timeout st) = request_of st"
  "request_of (response_header m v st) = request_of st" "request_of (length_header k st) = request_of st"
  "request_of (set_response_status v st) = request_of st" "request_of (add_string_stream v st) = request_of st"
  by (simp_all add: request_of_def mem_alloc_def reset_read_timeout_def reset_write_timeout_def
      reset_read_timeout_if_active_def stop_read_timeout_def stop_write_timeout_def response_header_def
      length_header_def set_response_status_def add_string_stream_def)

lemma request_submit: "submit_response b st c = Inr (st', c') \<Longrightarrow> request_of st' = request_of st"
  by (auto simp: submit_response_def Let_def fault_simps split: if_splits)

lemma request_texts:
  "submit_string_response t st c = Inr (st', c') \<Longrightarrow> request_of st' = request_of st"
  "submit_html_response t st c = Inr (st', c') \<Longrightarrow> request_of st' = request_of st"
  "submit_json_response t st c = Inr (st', c') \<Longrightarrow> request_of st' = request_of st"
  by (auto simp: submit_string_response_def submit_html_response_def submit_json_response_def
      dest!: request_submit)

lemma request_file_headers: "file_headers env e info st = Inr st' \<Longrightarrow> request_of st' = request_of st"
  by (auto simp: file_headers_def Let_def fault_simps split: if_splits)

lemma request_submit_file: "submit_file env e st c = Inr (st', c') \<Longrightarrow> request_of st' = request_of st"
  by (auto simp: submit_file_def Let_def fault_simps split: if_splits option.splits
      dest!: request_submit request_file_headers)

lemma request_file_response:
  "submit_file_response env p a b d (st, c, w) = Inr (st', c', w') \<Longrightarrow> request_of st' = request_of st"
  by (auto simp: submit_file_response_def fault_simps split: option.splits
      dest!: request_submit_file request_texts(3))

lemma request_path_response:
  "submit_path_response env (st, c, w) = Inr (st', c', w') \<Longrightarrow> request_of st' = request_of st"
  by (auto simp: submit_path_response_def dest!: request_file_response split: if_splits)

lemma request_on_request: "on_request g st = Inr st' \<Longrightarrow> request_of st' = request_of st"
  by (auto simp: on_request_def fault_simps)

lemma request_event: "create_event_source st c = Inr (st', c') \<Longrightarrow> request_of st' = request_of st"
  "submit_event ev st c = Inr (st', c') \<Longrightarrow> request_of st' = request_of st"
  by (auto simp: create_event_source_def submit_event_def Let_def split: option.splits DataStream.splits prod.splits
      dest!: request_submit)

lemma request_step:
  "response_step env x (st, c, w) = Inr (st', c', w') \<Longrightarrow> request_of st' = request_of st"
  by (cases x)
    (auto simp: response_step_def stream_only_def fault_simps
      dest!: request_texts request_path_response request_file_response request_on_request request_event)

lemma request_steps:
  "response_steps env xs (st, c, w) = Inr (st', c', w') \<Longrightarrow> request_of st' = request_of st"
proof (induction xs arbitrary: st c w)
  case (Cons x xs)
  then show ?case by (auto simp: fault_simps dest!: request_step)
qed simp

lemma request_prepare:
  assumes "prepare_response env router (st, c, w) = Inr (st', c', w')"
  shows "request_of st' = request_of st"
proof -
  obtain d where d: "dispatch_route (hmethod (st_headers st)) (st_path st) router = Inr d"
    using assms by (auto simp: prepare_response_def fault_simps)
  show ?thesis
    using assms d by (cases d)
      (auto simp: prepare_response_def fault_simps split: if_splits
        dest!: request_steps request_path_response request_texts(3))
qed

section \<open>The streams and their headers\<close>

text \<open>The bytes of the names and values that are kept in the array and the vector.\<close>

definition header_bytes :: "Headers \<Rightarrow> nat" where
  "header_bytes h = sum_list (map (\<lambda>(n, v). length (rbytes n) + length (rbytes v)) (nva h @ additional h))"

definition bounded :: "Headers \<Rightarrow> bool" where
  "bounded h \<longleftrightarrow> header_bytes h \<le> buffer_size h \<and> buffer_size h \<le> MAX_HEADERS"

definition kept_streams :: "HttpSession \<Rightarrow> bool" where
  "kept_streams s \<longleftrightarrow> (\<forall>i st. streams s i = Some st \<longrightarrow> st_id st = i \<and> bounded (st_headers st))"

lemma bounded_new: "bounded (st_headers (new_stream i k))"
  by (simp add: bounded_def header_bytes_def new_stream_def no_headers_def)

lemma bounded_add:
  assumes "bounded h" and "buffer_size h + length (rbytes n) + length (rbytes v) \<le> MAX_HEADERS"
  shows "bounded (fst (add_header n v (h\<lparr>buffer_size := buffer_size h + (length (rbytes n) + length (rbytes v))\<rparr>)))"
  using assms by (auto simp: bounded_def header_bytes_def add_header_def Let_def)

lemma kept_put:
  assumes "kept_streams s" and "bounded (st_headers st)"
  shows "kept_streams (put_stream st s)"
  using assms by (auto simp: kept_streams_def put_stream_def)

lemma kept_request:
  "kept_streams s \<Longrightarrow> streams s i = Some st \<Longrightarrow> request_of st' = request_of st \<Longrightarrow>
   bounded (st_headers st') \<and> st_id st' = i"
  by (auto simp: kept_streams_def request_of_def)

lemma kept_upd [simp]:
  "kept_streams (s\<lparr>conn := c\<rparr>) = kept_streams s" "kept_streams (s\<lparr>store := w\<rparr>) = kept_streams s"
  "kept_streams (s\<lparr>wbuf := b\<rparr>) = kept_streams s" "kept_streams (s\<lparr>settings_timer := r\<rparr>) = kept_streams s"
  "kept_streams (s\<lparr>running := r\<rparr>) = kept_streams s" "kept_streams (s\<lparr>has_session := r\<rparr>) = kept_streams s"
  "kept_streams (s\<lparr>sent := bs\<rparr>) = kept_streams s" "kept_streams (s\<lparr>out := bs\<rparr>) = kept_streams s"
  "kept_streams (s\<lparr>data_pending := d\<rparr>) = kept_streams s" "kept_streams (note_output t s) = kept_streams s"
  by (simp_all add: kept_streams_def note_output_def)

text \<open>Which streams there are, and what the worker knows of them.\<close>

type_synonym roster = "(int \<Rightarrow> 64 word option) \<times> 64 word \<times> nat \<times> 64 word set"

definition roster :: "HttpSession \<Rightarrow> roster" where
  "roster s = (\<lambda>i. map_option st_serial (streams s i), next_serial s, created s, alive s)"

lemma roster_upd [simp]:
  "roster (s\<lparr>conn := c\<rparr>) = roster s" "roster (s\<lparr>store := w\<rparr>) = roster s"
  "roster (s\<lparr>wbuf := b\<rparr>) = roster s" "roster (s\<lparr>settings_timer := r\<rparr>) = roster s"
  "roster (s\<lparr>running := r\<rparr>) = roster s" "roster (s\<lparr>has_session := r\<rparr>) = roster s"
  "roster (s\<lparr>sent := bs\<rparr>) = roster s" "roster (s\<lparr>out := bs\<rparr>) = roster s"
  "roster (s\<lparr>data_pending := d\<rparr>) = roster s" "roster (note_output t s) = roster s"
  by (simp_all add: roster_def note_output_def)

lemma in_session_prepare:
  "in_session (prepare_response env router) st1 s = Inr (st', s') \<Longrightarrow>
   request_of st' = request_of st1 \<and> streams s' = streams s \<and> roster s' = roster s"
  by (auto simp: in_session_def fault_simps dest: request_prepare)

lemma request_parse: "request_of (parse_path st) = request_of st"
  by (simp add: parse_path_def decode_part_def Let_def case_prod_unfold)

lemma prepare_once_kept:
  "prepare_once env router st s = Inr (st', s') \<Longrightarrow> request_of st' = request_of st \<and> streams s' = streams s \<and>
   roster s' = roster s"
  by (auto simp: prepare_once_def fault_simps request_parse dest!: in_session_prepare split: if_splits)

lemma kept_streams_cong: "streams s' = streams s \<Longrightarrow> kept_streams s' = kept_streams s"
  by (simp add: kept_streams_def)

text \<open>The state after a stream whose request is unchanged has been put back.\<close>

definition keeps :: "HttpSession \<Rightarrow> HttpSession \<Rightarrow> bool" where
  "keeps s s' \<longleftrightarrow> kept_streams s' \<and> roster s' = roster s"

lemma roster_put:
  assumes "streams s i = Some st" and "st_id st' = i" and "st_serial st' = st_serial st" and "roster s' = roster s"
  shows "roster (put_stream st' s') = roster s"
proof -
  have "\<And>j. map_option st_serial (streams s' j) = map_option st_serial (streams s j)"
    using assms(4) unfolding roster_def by (metis prod.inject)
  then show ?thesis using assms by (auto simp: roster_def put_stream_def)
qed

lemma kept_put_request:
  assumes "kept_streams s" and "streams s i = Some st" and "request_of st' = request_of st"
    and "streams s' = streams s" and "roster s' = roster s"
  shows "keeps s (put_stream st' s')"
proof -
  have "kept_streams s'" using kept_streams_cong [OF assms(4)] assms(1) by simp
  moreover have "bounded (st_headers st')" "st_id st' = i" using kept_request [OF assms(1-3)] by simp_all
  moreover have "st_serial st' = st_serial st" using assms(3) by (simp add: request_of_def)
  ultimately show ?thesis using kept_put roster_put [OF assms(2) _ _ assms(5)] by (simp add: keeps_def)
qed

lemma keeps_upd [simp]:
  "keeps s (s'\<lparr>conn := c\<rparr>) = keeps s s'" "keeps s (s'\<lparr>wbuf := b\<rparr>) = keeps s s'"
  "keeps s (s'\<lparr>settings_timer := r\<rparr>) = keeps s s'" "keeps s (note_output t s') = keeps s s'"
  "keeps (s\<lparr>conn := c\<rparr>) s' = keeps s s'"
  by (simp_all add: keeps_def)

lemma keeps_refl: "kept_streams s \<Longrightarrow> keeps s s"
  by (simp add: keeps_def)

lemma keeps_trans: "keeps s s' \<Longrightarrow> keeps s' s'' \<Longrightarrow> keeps s s''"
  by (simp add: keeps_def)

lemma keeps_headers_case:
  assumes "kept_streams s" and "recv_headers_case env router f s = Inr (rv, s')"
  shows "keeps s s'"
proof (cases "streams s (f_stream f)")
  case (Some st)
  obtain c where "(if f_end_stream f then
        bindE (prepare_once env router st (s\<lparr>conn := c\<rparr>)) (\<lambda>(st, s). Inr (0, put_stream (stop_read_timeout st) s))
      else Inr (0, put_stream (reset_read_timeout st) (s\<lparr>conn := c\<rparr>))) = Inr (rv, s')"
    using assms(2) Some by (simp add: recv_headers_case_def Let_def)
  then show ?thesis
    using kept_put_request [OF assms(1) Some]
    by (auto simp: fault_simps dest!: prepare_once_kept split: if_splits)
qed (use assms in \<open>simp add: recv_headers_case_def keeps_refl\<close>)

lemma keeps_data_case:
  assumes "kept_streams s" and "recv_data_case env router f s = Inr (Some s')"
  shows "keeps s s'"
proof (cases "streams s (f_stream f)")
  case (Some st)
  then show ?thesis
    using assms kept_put_request [OF assms(1) Some]
    by (auto simp: recv_data_case_def fault_simps dest!: prepare_once_kept request_on_request split: if_splits)
qed (use assms in \<open>simp add: recv_data_case_def\<close>)

lemma keeps_frame_recv:
  assumes "kept_streams s" and "on_frame_recv_cb env router f s = Inr (rv, s')"
  shows "keeps s s'"
proof (cases "f_type f")
  case DATA
  then show ?thesis
    using assms keeps_refl [OF assms(1)] keeps_headers_case keeps_data_case [OF assms(1)] keeps_trans
    by (fastforce simp: on_frame_recv_cb_def fault_simps keeps_def split: option.splits)
qed (use assms keeps_refl keeps_headers_case in \<open>auto simp: on_frame_recv_cb_def split: if_splits\<close>)

lemma keeps_header_cb:
  assumes "kept_streams s"
  shows "keeps s (snd (on_header_cb f n v s))"
proof (cases "streams s (f_stream f)")
  case (Some st)
  have b: "bounded (st_headers st)" "st_id st = f_stream f" using assms Some by (auto simp: kept_streams_def)
  have "keeps s (put_stream (st\<lparr>st_headers := h\<rparr>) s)" if "bounded h" for h
    using assms kept_put [of s "st\<lparr>st_headers := h\<rparr>"] that roster_put [OF Some, of "st\<lparr>st_headers := h\<rparr>" s] b(2)
    by (simp add: keeps_def)
  then show ?thesis
    using bounded_add [OF b(1), of n v] keeps_refl [OF assms] kept_put_request [OF assms Some]
    by (auto simp: on_header_cb_def Some Let_def case_prod_unfold submit_rst_def)
qed (use keeps_refl [OF assms] in \<open>simp add: on_header_cb_def\<close>)

lemma kept_remove: "kept_streams s \<Longrightarrow> kept_streams (remove_stream i s)"
  by (auto simp: remove_stream_def kept_streams_def split: option.splits if_split_asm)

text \<open>Streams come and go in two places only.\<close>

lemma keeps_recv_step:
  assumes "kept_streams s" and "recv_step env router e s = Inr s'"
  shows "keeps s s' \<or> (\<exists>i. s' = remove_stream i s) \<or>
    (\<exists>i. streams s i = None \<and> s' = put_stream (reset_read_timeout (new_stream i (next_serial s))) (snd (create_stream i s)))"
proof (cases e)
  case (Recv_begin f)
  then show ?thesis
    using assms keeps_refl by (auto simp: recv_step_def on_begin_headers_cb_def create_stream_def split: option.splits if_splits)
next
  case (Recv_header f n v)
  then show ?thesis using assms keeps_header_cb by (auto simp: recv_step_def)
next
  case (Recv_frame f)
  then show ?thesis using assms by (auto simp: recv_step_def fault_simps dest: keeps_frame_recv)
next
  case (Recv_chunk i bs)
  then show ?thesis
    using assms keeps_refl kept_put_request [OF assms(1)]
    by (auto simp: recv_step_def on_data_chunk_recv_cb_def fault_simps split: option.splits
        dest!: request_on_request)
next
  case (Recv_close i)
  then show ?thesis using assms by (auto simp: recv_step_def on_stream_close_cb_def)
next
  case (Handler_call i op)
  then show ?thesis
    using assms keeps_refl kept_put_request [OF assms(1)]
    by (auto simp: recv_step_def in_session_def fault_simps split: option.splits dest!: request_step)
qed

lemma keeps_event: "kept_streams s \<Longrightarrow> event_cb i ev s = Inr s' \<Longrightarrow> keeps s s'"
  using kept_put_request [of s i]
  by (auto simp: event_cb_def fault_simps split: option.splits dest!: request_event(2))

lemma keeps_callback:
  assumes "kept_streams s" and "mem_send_callback env router a s = Inr s'"
  shows "keeps s s' \<or> (\<exists>i. s' = remove_stream i s)"
proof (cases a)
  case (Ng_read i len rc)
  then show ?thesis
    using assms kept_put_request [OF assms(1)]
    by (auto simp: mem_send_callback_def data_read_cb_def fault_simps Let_def submit_rst_def
        split: option.splits prod.splits if_splits)
next
  case (Ng_send i fh n pad scripts)
  then show ?thesis
    using assms keeps_refl kept_put_request [OF assms(1)]
    by (auto simp: mem_send_callback_def send_data_cb_def fault_simps Let_def split: option.splits if_splits)
next
  case (Ng_frame_sent f w)
  then show ?thesis
    using assms keeps_refl kept_put_request [OF assms(1)]
    by (auto simp: mem_send_callback_def on_frame_send_cb_def fault_simps split: option.splits if_splits
        dest!: in_session_prepare)
next
  case (Ng_close i)
  then show ?thesis using assms by (auto simp: mem_send_callback_def on_stream_close_cb_def)
qed (use assms keeps_refl in \<open>auto simp: mem_send_callback_def\<close>)

section \<open>The worker's set of living streams\<close>

text \<open>
  The set is exactly what others have in it and the streams of this session, all with different
  numbers below the counter, as long as the counter of 64 bits has not gone round: \<open>b + n\<close> is what
  it would be without a bound. \<open>c\<close> is how many streams had been opened at the start, and \<open>D\<close> are
  numbers given out before whose streams are gone: none of them comes back.
\<close>

fun enrolled :: "nat \<Rightarrow> nat \<Rightarrow> 64 word set \<Rightarrow> 64 word set \<Rightarrow> roster \<Rightarrow> bool" where
  "enrolled c b al D (m, nxt, n, a) \<longleftrightarrow> c \<le> n \<and>
     (b + n < 2 ^ 64 \<longrightarrow>
       unat nxt = b + n \<and> a = al \<union> ran m \<and> al \<inter> ran m = {} \<and> D \<inter> a = {} \<and>
       (\<forall>k \<in> a \<union> D. unat k < unat nxt) \<and> inj_on m (dom m))"

declare enrolled.simps [simp del]

lemma enrolled_remove:
  assumes "enrolled c b al D (m, nxt, n, a)" and "m i = Some k"
  shows "enrolled c b al D (m(i := None), nxt, n, a - {k})"
proof (cases "b + n < 2 ^ 64")
  case True
  then have e: "unat nxt = b + n" "a = al \<union> ran m" "al \<inter> ran m = {}" "D \<inter> a = {}"
    "\<forall>k \<in> a \<union> D. unat k < unat nxt" "inj_on m (dom m)"
    using assms(1) by (auto simp: enrolled.simps)
  have "k \<in> ran m" using assms(2) by (rule ranI)
  moreover have "ran (m(i := None)) = ran m - {k}"
    using assms(2) e(6) by (auto simp: ran_def inj_on_def dom_def split: if_split_asm) (metis option.inject)+
  moreover have "inj_on (m(i := None)) (dom (m(i := None)))" using e(6) by (auto simp: inj_on_def dom_def)
  ultimately show ?thesis using assms(1) e by (auto simp: enrolled.simps)
qed (use assms in \<open>simp add: enrolled.simps\<close>)

lemma enrolled_create:
  assumes "enrolled c b al D (m, nxt, n, a)" and "m i = None"
  shows "enrolled c b al D (m(i \<mapsto> nxt), nxt + 1, n + 1, insert nxt a)"
proof (cases "b + (n + 1) < 2 ^ 64")
  case True
  then have e: "unat nxt = b + n" "a = al \<union> ran m" "al \<inter> ran m = {}" "D \<inter> a = {}"
    "\<forall>k \<in> a \<union> D. unat k < unat nxt" "inj_on m (dom m)"
    using assms(1) by (auto simp: enrolled.simps)
  have "unat (nxt + 1) = unat nxt + 1" using True e(1) by (simp add: unat_word_ariths)
  moreover have "ran (m(i \<mapsto> nxt)) = insert nxt (ran m)" using assms(2) by simp
  moreover have "nxt \<notin> a \<union> D" using e(5) by blast
  moreover have "nxt \<notin> ran m" using calculation(3) e(2) by blast
  then have "inj_on (m(i \<mapsto> nxt)) (dom (m(i \<mapsto> nxt)))"
    using e(6) by (auto simp: inj_on_def dom_def ran_def)
  moreover have "\<forall>k \<in> a \<union> D. unat k < Suc (b + n)" using e(1,5) by (simp add: less_SucI)
  ultimately show ?thesis using assms(1) e(1-4) by (auto simp: enrolled.simps)
qed (use assms in \<open>simp add: enrolled.simps\<close>)

definition registered :: "nat \<Rightarrow> nat \<Rightarrow> 64 word set \<Rightarrow> 64 word set \<Rightarrow> HttpSession \<Rightarrow> bool" where
  "registered c b al D s \<longleftrightarrow> kept_streams s \<and> enrolled c b al D (roster s)"

lemma registered_keeps: "registered c b al D s \<Longrightarrow> keeps s s' \<Longrightarrow> registered c b al D s'"
  by (simp add: registered_def keeps_def)

lemma registered_remove:
  assumes "registered c b al D s"
  shows "registered c b al D (remove_stream i s)"
proof (cases "streams s i")
  case (Some st)
  have "roster (remove_stream i s) = ((\<lambda>j. map_option st_serial (streams s j))(i := None), next_serial s, created s,
      alive s - {st_serial st})"
    using Some by (auto simp: roster_def remove_stream_def)
  then show ?thesis
    using assms kept_remove enrolled_remove [of c b al D "\<lambda>j. map_option st_serial (streams s j)"] Some
    by (simp add: registered_def roster_def)
qed (use assms in \<open>simp add: remove_stream_def\<close>)

lemma registered_create:
  assumes "registered c b al D s" and "streams s i = None"
  shows "registered c b al D (put_stream (reset_read_timeout (new_stream i (next_serial s))) (snd (create_stream i s)))"
proof -
  let ?s = "put_stream (reset_read_timeout (new_stream i (next_serial s))) (snd (create_stream i s))"
  have "roster ?s = ((\<lambda>j. map_option st_serial (streams s j))(i \<mapsto> next_serial s), next_serial s + 1, created s + 1,
      insert (next_serial s) (alive s))"
    by (auto simp: roster_def put_stream_def create_stream_def new_stream_def reset_read_timeout_def)
  moreover have "kept_streams ?s"
    using assms(1) bounded_new [of i "next_serial s"]
    by (auto simp: registered_def kept_streams_def put_stream_def create_stream_def new_stream_def reset_read_timeout_def)
  ultimately show ?thesis
    using assms enrolled_create [of c b al D "\<lambda>j. map_option st_serial (streams s j)"]
    by (simp add: registered_def roster_def)
qed

interpretation registered: session_invariant "registered n b al D"
proof unfold_locales
  fix s assume r: "registered n b al D s"
  then have k: "kept_streams s" by (simp add: registered_def)
  show "recv_step env router e s = Inr s' \<Longrightarrow> registered n b al D s'" for env router e s'
    using keeps_recv_step [OF k] registered_keeps [OF r] registered_remove [OF r] registered_create [OF r] by blast
  show "mem_send_callback env router a s = Inr s' \<Longrightarrow> registered n b al D s'" for env router a s'
    using keeps_callback [OF k] registered_keeps [OF r] registered_remove [OF r] by blast
  show "registered n b al D (snd (flush_pending s))"
    using r by (auto simp: registered_def flush_pending_def split: option.splits prod.splits if_splits)
  show "ssl_write w (pending (wbuf s)) s = (rv, s') \<Longrightarrow>
      registered n b al D (if rv \<le> 0 then s' else s'\<lparr>wbuf := snd (drain (nat rv) (wbuf s'))\<rparr>)" for w rv s'
    using r by (auto simp: registered_def ssl_write_def Let_def split: ssl_write_answer.splits)
  show "streams s i = Some st \<Longrightarrow>
      submit_rst NGHTTP2_INTERNAL_ERROR (stop_write_timeout (stop_read_timeout st)) (conn s) = (st', c) \<Longrightarrow>
      registered n b al D (put_stream st' (s\<lparr>conn := c\<rparr>))" for i st st' c
    using kept_put_request [OF k] registered_keeps [OF r] by (auto simp: submit_rst_def)
  show "event_cb i ev s = Inr s' \<Longrightarrow> registered n b al D s'" for i ev s'
    using keeps_event [OF k] registered_keeps [OF r] by blast
qed (auto simp: registered_def)

lemma registered_new:
  "\<forall>k \<in> al. unat k < unat k0 \<Longrightarrow> registered 0 (unat k0) al {} (new_session garbage w k0 al)"
  "registered 0 (2 ^ 64) al {} (new_session garbage w k0 al)"
  by (simp_all add: registered_def kept_streams_def roster_def new_session_def enrolled.simps)

lemma registered_roster:
  assumes "registered c b al D s" and "b + created s < 2 ^ 64"
  shows "alive s = al \<union> {st_serial st | i st. streams s i = Some st}"
    and "al \<inter> {st_serial st | i st. streams s i = Some st} = {}"
    and "inj_on (\<lambda>i. map_option st_serial (streams s i)) (dom (streams s))"
proof -
  let ?m = "\<lambda>i. map_option st_serial (streams s i)"
  have ran: "ran ?m = {st_serial st | i st. streams s i = Some st}" by (auto simp: ran_def)
  have e: "alive s = al \<union> ran ?m" "al \<inter> ran ?m = {}" "inj_on ?m (dom ?m)"
    using assms by (auto simp: registered_def roster_def enrolled.simps)
  show "alive s = al \<union> {st_serial st | i st. streams s i = Some st}"
    "al \<inter> {st_serial st | i st. streams s i = Some st} = {}"
    "inj_on ?m (dom (streams s))"
    using e unfolding ran by (simp_all add: dom_def)
qed

section \<open>Properties\<close>

text \<open>
  Of one session: in every state it reaches (with fewer than
  \<open>2 ^ 64\<close> streams opened on the worker), the set \<open>is_stream_alive\<close> asks is what it was before and
  the serial numbers of the session's streams, no two of them equal, and each stream is filed under
  its own identifier. So a stream that was closed or replaced is never taken for one that lives.
\<close>

theorem streams_registered:
  assumes "reachable env router (new_session garbage w k0 al) s"
    and "\<forall>k \<in> al. unat k < unat k0" and "unat k0 + created s < 2 ^ 64"
  shows "alive s = al \<union> {st_serial st | i st. streams s i = Some st} \<and>
    (\<forall>i st. streams s i = Some st \<longrightarrow> st_id st = i \<and> st_serial st \<notin> al) \<and>
    (\<forall>i j st st'. streams s i = Some st \<longrightarrow> streams s j = Some st' \<longrightarrow> st_serial st = st_serial st' \<longrightarrow> i = j)"
proof -
  have r: "registered 0 (unat k0) al {} s"
    by (rule registered.reachable_inv [OF assms(1) registered_new(1) [OF assms(2)]])
  note e = registered_roster [OF r assms(3)]
  have "st_serial st \<notin> al" if "streams s i = Some st" for i st
    using e(2) that by blast
  moreover have "st_id st = i" if "streams s i = Some st" for i st
    using that r by (auto simp: registered_def kept_streams_def)
  moreover have "i = j" if "streams s i = Some st" "streams s j = Some st'" "st_serial st = st_serial st'" for i j st st'
    using that inj_onD [OF e(3), of i j] by (auto simp: dom_def)
  ultimately show ?thesis using e(1) by blast
qed


lemma data_frame_continue:
  assumes "streams s i = Some st" and "st_id st = i" and "st_prepared st" and "expect (st_headers st) = Some v"
    and "streq_l ''100-continue'' (rbytes v)" and "f_type f = DATA" and "f_stream f = i" and "f_cat f" and "\<not> f_end_stream f"
  shows "on_frame_recv_cb env router f s =
    Inr (0, put_stream (reset_read_timeout st) (s\<lparr>conn := submit_non_final_response ''100'' st (conn s)\<rparr>))"
proof -
  have "recv_data_case env router f s = Inr (Some (put_stream (reset_read_timeout st) s))"
    using assms by (simp add: recv_data_case_def prepare_once_def)
  then show ?thesis
    using assms by (auto simp: on_frame_recv_cb_def recv_headers_case_def put_stream_def reset_read_timeout_def
        submit_non_final_response_def fun_upd_twist)
qed

text \<open>
  The case of a DATA frame falls through into that of HEADERS, which reads a member of the frame
  it does not have. While that member reads as zero (a request), every further DATA frame of a
  request that expects \<open>100-continue\<close> has the server submit another interim response, also when
  its final one has long been submitted.
\<close>

theorem data_repeats_continue:
  assumes "streams s i = Some st" and "st_id st = i" and "st_prepared st" and "expect (st_headers st) = Some v"
    and "streq_l ''100-continue'' (rbytes v)" and "f_type f = DATA" and "f_stream f = i" and "f_cat f" and "\<not> f_end_stream f"
  shows "\<exists>s'. recv_steps env router (replicate n (Recv_frame f)) s = Inr s' \<and>
    ng_calls (conn s') = ng_calls (conn s) @ replicate n (Submit_headers i [make_nv '':status'' ''100'' (False, False)])"
  using assms(1-4)
proof (induction n arbitrary: s st)
  case (Suc n)
  note once = data_frame_continue [OF Suc.prems assms(5-9), of env router]
  let ?st = "reset_read_timeout st" and ?c = "submit_non_final_response ''100'' st (conn s)"
  have "\<exists>s'. recv_steps env router (replicate n (Recv_frame f)) (put_stream ?st (s\<lparr>conn := ?c\<rparr>)) = Inr s' \<and>
      ng_calls (conn s') = ng_calls (conn (put_stream ?st (s\<lparr>conn := ?c\<rparr>))) @
        replicate n (Submit_headers i [make_nv '':status'' ''100'' (False, False)])"
    using Suc.prems by (intro Suc.IH [of _ ?st]) (simp_all add: put_stream_def reset_read_timeout_def)
  then show ?case
    using once Suc.prems(2)
    by (auto simp: recv_step_def put_stream_def submit_non_final_response_def call_nghttp2_def)
qed simp


section \<open>A session with a request\<close>

lemma idle_write:
  assumes "rleft (wbuf s) = 0" and "data_pending s = None"
  shows "write_loop env router True ssl (Ng_nothing # ng) s =
    Inr (0, s\<lparr>wbuf := buf_reset (wbuf s), conn := (conn s)\<lparr>wev := False\<rparr>\<rparr>, ssl, ng)"
  using assms by (simp add: write_loop.simps [of env router True ssl "Ng_nothing # ng" s] fill_wb_def
      flush_pending_def rleft_def buf_reset_def)

definition request_frame :: Frame where
  "request_frame = \<lparr>f_type = HEADERS, f_stream = 1, f_end_stream = False, f_ack = False, f_cat = True, f_promised = 0\<rparr>"

definition sample_ready :: HttpSession where
  "sample_ready = sample_session\<lparr>running := True, has_session := True, wbuf := buf_reset (wbuf sample_session),
     conn := \<lparr>ng_calls = [Submit_settings], wev = False\<rparr>\<rparr>"

lemma sample_ready_made:
  "on_write sample_env sample_router True sample_handshake [] [Ng_nothing] sample_session = Inr (0, sample_ready, [], [])"
  by (simp add: on_write_def tls_handshake_def connection_made_def sample_handshake_def verify_npn_def
      check_h2_is_selected_def check_http2_requirements_def is_cipher_banned_def sample_session_def new_session_def
      idle_write rleft_def new_buffer_def sample_ready_def buf_reset_def)

lemma sample_request:
  "\<exists>s st. reachable sample_env sample_router sample_session s \<and> streams s = [1 \<mapsto> st] \<and> created s = 1 \<and>
     running s \<and> next_serial s = 1 \<and> st_serial st = 0 \<and> expect (st_headers st) = Some (Rcbuf 2 ''100-continue'') \<and> buffer_size (st_headers st) = 18"
proof -
  let ?n = "Rcbuf 1 ''expect''" and ?v = "Rcbuf 2 ''100-continue''"
  have look: "lookup_header ''expect'' = EXPECT" by (simp add: lookup_header_def streq_l_n_def)
  let ?st0 = "reset_read_timeout (new_stream 1 0)"
  let ?k = "length ''expect'' + length ''100-continue''"
  let ?st = "?st0\<lparr>st_headers := (st_headers ?st0)\<lparr>buffer_size := ?k, expect := Some ?v\<rparr>\<rparr>"
  let ?s = "sample_ready\<lparr>next_serial := 1, created := 1, alive := {0}, streams := [1 \<mapsto> ?st]\<rparr>"
  have empty: "streams sample_ready = Map.empty" "next_serial sample_ready = 0" "created sample_ready = 0"
    "alive sample_ready = {}" "rleft (wbuf sample_ready) = 0" "data_pending sample_ready = None" "running sample_ready"
    by (simp_all add: sample_ready_def sample_session_def new_session_def rleft_def buf_reset_def)
  have "recv_steps sample_env sample_router [Recv_begin request_frame, Recv_header request_frame ?n ?v] sample_ready = Inr ?s"
    using empty look
    by (simp add: recv_step_def on_begin_headers_cb_def on_header_cb_def request_frame_def create_stream_def
        put_stream_def new_stream_def reset_read_timeout_def no_headers_def add_header_def Let_def)
  moreover have "write_loop sample_env sample_router True [] [Ng_nothing] ?s =
      Inr (0, ?s\<lparr>wbuf := buf_reset (wbuf ?s), conn := (conn ?s)\<lparr>wev := False\<rparr>\<rparr>, [], [])"
    using empty by (intro idle_write) simp_all
  ultimately have "on_read sample_env sample_router True sample_handshake
      [Read_chunk [Recv_begin request_frame, Recv_header request_frame ?n ?v] 0, Read_wants_read] [] [Ng_nothing] sample_ready =
      Inr (0, ?s\<lparr>wbuf := buf_reset (wbuf ?s), conn := (conn ?s)\<lparr>wev := False\<rparr>\<rparr>)"
    using empty(7) by (simp add: on_read_def)
  from session_step.readable [OF this]
  have "reachable sample_env sample_router sample_session (?s\<lparr>wbuf := buf_reset (wbuf ?s), conn := (conn ?s)\<lparr>wev := False\<rparr>\<rparr>)"
    using reachable.move [OF reachable.move [OF reachable.start session_step.writable [OF sample_ready_made]]] by simp
  moreover have "st_serial ?st = 0" "expect (st_headers ?st) = Some ?v" "buffer_size (st_headers ?st) = 18"
    by (simp_all add: new_stream_def reset_read_timeout_def)
  moreover have "streams (?s\<lparr>wbuf := buf_reset (wbuf ?s), conn := (conn ?s)\<lparr>wev := False\<rparr>\<rparr>) = [1 \<mapsto> ?st]"
    "created (?s\<lparr>wbuf := buf_reset (wbuf ?s), conn := (conn ?s)\<lparr>wev := False\<rparr>\<rparr>) = 1"
    "next_serial (?s\<lparr>wbuf := buf_reset (wbuf ?s), conn := (conn ?s)\<lparr>wev := False\<rparr>\<rparr>) = 1"
    "running (?s\<lparr>wbuf := buf_reset (wbuf ?s), conn := (conn ?s)\<lparr>wev := False\<rparr>\<rparr>)"
    using empty(7) by simp_all
  ultimately show ?thesis by blast
qed

theorem streams_registered_witness:
  "\<exists>s st. reachable sample_env sample_router sample_session s \<and> streams s = [1 \<mapsto> st] \<and> alive s = {st_serial st} \<and> st_id st = 1"
proof -
  obtain s st where s: "reachable sample_env sample_router sample_session s" "streams s = [1 \<mapsto> st]" "created s = 1"
    using sample_request by blast
  then have "alive s = {} \<union> {st_serial st | i st. streams s i = Some st} \<and>
    (\<forall>i st. streams s i = Some st \<longrightarrow> st_id st = i \<and> st_serial st \<notin> {}) \<and>
    (\<forall>i j st st'. streams s i = Some st \<longrightarrow> streams s j = Some st' \<longrightarrow> st_serial st = st_serial st' \<longrightarrow> i = j)"
    by (intro streams_registered [of sample_env sample_router garbage_buffer empty_store 0]) (simp_all add: sample_session_def)
  then have "alive s = {st_serial st | i st. streams s i = Some st}" "streams s 1 = Some st \<longrightarrow> st_id st = 1"
    by blast+
  moreover have "{st_serial st | i st. streams s i = Some st} = {st_serial st}" using s(2) by (auto split: if_splits)
  ultimately show ?thesis using s(1,2) by (intro exI [of _ s] exI [of _ st]) simp
qed


theorem data_repeats_continue_witness:
  "\<exists>s s'. recv_steps sample_env sample_router (replicate 3 (Recv_frame (request_frame\<lparr>f_type := DATA\<rparr>))) s = Inr s' \<and>
     ng_calls (conn s') = ng_calls (conn s) @ replicate 3 (Submit_headers 1 [make_nv '':status'' ''100'' (False, False)])"
proof -
  let ?st = "(new_stream 1 0)\<lparr>st_prepared := True, st_headers := no_headers\<lparr>expect := Some (Rcbuf 2 ''100-continue'')\<rparr>\<rparr>"
  let ?s = "put_stream ?st sample_session"
  have "streams ?s 1 = Some ?st" "st_id ?st = 1" by (simp_all add: put_stream_def new_stream_def)
  then show ?thesis
    using data_repeats_continue [of ?s 1 ?st "Rcbuf 2 ''100-continue''" "request_frame\<lparr>f_type := DATA\<rparr>" sample_env sample_router 3]
    by (auto simp: streq_l_refl request_frame_def)
qed


end
