(* ===== verification/Worker_Sessions.thy ===== *)
theory Worker_Sessions
  imports Session_Streams
begin

text \<open>
  All the connections of a worker together (\<open>worker.cc\<close>, \<open>worker.h\<close>): the list of its sessions, and
  what they share: the counter of serial numbers, the set of living streams and the files.

  A session reads and writes the shared members through its pointer to the worker. Here a session
  is lent them before it runs (\<open>enter\<close>), and they are taken back after it (\<open>leave\<close>).
\<close>

section \<open>The sessions of a worker\<close>

text \<open>\<open>w_created\<close> is history: how many streams have been opened.\<close>

record HttpWorker =
  w_sessions :: "HttpSession list"
  w_serial :: "64 word"
  w_created :: nat
  w_alive :: "64 word set"
  w_files :: FileStore

definition new_http_worker :: "FileStore \<Rightarrow> HttpWorker" where
  "new_http_worker fs = \<lparr>w_sessions = [], w_serial = 0, w_created = 0, w_alive = {}, w_files = fs\<rparr>"

definition enter :: "HttpWorker \<Rightarrow> HttpSession \<Rightarrow> HttpSession" where
  "enter w s = s\<lparr>next_serial := w_serial w, created := w_created w, alive := w_alive w, store := w_files w\<rparr>"

definition leave :: "nat \<Rightarrow> HttpSession \<Rightarrow> HttpWorker \<Rightarrow> HttpWorker" where
  "leave k s w = w\<lparr>w_sessions := (w_sessions w)[k := s], w_serial := next_serial s, w_created := created s,
     w_alive := alive s, w_files := store s\<rparr>"

definition is_stream_alive :: "64 word \<Rightarrow> HttpWorker \<Rightarrow> bool" where
  "is_stream_alive serial w \<longleftrightarrow> serial \<in> w_alive w"

text \<open>
  \<open>sessions_.emplace_front\<close>. The buffer's array is not initialised; \<open>garbage\<close> is what is in it.
\<close>

definition add_http_session :: "byte list \<Rightarrow> HttpWorker \<Rightarrow> HttpWorker" where
  "add_http_session garbage w =
     w\<lparr>w_sessions := new_session garbage (w_files w) (w_serial w) (w_alive w) # w_sessions w\<rparr>"

text \<open>
  \<open>sessions_.erase\<close>: the session's map of streams is destroyed, each stream removing itself from the
  set of living ones. \<open>ids\<close> is the order in which the map is gone through.
\<close>

definition erase_session :: "int list \<Rightarrow> nat \<Rightarrow> HttpWorker \<Rightarrow> HttpWorker" where
  "erase_session ids k w =
     (let w = leave k (fold remove_stream ids (enter w (w_sessions w ! k))) w
      in w\<lparr>w_sessions := take k (w_sessions w) @ drop (Suc k) (w_sessions w)\<rparr>)"

text \<open>
  What the event loop runs: connections come, watchers and timers of a session fire, a handler is
  called from outside its session (an answer of the database) while its stream lives, a file on
  disk changes. A session whose callback gives \<open>-1\<close> is erased.
\<close>

inductive http_worker_step :: "Env \<Rightarrow> HttpRouter \<Rightarrow> HttpWorker \<Rightarrow> HttpWorker \<Rightarrow> bool" for env router where
  connects: "http_worker_step env router w (add_http_session garbage w)"
| runs: "k < length (w_sessions w) \<Longrightarrow> session_step env router (enter w (w_sessions w ! k)) rv s' \<Longrightarrow> rv \<noteq> - 1 \<Longrightarrow>
    http_worker_step env router w (leave k s' w)"
| ends: "k < length (w_sessions w) \<Longrightarrow> session_step env router (enter w (w_sessions w ! k)) (- 1) s' \<Longrightarrow>
    set ids = dom (streams s') \<Longrightarrow> distinct ids \<Longrightarrow>
    http_worker_step env router w (erase_session ids k (leave k s' w))"
| answers: "k < length (w_sessions w) \<Longrightarrow> streams (w_sessions w ! k) i = Some st \<Longrightarrow> is_stream_alive (st_serial st) w \<Longrightarrow>
    recv_step env router (Handler_call i op) (enter w (w_sessions w ! k)) = Inr s' \<Longrightarrow>
    http_worker_step env router w (leave k s' w)"
| file_changes: "http_worker_step env router w (w\<lparr>w_files := update_cb e nlink info (w_files w)\<rparr>)"

inductive http_worker_run :: "Env \<Rightarrow> HttpRouter \<Rightarrow> HttpWorker \<Rightarrow> HttpWorker \<Rightarrow> bool" for env router w0 where
  start: "http_worker_run env router w0 w0"
| more: "http_worker_run env router w0 w \<Longrightarrow> http_worker_step env router w w' \<Longrightarrow> http_worker_run env router w0 w'"

section \<open>Who lives\<close>

definition serials :: "HttpSession \<Rightarrow> 64 word set" where
  "serials s = {st_serial st | i st. streams s i = Some st}"

definition serials_of :: "HttpSession list \<Rightarrow> 64 word set" where
  "serials_of ss = \<Union> (serials ` set ss)"

definition unlike :: "HttpSession \<Rightarrow> bool" where
  "unlike s \<longleftrightarrow> inj_on (\<lambda>i. map_option st_serial (streams s i)) (dom (streams s))"

text \<open>The streams of a session have different serial numbers, and no two sessions share one.\<close>

primrec apart :: "HttpSession list \<Rightarrow> bool" where
  "apart [] = True"
| "apart (s # ss) \<longleftrightarrow> unlike s \<and> serials s \<inter> serials_of ss = {} \<and> apart ss"

definition linked :: "64 word set \<Rightarrow> HttpWorker \<Rightarrow> bool" where
  "linked D w \<longleftrightarrow> (\<forall>s \<in> set (w_sessions w). kept_streams s) \<and>
     (w_created w < 2 ^ 64 \<longrightarrow>
        unat (w_serial w) = w_created w \<and> w_alive w = serials_of (w_sessions w) \<and> D \<inter> w_alive w = {} \<and>
        (\<forall>k \<in> w_alive w \<union> D. unat k < unat (w_serial w)) \<and> apart (w_sessions w))"

lemma serials_of_simps [simp]:
  "serials_of [] = {}" "serials_of (s # ss) = serials s \<union> serials_of ss" "serials_of (xs @ ys) = serials_of xs \<union> serials_of ys"
  by (auto simp: serials_of_def)

lemma apart_split: "apart (xs @ s # ys) \<longleftrightarrow> apart (xs @ ys) \<and> unlike s \<and> serials s \<inter> serials_of (xs @ ys) = {}"
  by (induction xs) auto

lemma enter_simps [simp]:
  "serials (enter w s) = serials s" "kept_streams (enter w s) = kept_streams s" "unlike (enter w s) = unlike s"
  by (simp_all add: serials_def enter_def kept_streams_def unlike_def)

lemma serials_ran: "ran (\<lambda>i. map_option st_serial (streams s i)) = serials s"
  by (auto simp: ran_def serials_def)

lemma linked_enter:
  assumes "linked D w" and "w_sessions w = xs @ s # ys"
  shows "registered (w_created w) 0 (serials_of (xs @ ys)) D (enter w s)"
  using assms by (auto simp: linked_def registered_def roster_def enrolled.simps serials_ran apart_split unlike_def enter_def
      kept_streams_def dom_def)

lemma linked_leave:
  assumes "linked D w" and "w_sessions w = xs @ s # ys" and "registered (w_created w) 0 (serials_of (xs @ ys)) D s'"
  shows "linked D (leave (length xs) s' w)"
proof -
  have c: "w_created w \<le> created s'" "kept_streams s'"
    using assms(3) by (auto simp: registered_def roster_def enrolled.simps)
  have e: "unat (next_serial s') = created s'" "alive s' = serials_of (xs @ ys) \<union> serials s'"
    "serials s' \<inter> serials_of (xs @ ys) = {}" "D \<inter> alive s' = {}"
    "\<forall>k \<in> alive s' \<union> D. unat k < unat (next_serial s')" "unlike s'"
    if "created s' < 2 ^ 64"
    using assms(3) that by (auto simp: registered_def roster_def enrolled.simps serials_ran unlike_def dom_def)
  have "(w_sessions w)[length xs := s'] = xs @ s' # ys" using assms(2) by simp
  then show ?thesis
    using assms(1,2) c e by (auto simp: linked_def leave_def apart_split)
qed

text \<open>A session that has been erased takes its streams with it.\<close>

lemma registered_destroy: "registered c b al D s \<Longrightarrow> registered c b al D (fold remove_stream ids s)"
  by (induction ids arbitrary: s) (simp_all add: registered_remove)

lemma streams_destroy: "streams (fold remove_stream ids s) = (\<lambda>i. if i \<in> set ids then None else streams s i)"
  by (induction ids arbitrary: s) (auto simp: remove_stream_def fun_eq_iff split: option.splits)

lemma linked_drop:
  assumes "linked D w" and "w_sessions w = xs @ s # ys" and "serials s = {}"
  shows "linked D (w\<lparr>w_sessions := xs @ ys\<rparr>)"
  using assms by (auto simp: linked_def apart_split)

lemma linked_erase:
  assumes "linked D w" and "w_sessions w = xs @ s # ys" and "set ids = dom (streams s)"
  shows "linked D (erase_session ids (length xs) w)"
proof -
  let ?s = "fold remove_stream ids (enter w s)"
  have l: "linked D (leave (length xs) ?s w)"
    using assms(1,2) linked_enter registered_destroy linked_leave by blast
  have "serials ?s = {}" using assms(3) by (auto simp: serials_def streams_destroy enter_def)
  then have "linked D ((leave (length xs) ?s w)\<lparr>w_sessions := xs @ ys\<rparr>)"
    using assms(2) by (intro linked_drop [OF l]) (simp_all add: leave_def)
  then show ?thesis using assms(2) by (simp add: erase_session_def leave_def)
qed

lemma step_linked: "http_worker_step env router w w' \<Longrightarrow> linked D w \<Longrightarrow> linked D w'"
proof (induction rule: http_worker_step.induct)
  case (connects w garbage)
  have "streams (new_session garbage fs k al) = Map.empty" for fs k al by (simp add: new_session_def)
  then show ?case using connects
    by (auto simp: linked_def add_http_session_def unlike_def serials_def kept_streams_def)
next
  case (runs k w rv s')
  let ?xs = "take k (w_sessions w)" and ?ys = "drop (Suc k) (w_sessions w)"
  have w: "w_sessions w = ?xs @ w_sessions w ! k # ?ys" using runs by (simp add: id_take_nth_drop)
  have "registered (w_created w) 0 (serials_of (?xs @ ?ys)) D s'"
    by (rule registered.step_inv [OF runs(2) linked_enter [OF runs(4) w]])
  from linked_leave [OF runs(4) w this] show ?case using runs(1) by simp
next
  case (ends k w s' ids)
  let ?xs = "take k (w_sessions w)" and ?ys = "drop (Suc k) (w_sessions w)"
  have w: "w_sessions w = ?xs @ w_sessions w ! k # ?ys" using ends by (simp add: id_take_nth_drop)
  have "registered (w_created w) 0 (serials_of (?xs @ ?ys)) D s'"
    by (rule registered.step_inv [OF ends(2) linked_enter [OF ends(5) w]])
  from linked_leave [OF ends(5) w this] have l: "linked D (leave k s' w)" using ends(1) by simp
  have "w_sessions (leave k s' w) = ?xs @ s' # ?ys"
    using ends(1) by (simp add: leave_def upd_conv_take_nth_drop)
  from linked_erase [OF l this ends(3)] show ?case using ends(1) by simp
next
  case (answers k w i st op s')
  let ?xs = "take k (w_sessions w)" and ?ys = "drop (Suc k) (w_sessions w)"
  have w: "w_sessions w = ?xs @ w_sessions w ! k # ?ys" using answers by (simp add: id_take_nth_drop)
  have "registered (w_created w) 0 (serials_of (?xs @ ?ys)) D s'"
    by (rule registered.recv_law [OF linked_enter [OF answers(5) w] answers(4)])
  from linked_leave [OF answers(5) w this] show ?case using answers(1) by simp
next
  case (file_changes w e nlink info)
  have "linked D (w\<lparr>w_files := x\<rparr>) = linked D w" for x by (simp add: linked_def)
  then show ?case using file_changes by simp
qed

lemma run_linked: "http_worker_run env router w0 w \<Longrightarrow> linked D w0 \<Longrightarrow> linked D w"
proof (induction rule: http_worker_run.induct)
  case (more w w')
  then show ?case using step_linked by blast
qed

lemma new_linked: "linked {} (new_http_worker fs)"
  by (simp add: linked_def new_http_worker_def)

lemma apart_nth:
  "apart ss \<Longrightarrow> n < length ss \<Longrightarrow> m < length ss \<Longrightarrow> k \<in> serials (ss ! n) \<Longrightarrow> k \<in> serials (ss ! m) \<Longrightarrow> n = m"
proof (induction ss arbitrary: n m)
  case (Cons s ss)
  have "k \<in> serials (ss ! i) \<Longrightarrow> i < length ss \<Longrightarrow> k \<in> serials_of ss" for i by (auto simp: serials_of_def)
  then show ?case using Cons by (auto simp: nth_Cons split: nat.splits)
qed simp

definition stream_at :: "HttpWorker \<Rightarrow> nat \<Rightarrow> int \<Rightarrow> Stream option" where
  "stream_at w n i = (if n < length (w_sessions w) then streams (w_sessions w ! n) i else None)"

lemma linked_alive:
  assumes "linked D w" and "w_created w < 2 ^ 64"
  shows "is_stream_alive k w \<longleftrightarrow> (\<exists>n i st. stream_at w n i = Some st \<and> st_serial st = k)"
    and "stream_at w n i = Some st \<Longrightarrow> stream_at w m j = Some st' \<Longrightarrow> st_serial st = st_serial st' \<Longrightarrow> n = m \<and> i = j"
proof -
  have l: "w_alive w = serials_of (w_sessions w)" "apart (w_sessions w)" using assms by (auto simp: linked_def)
  show "is_stream_alive k w \<longleftrightarrow> (\<exists>n i st. stream_at w n i = Some st \<and> st_serial st = k)"
  proof
    assume "is_stream_alive k w"
    then obtain s where "s \<in> set (w_sessions w)" "k \<in> serials s" by (auto simp: is_stream_alive_def l(1) serials_of_def)
    then obtain n i st where "n < length (w_sessions w)" "streams (w_sessions w ! n) i = Some st" "st_serial st = k"
      by (auto simp: in_set_conv_nth serials_def)
    then show "\<exists>n i st. stream_at w n i = Some st \<and> st_serial st = k"
      by (intro exI [of _ n] exI [of _ i] exI [of _ st]) (simp add: stream_at_def)
  next
    assume "\<exists>n i st. stream_at w n i = Some st \<and> st_serial st = k"
    then show "is_stream_alive k w"
      by (force simp: is_stream_alive_def l(1) serials_of_def serials_def stream_at_def split: if_splits)
  qed
  assume st: "stream_at w n i = Some st" "stream_at w m j = Some st'" "st_serial st = st_serial st'"
  then have s: "n < length (w_sessions w)" "streams (w_sessions w ! n) i = Some st"
    "m < length (w_sessions w)" "streams (w_sessions w ! m) j = Some st'"
    by (auto simp: stream_at_def split: if_splits)
  then have "st_serial st \<in> serials (w_sessions w ! n)" "st_serial st \<in> serials (w_sessions w ! m)"
    unfolding serials_def using st(3) by (blast, metis (mono_tags) mem_Collect_eq)
  then have eq: "n = m" using apart_nth [OF l(2) s(1,3)] by blast
  have "unlike (w_sessions w ! n)"
    using l(2) id_take_nth_drop [OF s(1)] apart_split by metis
  then have "i = j"
    using s(2,4) st(3) eq inj_onD [of "\<lambda>i. map_option st_serial (streams (w_sessions w ! n) i)" _ i j]
    by (auto simp: unlike_def)
  with eq show "n = m \<and> i = j" by simp
qed

text \<open>
  A serial number that was given out and whose stream has been closed, or went with its connection,
  is never alive again, whatever is opened later.
\<close>

lemma gone_stays:
  assumes "http_worker_run env router (new_http_worker fs) w" and "w_created w < 2 ^ 64"
    and "unat k < unat (w_serial w)" and "\<not> is_stream_alive k w"
    and "http_worker_run env router w w'" and "w_created w' < 2 ^ 64"
  shows "\<not> is_stream_alive k w'"
proof -
  have l: "linked {} w" by (rule run_linked [OF assms(1) new_linked])
  have "linked {k} w" using l assms(2-4) unfolding linked_def is_stream_alive_def by blast
  from run_linked [OF assms(5) this] show ?thesis using assms(6) unfolding linked_def is_stream_alive_def by blast
qed

section \<open>Properties\<close>

text \<open>
  C7. The worker always knows which streams live: whatever its connections do, in whatever order,
  and however they end (with fewer than \<open>2 ^ 64\<close> streams opened), \<open>is_stream_alive\<close> is true of
  exactly the serial numbers of the streams of its sessions, and a serial number is that of one
  stream of one session only.
\<close>

theorem worker_streams_registered:
  assumes "http_worker_run env router (new_http_worker fs) w" and "w_created w < 2 ^ 64"
  shows "(is_stream_alive k w \<longleftrightarrow> (\<exists>n i st. stream_at w n i = Some st \<and> st_serial st = k)) \<and>
    (\<forall>n i st m j st'. stream_at w n i = Some st \<longrightarrow> stream_at w m j = Some st' \<longrightarrow> st_serial st = st_serial st' \<longrightarrow>
       n = m \<and> i = j)"
proof -
  have l: "linked {} w" by (rule run_linked [OF assms(1) new_linked])
  show ?thesis using linked_alive(1) [OF l assms(2)] linked_alive(2) [OF l assms(2)] by blast
qed

section \<open>A worker with a connection that ends\<close>

text \<open>What a session does alone is what it does on a worker that has no other.\<close>

lemma solo_run:
  "reachable env router (new_session garbage fs 0 {}) s \<Longrightarrow>
   http_worker_run env router (new_http_worker fs)
     \<lparr>w_sessions = [s], w_serial = next_serial s, w_created = created s, w_alive = alive s, w_files = store s\<rparr>"
proof (induction rule: reachable.induct)
  case start
  have "add_http_session garbage (new_http_worker fs) =
      (let s = new_session garbage fs 0 {} in
       \<lparr>w_sessions = [s], w_serial = next_serial s, w_created = created s, w_alive = alive s, w_files = store s\<rparr>)"
    by (simp add: add_http_session_def new_http_worker_def new_session_def)
  then show ?case
    using http_worker_run.more [OF http_worker_run.start http_worker_step.connects] by (metis (no_types, lifting))
next
  case (move s rv s')
  let ?w = "\<lparr>w_sessions = [s], w_serial = next_serial s, w_created = created s, w_alive = alive s, w_files = store s\<rparr>"
  have "enter ?w s = s" by (simp add: enter_def)
  then have "http_worker_step env router ?w (leave 0 s' ?w)"
    using move by (intro http_worker_step.runs) simp_all
  from http_worker_run.more [OF move.IH this] show ?case by (simp add: leave_def)
qed

lemma sample_worker:
  "\<exists>w s st. http_worker_run sample_env sample_router (new_http_worker empty_store) w \<and> w_sessions w = [s] \<and>
     streams s = [1 \<mapsto> st] \<and> st_serial st = 0 \<and> running s \<and> w_created w = 1 \<and> w_serial w = 1 \<and> enter w s = s \<and>
     created s = 1 \<and> next_serial s = 1"
proof -
  obtain s st where s: "reachable sample_env sample_router sample_session s" "streams s = [1 \<mapsto> st]" "created s = 1"
    "running s" "next_serial s = 1" "st_serial st = 0" using sample_request by blast
  let ?w = "\<lparr>w_sessions = [s], w_serial = next_serial s, w_created = created s, w_alive = alive s, w_files = store s\<rparr>"
  have "enter ?w s = s" by (simp add: enter_def)
  then show ?thesis using s solo_run [of sample_env sample_router garbage_buffer empty_store s]
    by (intro exI [of _ ?w] exI [of _ s] exI [of _ st]) (simp add: sample_session_def)
qed

text \<open>The peer goes away; the worker erases the session.\<close>

lemma sample_worker_ended:
  "\<exists>w. http_worker_run sample_env sample_router (new_http_worker empty_store) w \<and> w_sessions w = [] \<and>
     w_created w = 1 \<and> w_serial w = 1"
proof -
  obtain w s st where w: "http_worker_run sample_env sample_router (new_http_worker empty_store) w" "w_sessions w = [s]"
    "streams s = [1 \<mapsto> st]" "running s" "w_created w = 1" "w_serial w = 1" "enter w s = s"
    "created s = 1" "next_serial s = 1"
    using sample_worker by blast
  have "on_read sample_env sample_router True sample_handshake [Read_error] [] [] s = Inr (- 1, s)"
    using w(4) by (simp add: on_read_def)
  then have "session_step sample_env sample_router (enter w s) (- 1) s"
    unfolding w(7) by (rule session_step.readable)
  then have "http_worker_step sample_env sample_router w (erase_session [1] 0 (leave 0 s w))"
    using w(2,3) by (intro http_worker_step.ends) simp_all
  from http_worker_run.more [OF w(1) this] show ?thesis
    using w(2,3,7-9) by (intro exI [of _ "erase_session [1] 0 (leave 0 s w)"])
      (auto simp: erase_session_def leave_def enter_def remove_stream_def Let_def)
qed

theorem worker_streams_registered_witness:
  "\<exists>w. http_worker_run sample_env sample_router (new_http_worker empty_store) w \<and> is_stream_alive 0 w \<and> \<not> is_stream_alive 1 w"
proof -
  obtain w s st where w: "http_worker_run sample_env sample_router (new_http_worker empty_store) w" "w_sessions w = [s]"
    "streams s = [1 \<mapsto> st]" "st_serial st = 0" "w_created w = 1"
    using sample_worker by blast
  have "w_created w < 2 ^ 64" using w(5) by simp
  note r = worker_streams_registered [OF w(1) this]
  have "stream_at w 0 1 = Some st" using w(2,3) by (simp add: stream_at_def)
  then have "is_stream_alive 0 w" using r [of 0] w(4) by blast
  moreover have "\<And>n i st'. stream_at w n i = Some st' \<Longrightarrow> st_serial st' \<noteq> 1"
    using w(2-4) by (simp add: stream_at_def split: if_split_asm)
  then have "\<not> is_stream_alive 1 w" using r [of 1] by blast
  ultimately show ?thesis using w(1) by blast
qed

end
