(* ===== verification/Session_Frames.thy ===== *)
theory Session_Frames
  imports Session_Output
begin

text \<open>
  The DATA frames of a session: what \<open>send_data_cb\<close> puts into the buffer, and the body of a
  response as nghttp2 draws it, frame by frame, through \<open>data_read_cb\<close> and \<open>send_data_cb\<close>.
\<close>

section \<open>Bodies that end\<close>

primrec ends :: "DataStream \<Rightarrow> bool" where
  "ends (Is_string s) = True"
| "ends (Is_file f) = True"
| "ends (Is_event e) = False"

lemma ds_send_ends: "ds_send scripts n d b = Inr (rv, d', b') \<Longrightarrow> ends d' = ends d"
  by (cases d) (auto simp: wrap_send_def fault_simps)

lemma ds_remaining_ends: "ends (snd (ds_remaining d)) = ends d"
  by (cases d) (auto split: prod.splits)

interpretation fb: finite_body "\<lambda>d. ds_ok contents scripts d \<and> ends d" "ds_todo contents" ds_remaining ds_fits
  "ds_send scripts"
proof unfold_locales
  fix d k close d'
  assume "ds_ok contents scripts d \<and> ends d" "ds_remaining d = ((k, close), d')"
  then show "(ds_ok contents scripts d' \<and> ends d') \<and> ds_todo contents d' = ds_todo contents d \<and>
      k \<le> length (ds_todo contents d) \<and> (close \<longrightarrow> k = length (ds_todo contents d))"
    using ds.remaining_law ds_remaining_ends [of d] by auto
next
  fix d n N b
  assume "ds_ok contents scripts d \<and> ends d" "n \<le> fst (fst (ds_remaining d))" "ds_fits d n" "buf_ok N b"
    "n \<le> wleft b"
  then show "\<exists>d' b'. ds_send scripts n d b = Inr (0, d', b') \<and> (ds_ok contents scripts d' \<and> ends d') \<and>
      ds_todo contents d' = drop n (ds_todo contents d) \<and> appends N b (take n (ds_todo contents d)) b'"
    using ds.send_law ds_send_ends by blast
next
  fix d n
  assume "ds_ok contents scripts d \<and> ends d"
  then show "snd (fst (ds_remaining d))" "ds_fits d n"
    by (cases d; simp add: ss_remaining_def fs_remaining_def)+
qed

section \<open>One frame\<close>

text \<open>The stream \<open>i\<close> is there and its body is \<open>d\<close>.\<close>

definition has_body :: "HttpSession \<Rightarrow> int \<Rightarrow> DataStream \<Rightarrow> bool" where
  "has_body s i d \<longleftrightarrow> (\<exists>st. streams s i = Some st \<and> st_id st = i \<and> st_data st = Some d)"

definition padding_head :: "nat \<Rightarrow> byte list" where
  "padding_head padlen = (if padlen = 0 then [] else [char_of (padlen - 1)])"

lemma send_data_frame:
  assumes "has_body s i d" and "ds_ok contents scripts d" and "n \<le> fst (fst (ds_remaining d))" and "ds_fits d n"
    and "buf_ok N (wbuf s)" and "9 + n + padlen \<le> wleft (wbuf s)" and "length fh = 9"
  shows "\<exists>s' d'. send_data_cb scripts i fh n padlen s = Inr (0, s') \<and> has_body s' i d' \<and>
    ds_ok contents scripts d' \<and> ends d' = ends d \<and> ds_todo contents d' = drop n (ds_todo contents d) \<and>
    sent s' = sent s \<and> buf_ok N (wbuf s') \<and>
    pending (wbuf s') = pending (wbuf s) @ fh @ padding_head padlen @ take n (ds_todo contents d) @
      replicate (padlen - 1) (CHR 0x00)"
proof -
  obtain st where st: "streams s i = Some st" "st_id st = i" "st_data st = Some d"
    using assms(1) by (auto simp: has_body_def)
  have room: "\<not> wleft (wbuf s) < 9 + n + padlen" using assms(6) by simp
  obtain b1 where b1: "write_full (take 9 fh) (wbuf s) = Inr b1" "appends N (wbuf s) fh b1"
    using write_full_fits [OF assms(5), of fh] assms(6,7) by auto
  have "\<exists>b2. (if padlen \<noteq> 0 then write_byte (char_of (padlen - 1)) b1 else Inr b1) = Inr b2 \<and>
      appends N b1 (padding_head padlen) b2"
  proof (cases "padlen = 0")
    case False
    then have "1 \<le> wleft b1" using b1(2) assms(6,7) by (simp add: appends_def)
    then show ?thesis
      using False write_byte_fits [OF appendsD(1) [OF b1(2)], of "char_of (padlen - 1)"] by (auto simp: padding_head_def)
  qed (use appendsD(1) [OF b1(2)] in \<open>simp add: padding_head_def\<close>)
  then obtain b2 where b2: "(if padlen \<noteq> 0 then write_byte (char_of (padlen - 1)) b1 else Inr b1) = Inr b2"
    "appends N b1 (padding_head padlen) b2" by blast
  have left2: "n + (padlen - 1) \<le> wleft b2"
    using b1(2) b2(2) assms(6,7) by (auto simp: appends_def padding_head_def split: if_splits)
  obtain d' b3 where b3: "ds_send scripts n d b2 = Inr (0, d', b3)" "ds_ok contents scripts d'"
    "ds_todo contents d' = drop n (ds_todo contents d)" "appends N b2 (take n (ds_todo contents d)) b3"
    using ds.send_law [OF assms(2,3,4) appendsD(1) [OF b2(2)]] left2 by auto
  have "length (take n (ds_todo contents d)) = n"
    using ds.remaining_le [OF assms(2)] assms(3) by simp
  then have left3: "padlen - 1 \<le> wleft b3" using b3(4) left2 by (simp add: appends_def)
  have "\<exists>b4. (if padlen \<noteq> 0 then fill (CHR 0x00) (padlen - 1) b3 else Inr b3) = Inr b4 \<and>
      appends N b3 (replicate (padlen - 1) (CHR 0x00)) b4"
  proof (cases "padlen = 0")
    case False
    then show ?thesis
      using fill_fits [OF appendsD(1) [OF b3(4)] left3, of "CHR 0x00"] by auto
  qed (use appendsD(1) [OF b3(4)] in simp)
  then obtain b4 where b4: "(if padlen \<noteq> 0 then fill (CHR 0x00) (padlen - 1) b3 else Inr b3) = Inr b4"
    "appends N b3 (replicate (padlen - 1) (CHR 0x00)) b4" by blast
  have "send_data_cb scripts i fh n padlen s = Inr (0, put_stream (st\<lparr>st_data := Some d'\<rparr>) (s\<lparr>wbuf := b4\<rparr>))"
    using st room b1(1) b2(1) b3(1) b4(1) by (simp add: send_data_cb_def Let_def)
  moreover have "has_body (put_stream (st\<lparr>st_data := Some d'\<rparr>) (s\<lparr>wbuf := b4\<rparr>)) i d'"
    using st by (simp add: has_body_def put_stream_def)
  moreover have "appends N (wbuf s) (fh @ padding_head padlen @ take n (ds_todo contents d) @
      replicate (padlen - 1) (CHR 0x00)) b4"
    using appends_trans [OF b1(2) appends_trans [OF b2(2) appends_trans [OF b3(4) b4(2)]]] by simp
  ultimately show ?thesis
    using b3(2,3) ds_send_ends [OF b3(1)]
    by (intro exI [of _ "put_stream (st\<lparr>st_data := Some d'\<rparr>) (s\<lparr>wbuf := b4\<rparr>)"] exI [of _ d'])
      (simp add: put_stream_def appends_def)
qed

section \<open>A whole body\<close>

text \<open>
  What nghttp2 does with a body, by its documentation: ask \<open>data_read_cb\<close> for at most \<open>len\<close>
  bytes, have \<open>send_data_cb\<close> write that many behind the head of their frame, and stop at the end
  flag. After each frame TLS takes all there is. The client has ended its side.
\<close>

definition all_taken :: "HttpSession \<Rightarrow> HttpSession" where
  "all_taken s = s\<lparr>sent := sent s @ pending (wbuf s), wbuf := buf_reset (wbuf s)\<rparr>"

fun draw_body ::
  "(nat \<Rightarrow> nat \<Rightarrow> pread_result list) \<Rightarrow> int \<Rightarrow> (byte list \<times> nat) list \<Rightarrow> HttpSession \<Rightarrow> (bool \<times> HttpSession) res"
where
  "draw_body scripts i [] s = Inr (False, s)"
| "draw_body scripts i ((fh, len) # frames) s =
     bindE (data_read_cb i len True s) (\<lambda>((n, eof), s).
       if n < 0 then Inr (False, s)
       else
         bindE (send_data_cb scripts i fh (nat n) 0 s) (\<lambda>(rv, s).
           if rv \<noteq> 0 then Inr (False, all_taken s)
           else if eof then Inr (True, all_taken s)
           else draw_body scripts i frames (all_taken s)))"

lemma data_read_body:
  assumes "has_body s i d" and "ds_ok contents scripts d" and "ends d" and "0 < len"
  shows "\<exists>s' d'. data_read_cb i len True s =
      Inr ((int (min (length (ds_todo contents d)) len), length (ds_todo contents d) \<le> len), s') \<and>
    has_body s' i d' \<and> ds_ok contents scripts d' \<and> ends d' \<and> ds_todo contents d' = ds_todo contents d \<and>
    sent s' = sent s \<and> wbuf s' = wbuf s"
proof -
  obtain st where st: "streams s i = Some st" "st_id st = i" "st_data st = Some d"
    using assms(1) by (auto simp: has_body_def)
  obtain k close d' where r: "ds_remaining d = ((k, close), d')" by (metis prod.collapse)
  have ok: "ds_ok contents scripts d \<and> ends d" using assms(2,3) by simp
  have k: "k = length (ds_todo contents d)" "close"
    using fb.announces_all [OF ok] fb.closes [OF ok] r by simp_all
  have d': "ds_ok contents scripts d'" "ends d'" "ds_todo contents d' = ds_todo contents d"
    using fb.remaining_law [OF ok r] by simp_all
  have "data_read_cb i len True s = Inr ((int (min k len), k \<le> len), put_stream (st\<lparr>st_data := Some d'\<rparr>) s)"
    using st r k(2) assms(4) by (auto simp: data_read_cb_def Let_def min_def)
  then show ?thesis
    using d' st k(1)
    by (intro exI [of _ "put_stream (st\<lparr>st_data := Some d'\<rparr>) s"] exI [of _ d'])
      (simp add: has_body_def put_stream_def)
qed

definition drawable :: "(byte list \<times> nat) list \<Rightarrow> bool" where
  "drawable frames \<longleftrightarrow> (\<forall>(fh, len) \<in> set frames. length fh = 9 \<and> 0 < len \<and> 9 + len \<le> WBUF_SIZE)"

definition on_wire :: "(byte list \<times> byte list) list \<Rightarrow> byte list" where
  "on_wire frames = concat (map (\<lambda>(fh, payload). fh @ payload) frames)"

lemma draw_body_all:
  "has_body s i d \<Longrightarrow> ds_ok contents scripts d \<Longrightarrow> ends d \<Longrightarrow> buf_ok WBUF_SIZE (wbuf s) \<Longrightarrow>
   bpos (wbuf s) = 0 \<Longrightarrow> blast (wbuf s) = 0 \<Longrightarrow> drawable frames \<Longrightarrow> frames \<noteq> [] \<Longrightarrow>
   length (ds_todo contents d) \<le> sum_list (map snd frames) \<Longrightarrow>
   \<exists>s' ps. draw_body scripts i frames s = Inr (True, s') \<and>
     sent s' = sent s @ on_wire ps \<and> concat (map snd ps) = ds_todo contents d \<and>
     map fst ps = take (length ps) (map fst frames) \<and> (\<exists>d'. has_body s' i d' \<and> ds_todo contents d' = [])"
proof (induction frames arbitrary: s d)
  case (Cons f frames)
  obtain fh len where f: "f = (fh, len)" by (cases f)
  have lim: "length fh = 9" "0 < len" "9 + len \<le> WBUF_SIZE" "drawable frames"
    using Cons.prems(7) by (auto simp: drawable_def f)
  let ?todo = "ds_todo contents d" and ?n = "min (length (ds_todo contents d)) len"
  obtain s1 d1 where s1: "data_read_cb i len True s = Inr ((int ?n, length ?todo \<le> len), s1)"
    "has_body s1 i d1" "ds_ok contents scripts d1" "ends d1" "ds_todo contents d1 = ?todo" "sent s1 = sent s"
    "wbuf s1 = wbuf s"
    using data_read_body [OF Cons.prems(1-3) lim(2)] by blast
  have ok1: "ds_ok contents scripts d1 \<and> ends d1" using s1 by simp
  have fits: "?n \<le> fst (fst (ds_remaining d1))" "ds_fits d1 ?n"
    using fb.announces_all [OF ok1] fb.cuts [OF ok1] s1(5) by auto
  have "pending (wbuf s) = []" using Cons.prems(5,6) by (simp add: pending_def)
  have room: "9 + ?n + 0 \<le> wleft (wbuf s1)"
    using lim(3) Cons.prems(4,6) by (simp add: s1(7) wleft_def buf_ok_def)
  have "buf_ok WBUF_SIZE (wbuf s1)" using Cons.prems(4) by (simp add: s1(7))
  from send_data_frame [OF s1(2,3) fits this room lim(1)] s1(5-7) \<open>pending (wbuf s) = []\<close>
  obtain s2 d2 where s2: "send_data_cb scripts i fh ?n 0 s1 = Inr (0, s2)" "has_body s2 i d2"
    "ds_ok contents scripts d2" "ends d2 = ends d1" "ds_todo contents d2 = drop ?n ?todo" "sent s2 = sent s"
    "buf_ok WBUF_SIZE (wbuf s2)" "pending (wbuf s2) = fh @ take ?n ?todo"
    by (auto simp: padding_head_def)
  let ?s = "all_taken s2"
  have s: "has_body ?s i d2" "sent ?s = sent s @ fh @ take ?n ?todo" "buf_ok WBUF_SIZE (wbuf ?s)"
    "bpos (wbuf ?s) = 0" "blast (wbuf ?s) = 0"
    using s2 reset_ok(1) [OF s2(7)] by (simp_all add: all_taken_def has_body_def buf_reset_def)
  show ?case
  proof (cases "length ?todo \<le> len")
    case True
    then show ?thesis
      using s1(1) s2(1,5) s by (intro exI [of _ ?s] exI [of _ "[(fh, ?todo)]"]) (auto simp: f on_wire_def)
  next
    case False
    then have n: "?n = len" by simp
    have "length (ds_todo contents d2) \<le> sum_list (map snd frames)"
      using Cons.prems(9) s2(5) n by (simp add: f)
    moreover have "frames \<noteq> []" using Cons.prems(9) False by (auto simp: f)
    moreover have "ends d2" using s2(4) s1(4) by simp
    ultimately obtain s' ps where s': "draw_body scripts i frames ?s = Inr (True, s')"
      "sent s' = sent ?s @ on_wire ps" "concat (map snd ps) = ds_todo contents d2"
      "map fst ps = take (length ps) (map fst frames)" "\<exists>d'. has_body s' i d' \<and> ds_todo contents d' = []"
      using Cons.IH [OF s(1) s2(3) _ s(3-5) lim(4)] by blast
    then show ?thesis
      using s1(1) s2(1,5) s(2) False n
      by (intro exI [of _ s'] exI [of _ "(fh, take len ?todo) # ps"]) (simp add: f on_wire_def)
  qed
qed simp

section \<open>Properties\<close>

text \<open>
  C11. A DATA frame is written whole: when the buffer has room for it, \<open>send_data_cb\<close> appends
  exactly the frame's nine-byte head, the padding's length when there is padding, the next \<open>n\<close>
  bytes of the body and the padding, for every kind of body, and the body moves on by \<open>n\<close>; when it
  has no room, nothing is written and nghttp2 is told to try again.
\<close>

theorem data_frame_layout:
  assumes "has_body s i d" and "ds_ok contents scripts d" and "n \<le> fst (fst (ds_remaining d))" and "ds_fits d n"
    and "buf_ok WBUF_SIZE (wbuf s)" and "length fh = 9"
  shows "if 9 + n + padlen \<le> wleft (wbuf s)
    then \<exists>s' d'. send_data_cb scripts i fh n padlen s = Inr (0, s') \<and> has_body s' i d' \<and>
      ds_todo contents d' = drop n (ds_todo contents d) \<and>
      pending (wbuf s') = pending (wbuf s) @ fh @ (if padlen = 0 then [] else [char_of (padlen - 1)]) @
        take n (ds_todo contents d) @ replicate (padlen - 1) (CHR 0x00)
    else send_data_cb scripts i fh n padlen s = Inr (ERR_WOULDBLOCK, s)"
proof (cases "9 + n + padlen \<le> wleft (wbuf s)")
  case True
  then show ?thesis using send_data_frame [OF assms(1-5) True assms(6)] by (auto simp: padding_head_def)
next
  case False
  then show ?thesis using assms(1) by (auto simp: has_body_def send_data_cb_def)
qed

text \<open>
  C3. A response's body arrives whole: however nghttp2 cuts a string or a file into frames, none
  longer than the write buffer can take, as long as there are enough of them for the whole body, the frames' payloads
  put together are the body, every one is preceded by the head nghttp2 gave for it, and the end is
  flagged with the last one, an empty body included.
\<close>

theorem body_delivered:
  assumes "has_body s i d" and "ds_ok contents scripts d" and "ends d"
    and "wbuf s = new_buffer garbage" and "length garbage = WBUF_SIZE"
    and "drawable frames" and "frames \<noteq> []" and "length (ds_todo contents d) \<le> sum_list (map snd frames)"
  shows "\<exists>s' ps. draw_body scripts i frames s = Inr (True, s') \<and>
    sent s' = sent s @ concat (map (\<lambda>(fh, payload). fh @ payload) ps) \<and>
    concat (map snd ps) = ds_todo contents d \<and> map fst ps = take (length ps) (map fst frames)"
proof -
  have "buf_ok WBUF_SIZE (wbuf s)" "bpos (wbuf s) = 0" "blast (wbuf s) = 0"
    using new_buffer_ok(1) [of garbage] assms(4,5) by (simp_all add: new_buffer_def)
  from draw_body_all [OF assms(1-3) this assms(6-8)] show ?thesis
    by (auto simp: on_wire_def)
qed

text \<open>
  When the first read of a file fails, the head of the frame stays behind: the callback reports
  an error, on which nghttp2 drops the frame and resets the stream, but the nine bytes are in the
  buffer and will be sent, and the client takes what follows for the frame's payload.
\<close>

theorem failed_send_leaves_head:
  assumes "has_body s i (Is_file f)" and "0 < n" and "n \<le> fst (fs_remaining f)"
    and "scripts (fs_pos f) n = Read_failed # rest"
    and "buf_ok WBUF_SIZE (wbuf s)" and "9 + n \<le> wleft (wbuf s)" and "length fh = 9"
  shows "\<exists>s'. send_data_cb scripts i fh n 0 s = Inr (ERR_TEMPORAL_CALLBACK_FAILURE, s') \<and>
    pending (wbuf s') = pending (wbuf s) @ fh"
proof -
  obtain st where st: "streams s i = Some st" "st_data st = Some (Is_file f)"
    using assms(1) by (auto simp: has_body_def)
  obtain b1 where b1: "write_full (take 9 fh) (wbuf s) = Inr b1" "appends WBUF_SIZE (wbuf s) fh b1"
    using write_full_fits [OF assms(5), of fh] assms(6,7) by auto
  have "fs_send (scripts (fs_pos f) n) n f b1 = Inr (ERR_TEMPORAL_CALLBACK_FAILURE, f, b1)"
    using assms(2-4) by (cases n) (simp_all add: fs_send_def)
  then show ?thesis
    using st b1 assms(6) by (simp add: send_data_cb_def Let_def wrap_send_def put_stream_def appends_def)
qed

definition sample_sending :: "DataStream \<Rightarrow> HttpSession" where
  "sample_sending d = put_stream ((new_stream 1 0)\<lparr>st_data := Some d\<rparr>) sample_session"

lemma sample_sending:
  "has_body (sample_sending d) 1 d" "wbuf (sample_sending d) = new_buffer garbage_buffer" "sent (sample_sending d) = []"
  by (simp_all add: sample_sending_def has_body_def put_stream_def new_stream_def sample_session_def new_session_def)

lemma garbage_length: "length garbage_buffer = WBUF_SIZE"
  by (simp add: garbage_buffer_def)

lemma sample_room: "wleft (new_buffer garbage_buffer) = WBUF_SIZE"
  using garbage_length by (simp add: wleft_def new_buffer_def)

theorem data_frame_layout_witness:
  "\<exists>s'. send_data_cb (\<lambda>_ _. []) 1 (replicate 9 (CHR ''h'')) 3 2 (sample_sending (Is_string (new_string_stream ''abcd''))) = Inr (0, s') \<and>
     pending (wbuf s') = ''hhhhhhhhh'' @ [CHR 0x01] @ ''abc'' @ [CHR 0x00]"
proof -
  let ?d = "Is_string (new_string_stream ''abcd'')"
  have "ds_ok [] (\<lambda>_ _. []) ?d" "ds_todo [] ?d = ''abcd''" "3 \<le> fst (fst (ds_remaining ?d))"
    by (simp_all add: new_string_stream_def ss_ok_def ss_todo_def ss_remaining_def)
  moreover have "buf_ok WBUF_SIZE (new_buffer garbage_buffer)" "pending (new_buffer garbage_buffer) = []"
    using new_buffer_ok [of garbage_buffer] garbage_length by simp_all
  ultimately have "\<exists>s' d'. send_data_cb (\<lambda>_ _. []) 1 (replicate 9 (CHR ''h'')) 3 2 (sample_sending ?d) = Inr (0, s') \<and>
      has_body s' 1 d' \<and> ds_todo [] d' = drop 3 ''abcd'' \<and>
      pending (wbuf s') = replicate 9 (CHR ''h'') @ [char_of (2 - 1 :: nat)] @ take 3 ''abcd'' @ replicate (2 - 1) (CHR 0x00)"
    using data_frame_layout [of "sample_sending ?d" 1 ?d "[]" "\<lambda>_ _. []" 3 "replicate 9 (CHR ''h'')" 2]
    by (simp add: sample_sending sample_room)
  moreover have "char_of (2 - 1 :: nat) = CHR 0x01" by (simp add: char_of_def bit_0)
  moreover have "replicate 9 (CHR ''h'') = ''hhhhhhhhh''" "take 3 ''abcd'' = ''abc''" "replicate (2 - 1) (CHR 0x00) = [CHR 0x00]"
    by (simp_all add: numeral_eq_Suc)
  ultimately show ?thesis by auto
qed

theorem body_delivered_witness:
  "\<exists>s' ps. draw_body (\<lambda>_ _. []) 1 [(replicate 9 (CHR ''h''), 3), (replicate 9 (CHR ''i''), 3)]
      (sample_sending (Is_string (new_string_stream ''abcd''))) = Inr (True, s') \<and>
    sent s' = concat (map (\<lambda>(fh, payload). fh @ payload) ps) \<and> concat (map snd ps) = ''abcd''"
proof -
  let ?d = "Is_string (new_string_stream ''abcd'')"
  have "ds_ok [] (\<lambda>_ _. []) ?d" "ds_todo [] ?d = ''abcd''" "ends ?d"
    by (simp_all add: new_string_stream_def ss_ok_def ss_todo_def)
  then show ?thesis
    using body_delivered [of "sample_sending ?d" 1 ?d "[]" "\<lambda>_ _. []" garbage_buffer
        "[(replicate 9 (CHR ''h''), 3), (replicate 9 (CHR ''i''), 3)]"] garbage_length
    by (auto simp: sample_sending drawable_def)
qed

theorem failed_send_leaves_head_witness:
  "\<exists>s'. send_data_cb (\<lambda>_ _. [Read_failed]) 1 (replicate 9 (CHR ''h'')) 3 0 (sample_sending (Is_file (new_file_stream 4))) =
      Inr (ERR_TEMPORAL_CALLBACK_FAILURE, s') \<and> pending (wbuf s') = replicate 9 (CHR ''h'')"
proof -
  have "buf_ok WBUF_SIZE (new_buffer garbage_buffer)" "pending (new_buffer garbage_buffer) = []"
    using new_buffer_ok [of garbage_buffer] garbage_length by simp_all
  then show ?thesis
    using failed_send_leaves_head [of "sample_sending (Is_file (new_file_stream 4))" 1 "new_file_stream 4" 3
        "\<lambda>_ _. [Read_failed]" "[]" "replicate 9 (CHR ''h'')"]
    by (simp add: sample_sending sample_room fs_remaining_def new_file_stream_def)
qed

end
