(* ===== verification/Request_Answer.thy ===== *)
theory Request_Answer
  imports Session_Frames Session_Streams
begin

text \<open>
  A request from the first header nghttp2 hands over to the last byte of its answer: the callbacks
  of \<open>httpsession.cc\<close> while the headers arrive, the parsing of the target and the dispatch, the
  handler's calls on its response, and the frames of the body. Nothing is modelled here; the
  definitions of the components are put one after the other.
\<close>

section \<open>Receiving the headers\<close>

definition total_size :: "(rcbuf \<times> rcbuf) list \<Rightarrow> nat" where
  "total_size hs = (\<Sum>(n, v) \<leftarrow> hs. length (rbytes n) + length (rbytes v))"

definition method_of :: "(rcbuf \<times> rcbuf) list \<Rightarrow> HttpMethod" where
  "method_of hs = (case last_of pMETHOD hs None of None \<Rightarrow> GET | Some v \<Rightarrow> method_from_string (rbytes v))"

lemma add_header_size:
  "fst (add_header n v (h\<lparr>buffer_size := k\<rparr>)) = (fst (add_header n v h))\<lparr>buffer_size := k\<rparr>"
  by (simp add: add_header_def Let_def)

lemma add_headers_size:
  "fst (add_headers hs (h\<lparr>buffer_size := k\<rparr>)) = (fst (add_headers hs h))\<lparr>buffer_size := k\<rparr>"
proof (induction hs arbitrary: h)
  case (Cons nv hs)
  then show ?case by (cases nv) (simp add: add_headers_fst add_header_size)
qed simp

lemma last_of_step: "last_of k hs (last_of k [nv] x) = last_of k (nv # hs) x"
  by (simp add: last_of_def)

lemma last_of_some: "last_of k hs (Some v) = (case last_of k hs None of None \<Rightarrow> Some v | Some v' \<Rightarrow> Some v')"
  by (induction hs arbitrary: v) (auto simp: last_of_def split: option.splits)

lemma add_headers_method:
  "hmethod (fst (add_headers hs h)) =
     (case last_of pMETHOD hs None of None \<Rightarrow> hmethod h | Some v \<Rightarrow> method_from_string (rbytes v))"
proof (induction hs arbitrary: h)
  case (Cons nv hs)
  obtain n v where nv: "nv = (n, v)" by (cases nv)
  have one: "hmethod (fst (add_header n v h)) = (if kind nv = pMETHOD then method_from_string (rbytes v) else hmethod h)"
    by (simp add: add_header_def Let_def kind_def nv)
  have "last_of pMETHOD (nv # hs) None = last_of pMETHOD hs (if kind nv = pMETHOD then Some v else None)"
    by (simp add: last_of_def nv)
  then show ?case
    using Cons.IH [of "fst (add_header n v h)"] one
    by (auto simp: nv add_headers_fst last_of_some split: option.splits)
qed (simp add: last_of_def)

lemma receive_headers:
  assumes "f_type f = HEADERS" and "f_cat f"
  shows "streams s (f_stream f) = Some st \<Longrightarrow> st_id st = f_stream f \<Longrightarrow>
    buffer_size (st_headers st) + total_size hs \<le> 65536 \<Longrightarrow>
    recv_steps env router (map (\<lambda>(n, v). Recv_header f n v) hs) s =
      Inr (s\<lparr>streams := (streams s)(f_stream f \<mapsto> st\<lparr>st_headers := (fst (add_headers hs (st_headers st)))
        \<lparr>buffer_size := buffer_size (st_headers st) + total_size hs\<rparr>\<rparr>)\<rparr>)"
proof (induction hs arbitrary: s st)
  case Nil
  then show ?case by (simp add: total_size_def fun_upd_idem)
next
  case (Cons nv hs)
  obtain n v where nv: "nv = (n, v)" by (cases nv)
  let ?k = "buffer_size (st_headers st) + (length (rbytes n) + length (rbytes v))"
  let ?h = "fst (add_header n v ((st_headers st)\<lparr>buffer_size := ?k\<rparr>))"
  let ?st = "st\<lparr>st_headers := ?h\<rparr>"
  have size: "total_size (nv # hs) = length (rbytes n) + length (rbytes v) + total_size hs" by (simp add: total_size_def nv)
  have room: "\<not> buffer_size (st_headers st) + length (rbytes n) + length (rbytes v) > 65536" using Cons.prems(3) size by simp
  have k: "buffer_size ?h = ?k" by (simp add: add_header_size)
  have "on_header_cb f n v s = (0, put_stream ?st s)"
    using assms Cons.prems(1) room by (simp add: on_header_cb_def Let_def case_prod_unfold)
  moreover have "put_stream ?st s = s\<lparr>streams := (streams s)(f_stream f \<mapsto> ?st)\<rparr>" using Cons.prems(2) by (simp add: put_stream_def)
  ultimately have step: "recv_step env router (Recv_header f n v) s = Inr (s\<lparr>streams := (streams s)(f_stream f \<mapsto> ?st)\<rparr>)"
    by (simp add: recv_step_def)
  have ih: "recv_steps env router (map (\<lambda>(n, v). Recv_header f n v) hs) (s\<lparr>streams := (streams s)(f_stream f \<mapsto> ?st)\<rparr>) =
      Inr (s\<lparr>streams := (streams s)(f_stream f \<mapsto> ?st\<lparr>st_headers := (fst (add_headers hs ?h))\<lparr>buffer_size := ?k + total_size hs\<rparr>\<rparr>)\<rparr>)"
    using Cons.IH [of "s\<lparr>streams := (streams s)(f_stream f \<mapsto> ?st)\<rparr>" ?st] Cons.prems(2,3) size k by (simp add: add.assoc del: fun_upd_apply) (simp add: add.assoc)
  have "fst (add_headers hs ?h) = (fst (add_headers (nv # hs) (st_headers st)))\<lparr>buffer_size := ?k\<rparr>"
    by (simp add: nv add_headers_fst add_header_size add_headers_size)
  then have "?st\<lparr>st_headers := (fst (add_headers hs ?h))\<lparr>buffer_size := ?k + total_size hs\<rparr>\<rparr> =
      st\<lparr>st_headers := (fst (add_headers (nv # hs) (st_headers st)))\<lparr>buffer_size := buffer_size (st_headers st) + total_size (nv # hs)\<rparr>\<rparr>"
    using size by simp
  with ih have "recv_steps env router (map (\<lambda>(n, v). Recv_header f n v) hs) (s\<lparr>streams := (streams s)(f_stream f \<mapsto> ?st)\<rparr>) =
      Inr (s\<lparr>streams := (streams s)(f_stream f \<mapsto> st\<lparr>st_headers := (fst (add_headers (nv # hs) (st_headers st)))
        \<lparr>buffer_size := buffer_size (st_headers st) + total_size (nv # hs)\<rparr>\<rparr>)\<rparr>)"
    by (simp del: fun_upd_apply)
  with step show ?case unfolding list.map nv prod.case recv_steps.simps by (simp del: fun_upd_apply)
qed


lemma receive_request:
  assumes "f_type f = HEADERS" and "f_cat f" and "streams s (f_stream f) = None" and "total_size hs \<le> 65536"
  shows "\<exists>s1. recv_steps env router (Recv_begin f # map (\<lambda>(n, v). Recv_header f n v) hs) s = Inr s1 \<and>
    streams s1 (f_stream f) = Some ((reset_read_timeout (new_stream (f_stream f) (next_serial s)))
      \<lparr>st_headers := (fst (add_headers hs no_headers))\<lparr>buffer_size := total_size hs\<rparr>\<rparr>) \<and>
    conn s1 = conn s \<and> store s1 = store s \<and> wbuf s1 = wbuf s"
proof -
  let ?st = "reset_read_timeout (new_stream (f_stream f) (next_serial s))"
  let ?s = "put_stream ?st (snd (create_stream (f_stream f) s))"
  have "recv_step env router (Recv_begin f) s = Inr ?s"
    using assms(1-3) by (simp add: recv_step_def on_begin_headers_cb_def create_stream_def)
  moreover have "streams ?s (f_stream f) = Some ?st" "st_id ?st = f_stream f" "st_headers ?st = no_headers"
    "conn ?s = conn s" "store ?s = store s" "wbuf ?s = wbuf s"
    by (simp_all add: put_stream_def create_stream_def reset_read_timeout_def new_stream_def)
  moreover have "buffer_size no_headers = 0" by (simp add: no_headers_def)
  ultimately show ?thesis
    using receive_headers [OF assms(1,2), of ?s ?st hs env router] assms(4) by simp
qed

section \<open>Answering it\<close>

lemma parse_path_response [simp]: "st_response (parse_path st) = st_response st" "st_prepared (parse_path st) = st_prepared st"
  by (simp_all add: parse_path_def decode_part_def mem_alloc_def Let_def split_beta split: option.splits)

lemma string_body:
  "ds_ok contents scripts (Is_string (new_string_stream content))" "ds_todo contents (Is_string (new_string_stream content)) = content"
  by (simp_all add: new_string_stream_def ss_ok_def ss_todo_def)

lemma request_dispatched:
  assumes "f_type f = HEADERS" and "f_end_stream f" and "streams s (f_stream f) = Some st" and "st_id st = f_stream f"
    and "expect (st_headers st) = None" and "\<not> st_prepared st" and "fresh st []" and "status (st_response st) = None"
    and "dispatch_route (hmethod (st_headers st)) (st_path (parse_path st)) router = Inr (Invoke h k vars)"
    and "env_handler env h vars = map (\<lambda>(n, v). Set_header n v) nvs @ [Send content]"
  shows "\<exists>s'. recv_step env router (Recv_frame f) s = Inr s' \<and>
    ng_calls (conn s') = ng_calls (conn s) @ [response_call (f_stream f) ''200''
      (map (\<lambda>(n, v). make_nv n v (False, True)) nvs @ [plain_nv ''content-length'' (decimal (int (length content)))]) True] \<and>
    has_body s' (f_stream f) (Is_string (new_string_stream content)) \<and> wbuf s' = wbuf s"
proof -
  let ?st = "parse_path st"
  have st: "fresh ?st []" "status (st_response ?st) = None" "st_headers ?st = st_headers st" "st_id ?st = f_stream f"
    using assms(4,7,8) request_parse [of st] by (simp_all add: fresh_def request_of_def)
  obtain st' where st': "response_steps env (map (\<lambda>(n, v). Set_header n v) nvs @ [Send content]) (?st, conn s, store s) =
      Inr (st', call_nghttp2 (response_call (f_stream f) ''200'' (map (\<lambda>(n, v). make_nv n v (False, True)) nvs @
         [plain_nv ''content-length'' (decimal (int (length content)))]) True) (conn s), store s)"
    "st_data st' = Some (Is_string (new_string_stream content))"
    using handler_answers [OF st(1,2), of env nvs content "conn s" "store s"] st(4) by auto
  have id: "st_id st' = f_stream f" using request_steps [OF st'(1)] st(4) by (simp add: request_of_def)
  let ?s = "s\<lparr>conn := call_nghttp2 (response_call (f_stream f) ''200'' (map (\<lambda>(n, v). make_nv n v (False, True)) nvs @
         [plain_nv ''content-length'' (decimal (int (length content)))]) True) (conn s)\<rparr>"
  have "prepare_once env router st s = Inr (st'\<lparr>st_prepared := True\<rparr>, ?s)"
    using assms(6,9,10) st(3) st'(1) by (simp add: prepare_once_def in_session_def prepare_response_def)
  then have "recv_step env router (Recv_frame f) s = Inr (put_stream (stop_read_timeout (st'\<lparr>st_prepared := True\<rparr>)) ?s)"
    using assms(1-3,5) by (simp add: recv_step_def on_frame_recv_cb_def recv_headers_case_def)
  then show ?thesis
    using id st'(2) by (auto simp: has_body_def put_stream_def stop_read_timeout_def call_nghttp2_def)
qed

lemma recv_steps_append: "recv_steps env router (xs @ ys) s = bindE (recv_steps env router xs s) (recv_steps env router ys)"
proof (induction xs arbitrary: s)
  case (Cons e xs)
  then show ?case by (cases "recv_step env router e s") simp_all
qed simp

text \<open>
  C1. A request from end to end. On a connection whose client opens a stream with headers of up to
  64 KiB in all, in any number and order, that name a method and a target and do not ask for
  \<open>100-continue\<close>, and then ends its side: when the dispatch of the decoded path finds a handler, that
  handler was registered for the method with a pattern the path fits; when it sets headers and sends a text,
  nghttp2 is given one response more, with status 200, the headers and the length; and the frames nghttp2
  then cuts carry the text, ending with its last byte, however long it is.
\<close>

theorem request_answered:
  assumes "add_routes junk rs (new_router g) = Inr router" and "length rs \<le> 2 ^ 16"
    and "f_type f = HEADERS" and "f_cat f" and "f_end_stream f"
    and "streams s (f_stream f) = None" and "total_size hs \<le> 65536"
    and "last_of pPATH hs None = Some target" and "rbytes target = p @ q" and "p @ q \<noteq> []"
    and "CHR ''?'' \<notin> set p" and "CHR ''+'' \<notin> set p" and "q = [] \<or> hd q = CHR ''?''"
    and "last_of EXPECT hs None = None"
    and "dispatch_route (method_of hs) (percent_decode p) router = Inr (Invoke h k vars)"
    and "env_handler env h vars = map (\<lambda>(n, v). Set_header n v) nvs @ [Send content]"
    and "wbuf s = new_buffer garbage" and "length garbage = WBUF_SIZE"
    and "drawable frames" and "frames \<noteq> []" and "length content \<le> sum_list (map snd frames)"
  shows "\<exists>pat s1 s2 payloads.
    rs ! h = (method_of hs, pat, k) \<and> fits (pattern pat) (levels (percent_decode p)) \<and>
    vars = params (pattern pat) (levels (percent_decode p)) \<and>
    recv_steps env router (Recv_begin f # map (\<lambda>(n, v). Recv_header f n v) hs @ [Recv_frame f]) s = Inr s1 \<and>
    ng_calls (conn s1) = ng_calls (conn s) @ [response_call (f_stream f) ''200''
      (map (\<lambda>(n, v). make_nv n v (False, True)) nvs @ [plain_nv ''content-length'' (decimal (int (length content)))]) True] \<and>
    draw_body scripts (f_stream f) frames s1 = Inr (True, s2) \<and>
    sent s2 = sent s1 @ concat (map (\<lambda>(fh, payload). fh @ payload) payloads) \<and>
    concat (map snd payloads) = content \<and> map fst payloads = take (length payloads) (map fst frames)"
proof -
  obtain pat where pat: "rs ! h = (method_of hs, pat, k)" "fits (pattern pat) (levels (percent_decode p))"
    "vars = params (pattern pat) (levels (percent_decode p))"
    using dispatch_found [OF assms(1,2,15)] by blast
  let ?st = "(reset_read_timeout (new_stream (f_stream f) (next_serial s)))
      \<lparr>st_headers := (fst (add_headers hs no_headers))\<lparr>buffer_size := total_size hs\<rparr>\<rparr>"
  obtain s0 where s0: "recv_steps env router (Recv_begin f # map (\<lambda>(n, v). Recv_header f n v) hs) s = Inr s0"
    "streams s0 (f_stream f) = Some ?st" "conn s0 = conn s" "wbuf s0 = wbuf s"
    using receive_request [OF assms(3,4,6,7)] by blast
  have h: "hmethod (st_headers ?st) = method_of hs" "hpath (st_headers ?st) = Some target" "expect (st_headers ?st) = None"
    using assms(8,14) by (simp_all add: add_headers_method add_headers_slots method_of_def no_headers_def split: option.splits)
  have st: "st_id ?st = f_stream f" "\<not> st_prepared ?st" "fresh ?st []" "status (st_response ?st) = None"
    using fresh_new by (simp_all add: reset_read_timeout_def new_stream_def fresh_def new_response_headers_def)
  have "st_path (parse_path ?st) = percent_decode p"
    using parse_path_halves [OF h(2) assms(9,11,13,10)] assms(12) by blast
  then have "dispatch_route (hmethod (st_headers ?st)) (st_path (parse_path ?st)) router = Inr (Invoke h k vars)"
    using assms(15) h(1) by simp
  from request_dispatched [OF assms(3,5) s0(2) st(1) h(3) st(2-4) this assms(16)] s0(3,4)
  obtain s1 where s1: "recv_step env router (Recv_frame f) s0 = Inr s1"
    "ng_calls (conn s1) = ng_calls (conn s) @ [response_call (f_stream f) ''200''
      (map (\<lambda>(n, v). make_nv n v (False, True)) nvs @ [plain_nv ''content-length'' (decimal (int (length content)))]) True]"
    "has_body s1 (f_stream f) (Is_string (new_string_stream content))" "wbuf s1 = wbuf s" by auto
  have "recv_steps env router ((Recv_begin f # map (\<lambda>(n, v). Recv_header f n v) hs) @ [Recv_frame f]) s = Inr s1"
    unfolding recv_steps_append using s0(1) s1(1) by simp
  moreover have "buf_ok WBUF_SIZE (wbuf s1)" "bpos (wbuf s1) = 0" "blast (wbuf s1) = 0"
    using new_buffer_ok(1) [of garbage] assms(17,18) s1(4) by (simp_all add: new_buffer_def)
  then have "\<exists>s2 ps. draw_body scripts (f_stream f) frames s1 = Inr (True, s2) \<and> sent s2 = sent s1 @ on_wire ps \<and>
      concat (map snd ps) = content \<and> map fst ps = take (length ps) (map fst frames)"
    using draw_body_all [OF s1(3) string_body(1) _ _ _ _ assms(19,20)] assms(21) string_body(2) by fastforce
  ultimately show ?thesis using pat s1(2) by (auto simp: on_wire_def)
qed


definition answering_env :: Env where
  "answering_env = sample_env\<lparr>env_handler := (\<lambda>i vars. [Set_header ''x'' ''1'', Send (''hi '' @ concat vars)])\<rparr>"

definition whole_request :: Frame where
  "whole_request = request_frame\<lparr>f_end_stream := True\<rparr>"

text \<open>\<open>GET /u/7/ann?q\<close>, answered in two frames.\<close>

theorem request_answered_witness:
  "\<exists>s1 s2 payloads. recv_steps answering_env sample_router
      [Recv_begin whole_request, Recv_header whole_request (Rcbuf 1 '':method'') (Rcbuf 2 ''GET''),
       Recv_header whole_request (Rcbuf 3 '':path'') (Rcbuf 4 ''/u/7/ann?q''), Recv_frame whole_request] sample_session = Inr s1 \<and>
    draw_body (\<lambda>_ _. []) 1 [(replicate 9 (CHR ''h''), 4), (replicate 9 (CHR ''i''), 4)] s1 = Inr (True, s2) \<and>
    concat (map snd payloads) = ''hi 7ann'' \<and>
    sent s2 = sent s1 @ concat (map (\<lambda>(fh, payload). fh @ payload) payloads)"
proof -
  let ?hs = "[(Rcbuf 1 '':method'', Rcbuf 2 ''GET''), (Rcbuf 3 '':path'', Rcbuf 4 ''/u/7/ann?q'')]"
  let ?fs = "[(replicate 9 (CHR ''h''), 4), (replicate 9 (CHR ''i''), 4)]"
  have look: "lookup_header '':method'' = pMETHOD" "lookup_header '':path'' = pPATH"
    by (simp_all add: lookup_header_def streq_l_n_def)
  have m: "method_of ?hs = GET" using look by (simp add: method_of_def last_of_def kind_def method_from_string_def streq_l_def)
  have "dispatch_route (method_of ?hs) (percent_decode ''/u/7/ann'') sample_router = Inr (Invoke 0 Func [''7'', ''ann''])"
    using sample_dispatch m by (simp add: percent_decode_plain)
  moreover have "last_of pPATH ?hs None = Some (Rcbuf 4 ''/u/7/ann?q'')" "last_of EXPECT ?hs None = None"
    using look by (simp_all add: last_of_def kind_def)
  moreover have "total_size ?hs \<le> 65536" by (simp add: total_size_def)
  moreover have "env_handler answering_env 0 [''7'', ''ann''] = map (\<lambda>(n, v). Set_header n v) [(''x'', ''1'')] @ [Send ''hi 7ann'']"
    by (simp add: answering_env_def)
  moreover have "f_type whole_request = HEADERS" "f_cat whole_request" "f_end_stream whole_request" "f_stream whole_request = 1"
    by (simp_all add: whole_request_def request_frame_def)
  moreover have "wbuf sample_session = new_buffer garbage_buffer" "streams sample_session 1 = None"
    by (simp_all add: sample_session_def new_session_def)
  moreover have "drawable ?fs" by (simp add: drawable_def)
  moreover have "length sample_routes \<le> 2 ^ 16" by (simp add: sample_routes_def)
  ultimately show ?thesis
    using request_answered [OF sample_router_built, of whole_request sample_session ?hs "Rcbuf 4 ''/u/7/ann?q''" "''/u/7/ann''" "''?q''"
        0 Func "[''7'', ''ann'']" answering_env "[(''x'', ''1'')]" "''hi 7ann''" garbage_buffer ?fs "\<lambda>_ _. []"] garbage_length
    by simp blast
qed

end
