(* ===== verification/Session_Types.thy ===== *)
theory Session_Types
  imports Session_Streams
begin

text \<open>
  What the members of a stream may hold: an invariant of the representation of every stream of a
  session, and of what the session gives nghttp2. It is an instance of \<open>session_invariant\<close>.
\<close>

section \<open>Well-formed streams\<close>

text \<open>
  A string is read up to a position inside it, an event stream inside its front event; a file has a
  length and a position.
\<close>

primrec typed_data :: "DataStream \<Rightarrow> bool" where
  "typed_data (Is_string s) = ss_ok s"
| "typed_data (Is_file f) = True"
| "typed_data (Is_event e) = es_ok e"

text \<open>
  The headers received fill the array before the vector; of the headers to send every cell is set but the
  first, which is the status's; the block memory hands out no more than it has.
\<close>

definition typed_stream :: "Stream \<Rightarrow> bool" where
  "typed_stream st \<longleftrightarrow> packed (st_headers st) \<and> (\<exists>hs. headers_are (st_response st) hs) \<and> mpos (st_mem st) \<le> 512 \<and>
     (\<forall>d. st_data st = Some d \<longrightarrow> typed_data d)"

text \<open>Every header of a response given to nghttp2 is set, the status first.\<close>

fun whole_call :: "ng_call \<Rightarrow> bool" where
  "whole_call (Submit_response i nvs b) \<longleftrightarrow>
     None \<notin> set nvs \<and> nvs \<noteq> [] \<and> map_option nv_name (hd nvs) = Some '':status''"
| "whole_call _ = True"

definition well_called :: "Conn \<Rightarrow> bool" where
  "well_called c = list_all whole_call (ng_calls c)"

named_theorems typed

lemma typed_upd [simp]:
  "typed_stream (st\<lparr>st_prepared := b\<rparr>) = typed_stream st" "typed_stream (st\<lparr>st_request := q\<rparr>) = typed_stream st"
  "typed_stream (st\<lparr>st_delivered := ds\<rparr>) = typed_stream st" "typed_stream (st\<lparr>st_path := p\<rparr>) = typed_stream st"
  "typed_stream (st\<lparr>st_query := p\<rparr>) = typed_stream st" "typed_stream (reset_read_timeout st) = typed_stream st"
  "typed_stream (reset_write_timeout st) = typed_stream st" "typed_stream (reset_read_timeout_if_active st) = typed_stream st"
  "typed_stream (stop_read_timeout st) = typed_stream st" "typed_stream (stop_write_timeout st) = typed_stream st"
  by (simp_all add: typed_stream_def reset_read_timeout_def reset_write_timeout_def reset_read_timeout_if_active_def
      stop_read_timeout_def stop_write_timeout_def)

lemma typed_new: "typed_stream (new_stream i k)"
  using headers_are_new by (auto simp: typed_stream_def new_stream_def new_memblock_def)

lemma typed_data_upd [typed]: "typed_stream st \<Longrightarrow> typed_data d \<Longrightarrow> typed_stream (st\<lparr>st_data := Some d\<rparr>)"
  by (simp add: typed_stream_def)

lemma typed_headers_upd [typed]: "typed_stream st \<Longrightarrow> packed h \<Longrightarrow> typed_stream (st\<lparr>st_headers := h\<rparr>)"
  by (simp add: typed_stream_def)

lemma typed_response_upd: "typed_stream st \<Longrightarrow> headers_are r hs \<Longrightarrow> typed_stream (st\<lparr>st_response := r\<rparr>)"
  by (auto simp: typed_stream_def)

lemma typed_alloc [typed]: "typed_stream st \<Longrightarrow> typed_stream (mem_alloc n st)"
  by (auto simp: typed_stream_def mem_alloc_def alloc_def)

lemma typed_set_header [typed]: "typed_stream st \<Longrightarrow> typed_stream (st\<lparr>st_response := set_header n v (st_response st)\<rparr>)"
  "typed_stream st \<Longrightarrow> typed_stream (response_header n v st)"
  unfolding set_header_def set_header_nc_def response_header_def
  by (auto intro: typed_response_upd push_header_are simp: typed_stream_def)

lemma typed_texts [typed]:
  "typed_stream st \<Longrightarrow> typed_stream (length_header k st)" "typed_stream st \<Longrightarrow> typed_stream (add_string_stream t st)"
  "typed_stream st \<Longrightarrow> typed_stream (set_response_status s st)"
proof -
  assume t: "typed_stream st"
  show "typed_stream (length_header k st)" unfolding length_header_def by (intro typed t)
  show "typed_stream (add_string_stream t st)" for t
    unfolding add_string_stream_def by (intro typed t) (simp add: ss_ok_def new_string_stream_def)
  show "typed_stream (set_response_status s st)"
    using t by (auto simp: typed_stream_def set_response_status_def)
qed

lemma typed_parse [typed]: "typed_stream st \<Longrightarrow> typed_stream (parse_path st)"
  by (auto simp: parse_path_def decode_part_def Let_def case_prod_unfold intro: typed)

section \<open>Responses\<close>

lemma set_status_are: "headers_are r hs \<Longrightarrow> set_status r = Inr r' \<Longrightarrow> headers_are r' hs"
  by (auto simp: set_status_def headers_are_def Let_def take_update_swap split: option.splits if_splits)

lemma well_called_upd [simp]: "well_called (c\<lparr>wev := b\<rparr>) = well_called c"
  by (simp add: well_called_def)

lemma well_called_call [simp]:
  "well_called (c\<lparr>ng_calls := ng_calls c @ [x]\<rparr>) \<longleftrightarrow> well_called c \<and> whole_call x"
  "well_called (call_nghttp2 x c) \<longleftrightarrow> well_called c \<and> whole_call x"
  by (simp_all add: well_called_def call_nghttp2_def)

lemma typed_submit:
  assumes "submit_response b st c = Inr (st', c')" and "typed_stream st" and "well_called c"
  shows "typed_stream st' \<and> well_called c'"
proof -
  define r where "r = (if status (st_response st) = None then (st_response st)\<lparr>status := Some ''200''\<rparr> else st_response st)"
  obtain hs where hs: "headers_are r hs" using assms(2) by (cases "status (st_response st)") (auto simp: r_def typed_stream_def)
  obtain s where s: "status r = Some s" by (cases "status (st_response st)") (auto simp: r_def)
  obtain r' where r': "set_status r = Inr r'" "st' = st\<lparr>st_response := r'\<rparr>"
    "c' = call_nghttp2 (Submit_response (st_id st) (get_buffer r') b) c"
    using assms(1) by (auto simp: submit_response_def Let_def fault_simps simp flip: r_def)
  have "headers_are r' hs" using hs r'(1) by (rule set_status_are)
  moreover have "get_buffer r' = map Some (make_nv '':status'' s (False, False) # hs)" using hs s r'(1) by (rule get_buffer_are)
  ultimately show ?thesis
    using r'(2,3) assms(2,3) by (auto simp: make_nv_def intro: typed_response_upd)
qed

lemma typed_submit_texts:
  assumes "typed_stream st" and "well_called c"
  shows "submit_string_response t st c = Inr (st', c') \<Longrightarrow> typed_stream st' \<and> well_called c'"
    and "submit_html_response t st c = Inr (st', c') \<Longrightarrow> typed_stream st' \<and> well_called c'"
    and "submit_json_response t st c = Inr (st', c') \<Longrightarrow> typed_stream st' \<and> well_called c'"
  unfolding submit_string_response_def submit_html_response_def submit_json_response_def
  by (erule typed_submit [OF _ _ assms(2)]; intro typed assms(1))+

lemma typed_file_headers: "file_headers env e info st = Inr st' \<Longrightarrow> typed_stream st \<Longrightarrow> typed_stream st'"
  by (auto simp: file_headers_def Let_def fault_simps intro!: typed split: if_splits)

lemma typed_submit_file:
  assumes "submit_file env e st c = Inr (st', c')" and "typed_stream st" and "well_called c"
  shows "typed_stream st' \<and> well_called c'"
proof -
  let ?st = "st\<lparr>st_data := Some (Is_file (new_file_stream (nat (fi_length (fst (file_info e))))))\<rparr>"
  have t: "typed_stream ?st" using assms(2) by (intro typed) simp_all
  consider "submit_response False (set_response_status ''304'' (response_header ''date'' (env_date env) ?st)) c = Inr (st', c')"
    | st1 where "file_headers env e (fst (file_info e)) ?st = Inr st1" "submit_response True st1 c = Inr (st', c')"
    using assms(1) by (auto simp: submit_file_def Let_def fault_simps split: if_splits option.splits)
  then show ?thesis
  proof cases
    case 1
    then show ?thesis by (rule typed_submit [OF _ _ assms(3)]) (intro typed t)
  next
    case 2
    then show ?thesis using typed_submit [OF 2(2) typed_file_headers [OF 2(1) t] assms(3)] by simp
  qed
qed

lemma typed_file_response:
  assumes "submit_file_response env p a b d (st, c, w) = Inr (st', c', w')" and "typed_stream st" and "well_called c"
  shows "typed_stream st' \<and> well_called c'"
  using assms by (auto simp: submit_file_response_def fault_simps split: option.splits
      dest: typed_submit_file typed_submit_texts(3) [OF typed_texts(3)])

lemma typed_path_response:
  assumes "submit_path_response env (st, c, w) = Inr (st', c', w')" and "typed_stream st" and "well_called c"
  shows "typed_stream st' \<and> well_called c'"
  using assms typed_file_response by (fastforce simp: submit_path_response_def split: if_splits)

lemma typed_on_request: "on_request g st = Inr st' \<Longrightarrow> typed_stream st' = typed_stream st"
  by (auto simp: on_request_def fault_simps)

lemma es_submit_ok: "es_submit ev es = (b, es') \<Longrightarrow> es_ok es \<Longrightarrow> es_ok es'"
  using es_ok_front by (auto simp: es_submit_def es_ok_def Let_def split: if_splits list.splits)

lemma typed_events:
  assumes "typed_stream st" and "well_called c"
  shows "create_event_source st c = Inr (st', c') \<Longrightarrow> typed_stream st' \<and> well_called c'"
    and "submit_event ev st c = Inr (st', c') \<Longrightarrow> typed_stream st' \<and> well_called c'"
proof -
  have "typed_data (Is_event new_event_stream)" by (simp add: es_ok_def new_event_stream_def)
  then have t: "typed_stream (stop_read_timeout ((response_header ''content-type'' ''text/event-stream''
      (response_header ''cache-control'' ''no-store'' st))\<lparr>st_data := Some (Is_event new_event_stream)\<rparr>))"
    unfolding typed_upd by (intro typed assms(1))
  show "create_event_source st c = Inr (st', c') \<Longrightarrow> typed_stream st' \<and> well_called c'"
    unfolding create_event_source_def Let_def by (rule typed_submit [OF _ t assms(2)])
  assume e: "submit_event ev st c = Inr (st', c')"
  then obtain es where es: "st_data st = Some (Is_event es)"
    by (auto simp: submit_event_def split: option.splits DataStream.splits)
  obtain b es' where s: "es_submit ev es = (b, es')" by fastforce
  have "es_ok es" using assms(1) es by (simp add: typed_stream_def)
  then have "typed_data (Is_event es')" using es_submit_ok [OF s] by simp
  moreover have "st' = st\<lparr>st_data := Some (Is_event es')\<rparr>" "c' = (if b then call_nghttp2 (Resume_data (st_id st)) c else c)"
    using e es s by (simp_all add: submit_event_def)
  ultimately show "typed_stream st' \<and> well_called c'" using assms typed_data_upd by simp
qed

lemma typed_step:
  assumes "response_step env x (st, c, w) = Inr (st', c', w')" and "typed_stream st" and "well_called c"
  shows "typed_stream st' \<and> well_called c'"
proof (cases x)
  case (Read_request e)
  then show ?thesis using assms by (auto simp: response_step_def stream_only_def fault_simps dest: typed_on_request)
next
  case Send_file
  then show ?thesis using assms typed_path_response by (auto simp: response_step_def)
next
  case (Send_file_path p a b d)
  then show ?thesis using assms typed_file_response by (auto simp: response_step_def)
next
  case (Send_status_response s m)
  then show ?thesis
    using assms(1) by (auto simp: response_step_def stream_only_def fault_simps
        dest!: typed_submit_texts(2) [OF typed_texts(3) [OF assms(2)] assms(3)])
qed (use assms in \<open>auto simp: response_step_def stream_only_def fault_simps intro: typed
    dest!: typed_events [OF assms(2,3)] typed_submit_texts [OF assms(2,3)]\<close>)

lemma typed_steps:
  "response_steps env xs (st, c, w) = Inr (st', c', w') \<Longrightarrow> typed_stream st \<Longrightarrow> well_called c \<Longrightarrow>
   typed_stream st' \<and> well_called c'"
proof (induction xs arbitrary: st c w)
  case (Cons x xs)
  then show ?case by (auto simp: fault_simps dest!: typed_step)
qed simp

lemma typed_prepare:
  assumes "prepare_response env router (st, c, w) = Inr (st', c', w')" and "typed_stream st" and "well_called c"
  shows "typed_stream st' \<and> well_called c'"
proof -
  obtain d where d: "dispatch_route (hmethod (st_headers st)) (st_path st) router = Inr d"
    using assms(1) by (auto simp: prepare_response_def fault_simps)
  show ?thesis
  proof (cases d)
    case (Invoke i k vars)
    then show ?thesis using assms d typed_steps by (auto simp: prepare_response_def)
  next
    case NotFound
    show ?thesis
    proof (cases "hmethod (st_headers st) = GET")
      case True
      then show ?thesis using assms d NotFound typed_path_response by (auto simp: prepare_response_def)
    next
      case False
      then obtain w' where "submit_json_response bad_request_text (set_response_status ''400'' st) c = Inr (st', c')"
        using assms(1) d NotFound by (auto simp: prepare_response_def fault_simps)
      then show ?thesis by (rule typed_submit_texts(3) [OF typed_texts(3) [OF assms(2)] assms(3)])
    qed
  qed
qed

section \<open>Well-formed sessions\<close>

definition typed_session :: "HttpSession \<Rightarrow> bool" where
  "typed_session s \<longleftrightarrow> (\<forall>i st. streams s i = Some st \<longrightarrow> st_id st = i \<and> typed_stream st) \<and> well_called (conn s)"

lemma session_upd [simp]:
  "typed_session (s\<lparr>store := w\<rparr>) = typed_session s" "typed_session (s\<lparr>wbuf := b\<rparr>) = typed_session s"
  "typed_session (s\<lparr>settings_timer := r\<rparr>) = typed_session s" "typed_session (s\<lparr>running := r\<rparr>) = typed_session s"
  "typed_session (s\<lparr>has_session := r\<rparr>) = typed_session s" "typed_session (s\<lparr>sent := bs\<rparr>) = typed_session s"
  "typed_session (s\<lparr>out := bs\<rparr>) = typed_session s" "typed_session (s\<lparr>data_pending := d\<rparr>) = typed_session s"
  "typed_session (note_output t s) = typed_session s"
  by (simp_all add: typed_session_def note_output_def)

lemma typed_conn: "typed_session s \<Longrightarrow> well_called c \<Longrightarrow> typed_session (s\<lparr>conn := c\<rparr>)"
  by (simp add: typed_session_def)

lemma typed_put: "typed_session s \<Longrightarrow> typed_stream st \<Longrightarrow> typed_session (put_stream st s)"
  by (auto simp: typed_session_def put_stream_def)

lemma typed_get: "typed_session s \<Longrightarrow> streams s i = Some st \<Longrightarrow> typed_stream st"
  "typed_session s \<Longrightarrow> well_called (conn s)"
  by (simp_all add: typed_session_def)

lemma typed_in_session:
  assumes "in_session g st s = Inr (st', s')" and "typed_session s" and "typed_stream st"
    and "\<And>st c w st' c' w'. g (st, c, w) = Inr (st', c', w') \<Longrightarrow> typed_stream st \<Longrightarrow> well_called c \<Longrightarrow>
      typed_stream st' \<and> well_called c'"
  shows "typed_stream st' \<and> typed_session s'"
proof -
  obtain c w where "g (st, conn s, store s) = Inr (st', c, w)" "s' = s\<lparr>conn := c, store := w\<rparr>"
    using assms(1) by (auto simp: in_session_def fault_simps)
  then show ?thesis using assms(4) [of st "conn s" "store s"] assms(2,3) typed_conn typed_get(2) by auto
qed

lemma typed_prepare_once:
  assumes "prepare_once env router st s = Inr (st', s')" and "typed_session s" and "typed_stream st"
  shows "typed_stream st' \<and> typed_session s'"
proof (cases "st_prepared st")
  case False
  then obtain st1 where "in_session (prepare_response env router) (parse_path st) s = Inr (st1, s')" "st' = st1\<lparr>st_prepared := True\<rparr>"
    using assms(1) by (auto simp: prepare_once_def fault_simps)
  then show ?thesis using typed_in_session [OF _ assms(2) typed_parse [OF assms(3)]] typed_prepare by simp
qed (use assms in \<open>simp add: prepare_once_def\<close>)

lemma typed_rst: "typed_session s \<Longrightarrow> typed_stream st \<Longrightarrow> submit_rst k st (conn s) = (st', c) \<Longrightarrow>
    typed_session (put_stream st' (s\<lparr>conn := c\<rparr>))"
  using typed_put [OF typed_conn] typed_get(2) by (auto simp: submit_rst_def)

lemma typed_headers_case:
  assumes "recv_headers_case env router f s = Inr (rv, s')" and "typed_session s"
  shows "typed_session s'"
proof (cases "streams s (f_stream f)")
  case (Some st)
  obtain c where c: "(if f_end_stream f then
        bindE (prepare_once env router st (s\<lparr>conn := c\<rparr>)) (\<lambda>(st, s). Inr (0, put_stream (stop_read_timeout st) s))
      else Inr (0, put_stream (reset_read_timeout st) (s\<lparr>conn := c\<rparr>))) = Inr (rv, s')" "well_called c"
    using assms Some typed_get(2) [OF assms(2)]
    by (fastforce simp: recv_headers_case_def Let_def submit_non_final_response_def split: option.splits)
  have t: "typed_session (s\<lparr>conn := c\<rparr>)" "typed_stream st"
    using typed_conn [OF assms(2) c(2)] typed_get(1) [OF assms(2) Some] by simp_all
  show ?thesis
    using c(1) t typed_put typed_prepare_once [OF _ t] by (auto simp: fault_simps split: if_splits)
qed (use assms in \<open>simp add: recv_headers_case_def\<close>)

lemma typed_data_case:
  assumes "recv_data_case env router f s = Inr (Some s')" and "typed_session s"
  shows "typed_session s'"
proof (cases "streams s (f_stream f)")
  case (Some st)
  then obtain st1 s1 where p: "prepare_once env router st s = Inr (st1, s1)"
    using assms(1) by (auto simp: recv_data_case_def fault_simps)
  have t: "typed_stream st1" "typed_session s1" using typed_prepare_once [OF p assms(2) typed_get(1) [OF assms(2) Some]] by simp_all
  show ?thesis
  proof (cases "f_end_stream f")
    case True
    then obtain st2 where "on_request handle_body (stop_read_timeout st1) = Inr st2" "s' = put_stream st2 s1"
      using assms(1) p Some by (auto simp: recv_data_case_def fault_simps)
    then show ?thesis using typed_put [OF t(2)] typed_on_request t(1) by simp
  next
    case False
    then show ?thesis using assms(1) p Some typed_put [OF t(2)] t(1) by (auto simp: recv_data_case_def)
  qed
qed (use assms in \<open>simp add: recv_data_case_def\<close>)

lemma typed_frame_recv:
  assumes "on_frame_recv_cb env router f s = Inr (rv, s')" and "typed_session s"
  shows "typed_session s'"
proof (cases "f_type f")
  case DATA
  then obtain r where r: "recv_data_case env router f s = Inr r"
    "(case r of None \<Rightarrow> Inr (0, s) | Some s \<Rightarrow> recv_headers_case env router f s) = Inr (rv, s')"
    using assms(1) by (auto simp: on_frame_recv_cb_def fault_simps)
  then show ?thesis using assms(2) typed_data_case typed_headers_case by (cases r) auto
qed (use assms typed_headers_case in \<open>auto simp: on_frame_recv_cb_def split: if_splits\<close>)

lemma typed_header_cb:
  assumes "typed_session s"
  shows "typed_session (snd (on_header_cb f n v s))"
proof (cases "streams s (f_stream f)")
  case (Some st)
  have t: "typed_stream st" by (rule typed_get(1) [OF assms Some])
  then have "packed (fst (add_header n v (st_headers st\<lparr>buffer_size := k\<rparr>)))" for k
    using add_header_packed [of "st_headers st\<lparr>buffer_size := k\<rparr>" n v] by (simp add: typed_stream_def packed_def)
  then show ?thesis
    using assms t typed_put [OF assms typed_headers_upd [OF t]] typed_rst [OF assms t]
    by (auto simp: on_header_cb_def Some Let_def case_prod_unfold)
qed (use assms in \<open>simp add: on_header_cb_def\<close>)

lemma typed_remove: "typed_session s \<Longrightarrow> typed_session (remove_stream i s)"
  by (auto simp: remove_stream_def typed_session_def split: option.splits)

lemma typed_recv_step:
  assumes "recv_step env router e s = Inr s'" and "typed_session s"
  shows "typed_session s'"
proof (cases e)
  case (Recv_begin f)
  have "typed_session (snd (create_stream i s))" for i using assms(2) by (simp add: create_stream_def typed_session_def)
  then show ?thesis
    using assms Recv_begin typed_put typed_new
    by (auto simp: recv_step_def on_begin_headers_cb_def create_stream_def split: option.splits if_splits)
next
  case (Recv_header f n v)
  then show ?thesis using assms typed_header_cb by (auto simp: recv_step_def)
next
  case (Recv_frame f)
  then show ?thesis using assms by (auto simp: recv_step_def fault_simps dest: typed_frame_recv)
next
  case (Recv_chunk i bs)
  then show ?thesis
    using assms typed_put [OF assms(2)] typed_get(1) [OF assms(2)]
    by (auto simp: recv_step_def on_data_chunk_recv_cb_def fault_simps split: option.splits dest!: typed_on_request)
next
  case (Recv_close i)
  then show ?thesis using assms typed_remove by (auto simp: recv_step_def on_stream_close_cb_def)
next
  case (Handler_call i op)
  show ?thesis
  proof (cases "streams s i")
    case (Some st)
    then obtain st' s1 where s1: "in_session (response_step env op) st s = Inr (st', s1)" "s' = put_stream st' s1"
      using assms(1) Handler_call by (auto simp: recv_step_def fault_simps)
    then show ?thesis
      using typed_in_session [OF s1(1) assms(2) typed_get(1) [OF assms(2) Some]] typed_step typed_put by blast
  qed (use assms Handler_call in \<open>simp add: recv_step_def\<close>)
qed

lemma typed_remaining: "typed_data d \<Longrightarrow> typed_data (snd (ds_remaining d))"
  by (cases d) (auto simp: es_remaining_def es_length_def es_ok_def split: list.splits prod.splits)

lemma es_send_ok:
  assumes "es_send n es wb = Inr (rv, es', wb')" and "es_ok es"
  shows "es_ok es'"
proof (cases "es_queue es")
  case (Cons ev queue)
  have "es' = es\<lparr>es_queue := queue, es_pos := 0\<rparr> \<or> (\<exists>pos. es' = es\<lparr>es_pos := pos\<rparr> \<and> pos < length (render ev))"
    using assms(1) Cons by (auto simp: es_send_def Let_def fault_simps length_render split: if_split_asm)
  then show ?thesis using Cons es_ok_front by (auto simp: es_ok_def split: list.splits)
qed (use assms in \<open>simp add: es_send_def\<close>)

lemma typed_send:
  assumes "ds_send scripts n d wb = Inr (rv, d', wb')" and "typed_data d"
  shows "typed_data d'"
proof (cases d)
  case (Is_string s)
  then show ?thesis using assms by (auto simp: wrap_send_def fault_simps ss_send_def ss_ok_def split: if_splits)
next
  case (Is_file f)
  then show ?thesis using assms by (auto simp: wrap_send_def fault_simps)
next
  case (Is_event es)
  then show ?thesis using assms es_send_ok by (auto simp: wrap_send_def fault_simps)
qed

lemma typed_callback:
  assumes "mem_send_callback env router a s = Inr s'" and "typed_session s"
  shows "typed_session s'"
proof (cases a)
  case (Ng_read i len rc)
  then obtain r where "data_read_cb i len rc s = Inr (r, s')"
    using assms(1) by (auto simp: mem_send_callback_def fault_simps)
  then obtain st d where st: "streams s i = Some st" "st_data st = Some d"
    by (auto simp: data_read_cb_def split: option.splits)
  let ?st = "st\<lparr>st_data := Some (snd (ds_remaining d))\<rparr>"
  have t: "typed_stream st" "typed_data d" using typed_get(1) [OF assms(2) st(1)] st(2) by (auto simp: typed_stream_def)
  then have t': "typed_stream ?st" using typed_data_upd typed_remaining by simp
  then have t'': "typed_stream (stop_write_timeout (stop_read_timeout ?st))" by simp
  show ?thesis
    using \<open>data_read_cb i len rc s = Inr (r, s')\<close> st typed_put [OF assms(2) t'] typed_rst [OF assms(2) t'']
    by (auto simp: data_read_cb_def Let_def split: prod.splits if_splits)
next
  case (Ng_send i fh n pad scripts)
  then obtain rv s1 where s1: "send_data_cb scripts i fh n pad s = Inr (rv, s1)" "s' = note_output s s1"
    using assms(1) by (auto simp: mem_send_callback_def fault_simps)
  then obtain st d where st: "streams s i = Some st" "st_data st = Some d"
    by (auto simp: send_data_cb_def split: option.splits)
  have t: "typed_stream st" "typed_data d" using typed_get(1) [OF assms(2) st(1)] st(2) by (auto simp: typed_stream_def)
  have "typed_stream (st\<lparr>st_data := Some d'\<rparr>)" if "ds_send scripts n d wb = Inr (rv', d', wb')" for rv' d' wb wb'
    using typed_data_upd [OF t(1) typed_send [OF that t(2)]] .
  moreover have "typed_session (put_stream st1 (s\<lparr>wbuf := b\<rparr>))" if "typed_stream st1" for st1 b
    using typed_put [OF _ that] assms(2) by simp
  ultimately have "typed_session s1"
    using s1(1) st assms(2) by (auto simp: send_data_cb_def Let_def fault_simps split: if_splits)
  then show ?thesis using s1(2) by simp
next
  case (Ng_frame_sent f w)
  then obtain rv where r: "on_frame_send_cb env router f w s = Inr (rv, s')"
    using assms(1) by (auto simp: mem_send_callback_def fault_simps)
  have "typed_session s'" if "streams s i = Some st"
      "in_session (prepare_response env router) (reset_write_timeout (reset_read_timeout_if_active st)) s = Inr (st', s1)"
      "s' = put_stream st' s1" for i st st' s1
    using typed_in_session [OF that(2) assms(2)] typed_get(1) [OF assms(2) that(1)] typed_prepare typed_put that(3) by simp
  then show ?thesis
    using r assms(2) typed_put [OF assms(2)] typed_get(1) [OF assms(2)]
    by (auto simp: on_frame_send_cb_def fault_simps split: option.splits if_splits)
next
  case (Ng_close i)
  then show ?thesis using assms typed_remove by (auto simp: mem_send_callback_def on_stream_close_cb_def)
qed (use assms in \<open>auto simp: mem_send_callback_def\<close>)

lemma typed_event:
  assumes "event_cb i ev s = Inr s'" and "typed_session s"
  shows "typed_session s'"
proof -
  obtain st st' c where "streams s i = Some st" "submit_event ev st (conn s) = Inr (st', c)" "s' = put_stream st' (s\<lparr>conn := c\<rparr>)"
    using assms(1) by (auto simp: event_cb_def fault_simps split: option.splits)
  then show ?thesis
    using typed_events(2) [OF typed_get(1) [OF assms(2)] typed_get(2) [OF assms(2)]] typed_put [OF typed_conn [OF assms(2)]] by blast
qed

interpretation typed: session_invariant typed_session
proof unfold_locales
  fix s assume t: "typed_session s"
  note w = typed_get(2) [OF t]
  show "recv_step env router e s = Inr s' \<Longrightarrow> typed_session s'" for env router e s'
    using typed_recv_step t by blast
  show "mem_send_callback env router a s = Inr s' \<Longrightarrow> typed_session s'" for env router a s'
    using typed_callback t by blast
  show "typed_session (snd (flush_pending s))"
    using t by (auto simp: flush_pending_def split: option.splits prod.splits if_splits)
  show "ssl_write a (pending (wbuf s)) s = (rv, s') \<Longrightarrow>
      typed_session (if rv \<le> 0 then s' else s'\<lparr>wbuf := snd (drain (nat rv) (wbuf s'))\<rparr>)" for a rv s'
    using t typed_conn [OF t] w by (auto simp: ssl_write_def Let_def split: ssl_write_answer.splits)
  show "typed_session (s\<lparr>conn := (conn s)\<lparr>wev := b\<rparr>\<rparr>)" for b using typed_conn [OF t] w by simp
  show "x = Submit_settings \<or> (\<exists>k. x = Terminate_session k) \<Longrightarrow>
      typed_session (s\<lparr>conn := (conn s)\<lparr>ng_calls := ng_calls (conn s) @ [x]\<rparr>\<rparr>)" for x
    using typed_conn [OF t] w by auto
  show "streams s i = Some st \<Longrightarrow>
      submit_rst NGHTTP2_INTERNAL_ERROR (stop_write_timeout (stop_read_timeout st)) (conn s) = (st', c) \<Longrightarrow>
      typed_session (put_stream st' (s\<lparr>conn := c\<rparr>))" for i st st' c
    by (rule typed_rst [OF t]) (auto dest: typed_get(1) [OF t])
  show "event_cb i ev s = Inr s' \<Longrightarrow> typed_session s'" for i ev s'
    using typed_event t by blast
qed auto

lemma typed_body_cases:
  "(\<forall>d. x = Some d \<longrightarrow> typed_data d) \<longleftrightarrow>
     (\<forall>t. x = Some (Is_string t) \<longrightarrow> ss_ok t) \<and> (\<forall>es. x = Some (Is_event es) \<longrightarrow> es_ok es)"
proof (cases x)
  case (Some d)
  then show ?thesis by (cases d) auto
qed simp

lemma typed_start: "typed_session (new_session garbage w k al)"
  by (simp add: typed_session_def new_session_def well_called_def)

section \<open>Properties\<close>

text \<open>
  C6. The types of a connection, in every state it reaches: each stream is kept under its own id; the array
  of its received headers is filled before the vector; of its response's headers every cell counted
  is set but the status's; its block memory hands out at most its 512 bytes; and a body is read at a
  position inside its string, or inside the event at the front. Every response that nghttp2 was ever
  given has all its headers set, the status first.
\<close>

theorem sessions_well_typed:
  assumes "reachable env router (new_session garbage w k al) s"
  shows "(\<forall>i st. streams s i = Some st \<longrightarrow> st_id st = i \<and> packed (st_headers st) \<and>
       (\<exists>hs. headers_are (st_response st) hs) \<and> mpos (st_mem st) \<le> 512 \<and>
       (\<forall>t. st_data st = Some (Is_string t) \<longrightarrow> ss_last t \<le> length (ss_data t)) \<and>
       (\<forall>es. st_data st = Some (Is_event es) \<longrightarrow>
          (case es_queue es of [] \<Rightarrow> es_pos es = 0 | ev # _ \<Rightarrow> es_pos es < length (render ev)))) \<and>
    (\<forall>i nvs b. Submit_response i nvs b \<in> set (ng_calls (conn s)) \<longrightarrow>
       None \<notin> set nvs \<and> nvs \<noteq> [] \<and> map_option nv_name (hd nvs) = Some '':status'')"
proof -
  have t: "typed_session s" using assms typed_start by (rule typed.reachable_inv)
  have "whole_call (Submit_response i nvs b)" if "Submit_response i nvs b \<in> set (ng_calls (conn s))" for i nvs b
    using t that by (auto simp: typed_session_def well_called_def list_all_iff)
  then show ?thesis
    using t unfolding typed_session_def typed_stream_def typed_body_cases ss_ok_def es_ok_def by simp
qed

theorem sessions_well_typed_witness:
  "\<exists>s st. reachable sample_env sample_router sample_session s \<and> streams s = [1 \<mapsto> st] \<and> packed (st_headers st) \<and> st_id st = 1"
proof -
  obtain s st where s: "reachable sample_env sample_router sample_session s" "streams s = [1 \<mapsto> st]"
    using sample_request by blast
  from sessions_well_typed [OF s(1) [unfolded sample_session_def]] s(2)
  have "packed (st_headers st) \<and> st_id st = 1" by simp
  with s show ?thesis by blast
qed

end
