(* ===== verification/Session_Events.thy ===== *)
theory Session_Events
  imports Session_Frames
begin

text \<open>
  Server-sent events on a connection: an event is handed to a stream's \<open>EventStream\<close>, which wakes
  nghttp2; nghttp2 asks for data, has the frame written, asks again and is told to wait.
\<close>

section \<open>One event\<close>

definition waiting_stream :: EventStream where
  "waiting_stream = \<lparr>es_pos = 0, es_queue = [], es_paused = True\<rparr>"

text \<open>
  What nghttp2 does when it has been told to resume, by its documentation: it calls \<open>data_read_cb\<close>
  and has \<open>send_data_cb\<close> write what was announced, until the answer is to wait; here, once. TLS
  then takes all there is.
\<close>

definition deliver_event :: "int \<Rightarrow> Event \<times> byte list \<times> nat \<Rightarrow> HttpSession \<Rightarrow> (bool \<times> HttpSession) res" where
  "deliver_event i e s =
     (let (ev, fh, len) = e in
      bindE (event_cb i ev s) (\<lambda>s.
      bindE (data_read_cb i len False s) (\<lambda>((n, eof), s).
        if n < 0 \<or> eof then Inr (False, s)
        else
          bindE (send_data_cb (\<lambda>_ _. []) i fh (nat n) 0 s) (\<lambda>(rv, s).
            if rv \<noteq> 0 then Inr (False, s)
            else bindE (data_read_cb i len False s) (\<lambda>((n, eof), s). Inr (n = ERR_DEFERRED, all_taken s))))))"

fun deliver_events :: "int \<Rightarrow> (Event \<times> byte list \<times> nat) list \<Rightarrow> HttpSession \<Rightarrow> (bool \<times> HttpSession) res" where
  "deliver_events i [] s = Inr (True, s)"
| "deliver_events i (e # es) s =
     bindE (deliver_event i e s) (\<lambda>(waits, s). if waits then deliver_events i es s else Inr (False, s))"

lemma event_wakes:
  assumes "has_body s i (Is_event waiting_stream)"
  shows "\<exists>s'. event_cb i ev s = Inr s' \<and> has_body s' i (Is_event \<lparr>es_pos = 0, es_queue = [ev], es_paused = False\<rparr>) \<and>
    ng_calls (conn s') = ng_calls (conn s) @ [Resume_data i] \<and> wev (conn s') \<and> wbuf s' = wbuf s \<and> sent s' = sent s"
proof -
  obtain st where "streams s i = Some st" "st_id st = i" "st_data st = Some (Is_event waiting_stream)"
    using assms by (auto simp: has_body_def)
  then show ?thesis
    by (simp add: event_cb_def submit_event_def es_submit_def waiting_stream_def put_stream_def has_body_def call_nghttp2_def)
qed

lemma read_event:
  assumes "has_body s i (Is_event es)" and "es_queue es = [ev]" and "es_pos es = 0" and "length (render ev) \<le> len"
  shows "\<exists>s'. data_read_cb i len False s = Inr ((int (length (render ev)), False), s') \<and> has_body s' i (Is_event es) \<and>
    conn s' = conn s \<and> wbuf s' = wbuf s \<and> sent s' = sent s"
proof -
  obtain st where "streams s i = Some st" "st_id st = i" "st_data st = Some (Is_event es)"
    using assms(1) by (auto simp: has_body_def)
  moreover have "length (ev_name ev) + length (ev_data ev) + (length ''event: '' + length ''data: '' + 3) = length (render ev)"
    by (simp add: length_render ext_pre_def)
  ultimately show ?thesis
    using assms(2-4) by (auto simp: data_read_cb_def es_remaining_def es_length_def Let_def put_stream_def has_body_def)
qed

lemma read_nothing:
  assumes "has_body s i (Is_event es)" and "es_queue es = []" and "es_pos es = 0"
  shows "\<exists>s'. data_read_cb i len False s = Inr ((ERR_DEFERRED, False), s') \<and> has_body s' i (Is_event waiting_stream) \<and>
    conn s' = conn s \<and> wbuf s' = wbuf s \<and> sent s' = sent s"
proof -
  obtain st where "streams s i = Some st" "st_id st = i" "st_data st = Some (Is_event es)"
    using assms(1) by (auto simp: has_body_def)
  then show ?thesis
    using assms(2,3) by (auto simp: data_read_cb_def es_remaining_def es_length_def Let_def put_stream_def has_body_def waiting_stream_def)
qed

lemma write_event:
  assumes "has_body s i (Is_event es)" and "es_queue es = [ev]" and "es_pos es = 0"
    and "buf_ok N (wbuf s)" and "9 + length (render ev) \<le> wleft (wbuf s)" and "length fh = 9"
  shows "\<exists>s' es'. send_data_cb scripts i fh (length (render ev)) 0 s = Inr (0, s') \<and> has_body s' i (Is_event es') \<and>
    es_queue es' = [] \<and> es_pos es' = 0 \<and> conn s' = conn s \<and> sent s' = sent s \<and>
    buf_ok N (wbuf s') \<and> pending (wbuf s') = pending (wbuf s) @ fh @ render ev"
proof -
  let ?n = "length (render ev)"
  obtain st where st: "streams s i = Some st" "st_id st = i" "st_data st = Some (Is_event es)"
    using assms(1) by (auto simp: has_body_def)
  obtain b1 where b1: "write_full (take 9 fh) (wbuf s) = Inr b1" "appends N (wbuf s) fh b1"
    using write_full_fits [OF assms(4), of fh] assms(5,6) by auto
  have ok: "es_ok es" using assms(2,3) es_ok_front by (simp add: es_ok_def)
  have fits: "es_fits es ?n" using assms(2,3) by (simp add: es_fits_def length_render)
  have room: "buf_ok N b1" "?n \<le> wleft b1" using b1(2) assms(5,6) by (auto simp: appends_def)
  obtain b2 where b2: "es_send ?n es b1 = Inr (0, es\<lparr>es_queue := [], es_pos := 0\<rparr>, b2)" "appends N b1 (render ev) b2"
    using es_send_exact [OF ok assms(2) _ fits room] assms(3) by auto
  have app: "appends N (wbuf s) (fh @ render ev) b2" using appends_trans [OF b1(2) b2(2)] .
  let ?st = "st\<lparr>st_data := Some (Is_event (es\<lparr>es_queue := [], es_pos := 0\<rparr>))\<rparr>"
  have "send_data_cb scripts i fh ?n 0 s = Inr (0, put_stream ?st (s\<lparr>wbuf := b2\<rparr>))"
    using st b1(1) b2(1) assms(5) by (simp add: send_data_cb_def Let_def wrap_send_def)
  then show ?thesis
    using st app
    by (intro exI [of _ "put_stream ?st (s\<lparr>wbuf := b2\<rparr>)"] exI [of _ "es\<lparr>es_queue := [], es_pos := 0\<rparr>"])
      (simp add: has_body_def put_stream_def appends_def)
qed

definition deliverable :: "Event \<times> byte list \<times> nat \<Rightarrow> bool" where
  "deliverable e \<longleftrightarrow> (case e of (ev, fh, len) \<Rightarrow> length fh = 9 \<and> length (render ev) \<le> len \<and> 9 + length (render ev) \<le> WBUF_SIZE)"

lemma event_delivered:
  assumes "has_body s i (Is_event waiting_stream)" and "buf_ok WBUF_SIZE (wbuf s)" and "bpos (wbuf s) = 0" and "blast (wbuf s) = 0"
    and "deliverable (ev, fh, len)"
  shows "\<exists>s'. deliver_event i (ev, fh, len) s = Inr (True, s') \<and> has_body s' i (Is_event waiting_stream) \<and>
    buf_ok WBUF_SIZE (wbuf s') \<and> bpos (wbuf s') = 0 \<and> blast (wbuf s') = 0 \<and>
    sent s' = sent s @ fh @ render ev \<and> ng_calls (conn s') = ng_calls (conn s) @ [Resume_data i]"
proof -
  have e: "length fh = 9" "length (render ev) \<le> len" "9 + length (render ev) \<le> WBUF_SIZE"
    using assms(5) by (simp_all add: deliverable_def)
  obtain s1 where s1: "event_cb i ev s = Inr s1" "has_body s1 i (Is_event \<lparr>es_pos = 0, es_queue = [ev], es_paused = False\<rparr>)"
    "ng_calls (conn s1) = ng_calls (conn s) @ [Resume_data i]" "wbuf s1 = wbuf s" "sent s1 = sent s"
    using event_wakes [OF assms(1), of ev] by blast
  obtain s2 where s2: "data_read_cb i len False s1 = Inr ((int (length (render ev)), False), s2)"
    "has_body s2 i (Is_event \<lparr>es_pos = 0, es_queue = [ev], es_paused = False\<rparr>)" "conn s2 = conn s1" "wbuf s2 = wbuf s" "sent s2 = sent s"
    using read_event [OF s1(2) _ _ e(2)] s1(4,5) by auto
  have "9 + length (render ev) \<le> wleft (wbuf s2)" "buf_ok WBUF_SIZE (wbuf s2)"
    using e(3) assms(2,4) s2(4) by (simp_all add: wleft_def buf_ok_def)
  from write_event [OF s2(2) _ _ this(2,1) e(1), of "\<lambda>_ _. []"]
  obtain s3 es where s3: "send_data_cb (\<lambda>_ _. []) i fh (length (render ev)) 0 s2 = Inr (0, s3)" "has_body s3 i (Is_event es)"
    "es_queue es = []" "es_pos es = 0" "conn s3 = conn s2" "sent s3 = sent s2" "buf_ok WBUF_SIZE (wbuf s3)"
    "pending (wbuf s3) = pending (wbuf s2) @ fh @ render ev" by auto
  obtain s4 where s4: "data_read_cb i len False s3 = Inr ((ERR_DEFERRED, False), s4)" "has_body s4 i (Is_event waiting_stream)"
    "conn s4 = conn s3" "wbuf s4 = wbuf s3" "sent s4 = sent s3"
    using read_nothing [OF s3(2-4)] by blast
  have "deliver_event i (ev, fh, len) s = Inr (True, all_taken s4)"
    using s1(1) s2(1) s3(1) s4(1) by (simp add: deliver_event_def)
  moreover have "has_body (all_taken s4) i (Is_event waiting_stream)" using s4(2) by (simp add: all_taken_def has_body_def)
  moreover have "buf_ok WBUF_SIZE (wbuf (all_taken s4))" "bpos (wbuf (all_taken s4)) = 0" "blast (wbuf (all_taken s4)) = 0"
    using reset_ok(1) [OF s3(7)] s4(4) by (simp_all add: all_taken_def buf_reset_def)
  moreover have "pending (wbuf s2) = []" using assms(3,4) s2(4) by (simp add: pending_def)
  then have "sent (all_taken s4) = sent s @ fh @ render ev"
    using s4(4,5) s3(6,8) s2(5) by (simp add: all_taken_def)
  moreover have "ng_calls (conn (all_taken s4)) = ng_calls (conn s) @ [Resume_data i]"
    using s4(3) s3(5) s2(3) s1(3) by (simp add: all_taken_def)
  ultimately show ?thesis by blast
qed

section \<open>Properties\<close>

lemma events_delivered_all:
  assumes "has_body s i (Is_event waiting_stream)" and "buf_ok WBUF_SIZE (wbuf s)" and "bpos (wbuf s) = 0" and "blast (wbuf s) = 0"
    and "list_all deliverable evs"
  shows "\<exists>s'. deliver_events i evs s = Inr (True, s') \<and> has_body s' i (Is_event waiting_stream) \<and>
    sent s' = sent s @ concat (map (\<lambda>(ev, fh, len). fh @ render ev) evs) \<and>
    ng_calls (conn s') = ng_calls (conn s) @ replicate (length evs) (Resume_data i)"
  using assms
proof (induction evs arbitrary: s)
  case (Cons e evs)
  obtain ev fh len where e: "e = (ev, fh, len)" by (cases e)
  obtain s1 where s1: "deliver_event i e s = Inr (True, s1)" "has_body s1 i (Is_event waiting_stream)"
    "buf_ok WBUF_SIZE (wbuf s1)" "bpos (wbuf s1) = 0" "blast (wbuf s1) = 0"
    "sent s1 = sent s @ fh @ render ev" "ng_calls (conn s1) = ng_calls (conn s) @ [Resume_data i]"
    using event_delivered [OF Cons.prems(1-4), of ev fh len] Cons.prems(5) e by auto
  from Cons.IH [OF s1(2-5)] Cons.prems(5) s1(1,6,7) e show ?case by (auto simp: replicate_append_same)
qed simp



end
