(* ===== verification/Event_Dispatcher.thy ===== *)
theory Event_Dispatcher
  imports Stream_Facts
begin

text \<open>
  Server-sent events: which event streams listen to which channel (\<open>eventdispatcher.cc\<close>). The registry holds raw pointers; a stream that goes
  away has its pointers overwritten by null, and a later subscriber takes such a slot.

  Pointers are numbers, and the event streams they point to a map. The locale \<open>subscriptions\<close> is
  what publishing relies on.
\<close>

section \<open>The registry\<close>

type_synonym registry = "string \<rightharpoonup> nat option list"

primrec put_in_slot :: "nat \<Rightarrow> nat option list \<Rightarrow> nat option list" where
  "put_in_slot es [] = [Some es]"
| "put_in_slot es (x # vec) = (if x = None then Some es # vec else x # put_in_slot es vec)"

definition suscribe :: "string \<Rightarrow> nat \<Rightarrow> registry \<Rightarrow> registry" where
  "suscribe channel es reg =
     (case reg channel of
        Some vec \<Rightarrow> reg(channel \<mapsto> put_in_slot es vec)
      | None \<Rightarrow> reg(channel \<mapsto> [Some es]))"

definition remove_pointer :: "nat \<Rightarrow> registry \<Rightarrow> registry" where
  "remove_pointer es reg = (\<lambda>channel. map_option (map (\<lambda>x. if x = Some es then None else x)) (reg channel))"

text \<open>
  \<open>publish\<close>: every non-null pointer of the channel gets a copy of the event. The streams nghttp2 is
  told to resume come out in order.
\<close>

fun publish_all ::
  "Event \<Rightarrow> nat option list \<Rightarrow> (nat \<rightharpoonup> EventStream) \<Rightarrow> (nat list \<times> (nat \<rightharpoonup> EventStream)) res"
where
  "publish_all ev [] objs = Inr ([], objs)"
| "publish_all ev (None # vec) objs = publish_all ev vec objs"
| "publish_all ev (Some i # vec) objs =
     (case objs i of
        None \<Rightarrow> Inl Undefined
      | Some es \<Rightarrow>
          (let (resume, es) = es_submit ev es in
           bindE (publish_all ev vec (objs(i \<mapsto> es)))
             (\<lambda>(rs, objs). Inr (if resume then i # rs else rs, objs))))"

definition publish ::
  "Event \<Rightarrow> registry \<Rightarrow> (nat \<rightharpoonup> EventStream) \<Rightarrow> (nat list \<times> (nat \<rightharpoonup> EventStream)) res"
where
  "publish ev reg objs = (case reg (ev_channel ev) of None \<Rightarrow> Inr ([], objs) | Some vec \<Rightarrow> publish_all ev vec objs)"

section \<open>Subscriptions\<close>

definition subscribers :: "registry \<Rightarrow> string \<Rightarrow> nat list" where
  "subscribers reg channel = (case reg channel of None \<Rightarrow> [] | Some vec \<Rightarrow> List.map_filter id vec)"

text \<open>
  Who hears a channel: subscribing adds one listener to one channel, removing takes a listener off
  all of them and leaves the others in order.
\<close>

locale subscriptions =
  fixes subs :: "'r \<Rightarrow> 'c \<Rightarrow> 'i list"
    and sub :: "'c \<Rightarrow> 'i \<Rightarrow> 'r \<Rightarrow> 'r"
    and unsub :: "'i \<Rightarrow> 'r \<Rightarrow> 'r"
  assumes sub_law: "mset (subs (sub c i r) c') = mset (subs r c') + (if c' = c then {#i#} else {#})"
    and unsub_law: "subs (unsub i r) c = filter (\<lambda>j. j \<noteq> i) (subs r c)"
begin

lemma sub_set: "set (subs (sub c i r) c') = (if c' = c then insert i (set (subs r c')) else set (subs r c'))"
  using arg_cong [OF sub_law [of c i r c'], of set_mset] by auto

lemma sub_count: "count_list (subs (sub c i r) c') j = count_list (subs r c') j + (if c' = c \<and> j = i then 1 else 0)"
  using arg_cong [OF sub_law [of c i r c'], of "\<lambda>M. count M j"] by (auto simp: count_mset split: if_splits)

lemma gone: "i \<notin> set (subs (unsub i r) c)"
  by (simp add: unsub_law)

lemma sub_within: "\<forall>c. set (subs r c) \<subseteq> L \<Longrightarrow> i \<in> L \<Longrightarrow> set (subs (sub c i r) c') \<subseteq> L"
  by (auto simp: sub_set split: if_splits)

lemma unsub_within: "\<forall>c. set (subs r c) \<subseteq> L \<Longrightarrow> set (subs (unsub i r) c) \<subseteq> L - {i}"
  by (auto simp: unsub_law)

text \<open>A listener that left and came back is subscribed once.\<close>

lemma back_once: "count_list (subs (sub c i (unsub i r)) c) i = 1"
  by (simp add: sub_count unsub_law count_list_0_iff)

end

lemma mset_put_in_slot: "mset (List.map_filter id (put_in_slot es vec)) = add_mset es (mset (List.map_filter id vec))"
  by (induction vec) (auto simp: List.map_filter_def)

lemma map_filter_single: "List.map_filter id [Some i] = [i]"
  by (simp add: List.map_filter_def)

lemma filter_remove: "List.map_filter id (map (\<lambda>x. if x = Some es then None else x) vec) =
    filter (\<lambda>j. j \<noteq> es) (List.map_filter id vec)"
proof (induction vec)
  case (Cons x vec)
  then show ?case by (cases x) (auto simp: List.map_filter_def)
qed (simp add: List.map_filter_def)

interpretation registry: subscriptions subscribers suscribe remove_pointer
proof unfold_locales
  fix c c' :: string and i :: nat and r :: registry
  show "mset (subscribers (suscribe c i r) c') = mset (subscribers r c') + (if c' = c then {#i#} else {#})"
    by (auto simp: subscribers_def suscribe_def mset_put_in_slot map_filter_single split: option.splits)
  show "subscribers (remove_pointer i r) c = filter (\<lambda>j. j \<noteq> i) (subscribers r c)"
    by (auto simp: subscribers_def remove_pointer_def filter_remove split: option.splits)
qed

text \<open>Slots of removed streams are used again before the vector grows.\<close>

lemma put_in_slot_length:
  "length (put_in_slot es vec) = (if None \<in> set vec then length vec else length vec + 1)"
  by (induction vec) auto

section \<open>The life of the dispatcher\<close>

record Dispatcher =
  registry_of :: registry
  live :: "nat \<rightharpoonup> EventStream"

definition new_dispatcher :: Dispatcher where
  "new_dispatcher = \<lparr>registry_of = Map.empty, live = Map.empty\<rparr>"

text \<open>
  Event streams are made by \<open>EventSource::create\<close>, listen, are destroyed (\<open>~EventStream\<close> removes
  their pointers), drained by nghttp2, and fed by whoever publishes.
\<close>

inductive dispatcher_step :: "Dispatcher \<Rightarrow> Dispatcher \<Rightarrow> bool" where
  made: "live d i = None \<Longrightarrow> dispatcher_step d (d\<lparr>live := (live d)(i \<mapsto> new_event_stream)\<rparr>)"
| listens: "i \<in> dom (live d) \<Longrightarrow> dispatcher_step d (d\<lparr>registry_of := suscribe ch i (registry_of d)\<rparr>)"
| destroyed: "dispatcher_step d (d\<lparr>registry_of := remove_pointer i (registry_of d), live := (live d)(i := None)\<rparr>)"
| drained: "live d i = Some es \<Longrightarrow> dispatcher_step d (d\<lparr>live := (live d)(i \<mapsto> es')\<rparr>)"
| published: "publish ev (registry_of d) (live d) = Inr (rs, o') \<Longrightarrow> dispatcher_step d (d\<lparr>live := o'\<rparr>)"

inductive dispatcher_run :: "Dispatcher \<Rightarrow> bool" where
  start: "dispatcher_run new_dispatcher"
| more: "dispatcher_run d \<Longrightarrow> dispatcher_step d d' \<Longrightarrow> dispatcher_run d'"

definition no_dangling :: "Dispatcher \<Rightarrow> bool" where
  "no_dangling d \<longleftrightarrow> (\<forall>ch. set (subscribers (registry_of d) ch) \<subseteq> dom (live d))"

text \<open>What a list of submits does to the streams.\<close>

lemma es_submit_queue: "es_queue (snd (es_submit ev es)) = es_queue es @ [ev]"
  by (simp add: es_submit_def Let_def)

lemma es_submit_resume: "fst (es_submit ev es) = es_paused es" "\<not> es_paused (snd (es_submit ev es))"
  by (simp_all add: es_submit_def Let_def)

lemma publish_all_spec:
  "set (List.map_filter id vec) \<subseteq> dom objs \<Longrightarrow>
   \<exists>rs objs'. publish_all ev vec objs = Inr (rs, objs') \<and> dom objs' = dom objs \<and>
     (\<forall>i es. objs i = Some es \<longrightarrow> (\<exists>es'. objs' i = Some es' \<and>
        es_queue es' = es_queue es @ replicate (count_list (List.map_filter id vec) i) ev \<and>
        es_paused es' = (es_paused es \<and> i \<notin> set (List.map_filter id vec)))) \<and>
     distinct rs \<and> set rs = {i \<in> set (List.map_filter id vec). \<exists>es. objs i = Some es \<and> es_paused es}"
proof (induction ev vec objs rule: publish_all.induct)
  case (3 ev i vec objs)
  then obtain es where es: "objs i = Some es" by (auto simp: List.map_filter_def)
  obtain resume es1 where s: "es_submit ev es = (resume, es1)" by fastforce
  have s1: "es_queue es1 = es_queue es @ [ev]" "resume = es_paused es" "\<not> es_paused es1"
    using es_submit_queue [of ev es] es_submit_resume [of ev es] s by simp_all
  let ?objs = "objs(i \<mapsto> es1)"
  have "set (List.map_filter id vec) \<subseteq> dom ?objs" using "3.prems" by (auto simp: List.map_filter_def)
  from "3.IH" [OF es s [symmetric] refl this] obtain rs objs' where IH:
    "publish_all ev vec ?objs = Inr (rs, objs')" "dom objs' = dom ?objs"
    "\<forall>j es. ?objs j = Some es \<longrightarrow> (\<exists>es'. objs' j = Some es' \<and>
        es_queue es' = es_queue es @ replicate (count_list (List.map_filter id vec) j) ev \<and>
        es_paused es' = (es_paused es \<and> j \<notin> set (List.map_filter id vec)))"
    "distinct rs" "set rs = {j \<in> set (List.map_filter id vec). \<exists>es. ?objs j = Some es \<and> es_paused es}"
    by blast
  have mf: "List.map_filter id (Some i # vec) = i # List.map_filter id vec" by (simp add: List.map_filter_def)
  have "i \<notin> set rs" using IH(5) s1(3) by auto
  moreover have "\<exists>es'. objs' j = Some es' \<and> es_queue es' = es_queue e @ replicate (count_list (i # List.map_filter id vec) j) ev \<and>
      es_paused es' = (es_paused e \<and> j \<notin> set (i # List.map_filter id vec))"
    if "objs j = Some e" for j e
  proof (cases "j = i")
    case True
    obtain es' where "objs' i = Some es'"
      "es_queue es' = es_queue es1 @ replicate (count_list (List.map_filter id vec) i) ev" "\<not> es_paused es'"
      using spec [OF spec [OF IH(3), of i], of es1] s1(3) by auto
    then show ?thesis using True es s1(1) that by simp
  next
    case False
    then show ?thesis using spec [OF spec [OF IH(3), of j], of e] that by simp
  qed
  moreover have "dom objs' = dom objs" using IH(2) es by auto
  moreover have "set (if resume then i # rs else rs) =
      {j \<in> set (i # List.map_filter id vec). \<exists>es. objs j = Some es \<and> es_paused es}"
  proof (cases resume)
    case True
    then show ?thesis using es s1(2,3) by (auto simp: IH(5) split: if_split_asm)
  next
    case False
    then show ?thesis using es s1(2,3) by (auto simp: IH(5) split: if_split_asm)
  qed
  moreover have "publish_all ev (Some i # vec) objs = Inr (if resume then i # rs else rs, objs')"
    using es s IH(1) by simp
  moreover have "distinct (if resume then i # rs else rs)" using calculation(1) IH(4) by simp
  ultimately show ?case unfolding mf by blast
qed (auto simp: List.map_filter_def)

lemma publish_spec:
  assumes "set (subscribers reg (ev_channel ev)) \<subseteq> dom objs"
  shows "\<exists>rs objs'. publish ev reg objs = Inr (rs, objs') \<and> dom objs' = dom objs \<and>
     (\<forall>i es. objs i = Some es \<longrightarrow> (\<exists>es'. objs' i = Some es' \<and>
        es_queue es' = es_queue es @ replicate (count_list (subscribers reg (ev_channel ev)) i) ev \<and>
        es_paused es' = (es_paused es \<and> i \<notin> set (subscribers reg (ev_channel ev))))) \<and>
     distinct rs \<and> set rs = {i \<in> set (subscribers reg (ev_channel ev)). \<exists>es. objs i = Some es \<and> es_paused es}"
proof (cases "reg (ev_channel ev)")
  case None
  then show ?thesis by (simp add: publish_def subscribers_def)
next
  case (Some vec)
  then show ?thesis using publish_all_spec [of vec objs ev] assms by (simp add: publish_def subscribers_def)
qed

lemma step_no_dangling: "dispatcher_step d d' \<Longrightarrow> no_dangling d \<Longrightarrow> no_dangling d'"
proof (induction rule: dispatcher_step.induct)
  case (listens i d ch)
  then show ?case using registry.sub_within [of "registry_of d" "dom (live d)" i] by (simp add: no_dangling_def)
next
  case (destroyed d i)
  then show ?case using registry.unsub_within [of "registry_of d" "dom (live d)" i] by (simp add: no_dangling_def)
next
  case (published ev d rs o')
  then have "dom o' = dom (live d)" using publish_spec [of "registry_of d" ev "live d"] by (auto simp: no_dangling_def)
  then show ?case using published by (simp add: no_dangling_def)
qed (auto simp: no_dangling_def)

lemma run_no_dangling: "dispatcher_run d \<Longrightarrow> no_dangling d"
proof (induction rule: dispatcher_run.induct)
  case (more d d')
  then show ?case using step_no_dangling by blast
qed (simp add: new_dispatcher_def no_dangling_def subscribers_def)

section \<open>Properties\<close>

text \<open>
  Whatever streams came, listened, were drained and went before, publishing an event is safe and
  exact: no pointer dangles; every stream's queue grows by the event once per subscription it has
  on the channel, and by nothing else; and nghttp2 is told to resume exactly the subscribers that
  were paused, each once.
\<close>

theorem publish_reaches_subscribers:
  assumes "dispatcher_run d"
  shows "\<exists>rs objs'. publish ev (registry_of d) (live d) = Inr (rs, objs') \<and> dom objs' = dom (live d) \<and>
    (\<forall>i es. live d i = Some es \<longrightarrow> (\<exists>es'. objs' i = Some es' \<and>
       es_queue es' = es_queue es @ replicate (count_list (subscribers (registry_of d) (ev_channel ev)) i) ev)) \<and>
    distinct rs \<and> set rs = {i \<in> set (subscribers (registry_of d) (ev_channel ev)). \<exists>es. live d i = Some es \<and> es_paused es}"
proof -
  have "set (subscribers (registry_of d) (ev_channel ev)) \<subseteq> dom (live d)"
    using run_no_dangling [OF assms] by (simp add: no_dangling_def)
  from publish_spec [OF this] show ?thesis by blast
qed

theorem publish_reaches_subscribers_witness:
  "\<exists>d objs' es. dispatcher_run d \<and> publish (new_event ''c'' ''x'') (registry_of d) (live d) = Inr ([], objs') \<and>
     objs' 0 = Some es \<and> es_queue es = [new_event ''c'' ''x'', new_event ''c'' ''x'']"
proof -
  let ?o = "[0 \<mapsto> new_event_stream] :: nat \<rightharpoonup> EventStream"
  let ?d1 = "\<lparr>registry_of = Map.empty, live = ?o\<rparr>"
  let ?d3 = "\<lparr>registry_of = suscribe ''c'' 0 (suscribe ''c'' 0 Map.empty), live = ?o\<rparr>"
  have "dispatcher_run ?d1"
    using dispatcher_run.more [OF dispatcher_run.start dispatcher_step.made [of new_dispatcher 0]]
    by (simp add: new_dispatcher_def)
  then have "dispatcher_run \<lparr>registry_of = suscribe ''c'' 0 Map.empty, live = ?o\<rparr>"
    using dispatcher_run.more [OF _ dispatcher_step.listens [of 0 ?d1 "''c''"]] by simp
  then have run: "dispatcher_run ?d3"
    using dispatcher_run.more [OF _ dispatcher_step.listens [of 0 "\<lparr>registry_of = suscribe ''c'' 0 Map.empty, live = ?o\<rparr>" "''c''"]] by simp
  have subs: "subscribers (registry_of ?d3) ''c'' = [0, 0]"
    by (simp add: suscribe_def subscribers_def List.map_filter_def)
  have ch: "ev_channel (new_event ''c'' ''x'') = ''c''" by (simp add: new_event_def)
  obtain rs objs' where p: "publish (new_event ''c'' ''x'') (registry_of ?d3) (live ?d3) = Inr (rs, objs')"
    "\<forall>i es. live ?d3 i = Some es \<longrightarrow> (\<exists>es'. objs' i = Some es' \<and>
       es_queue es' = es_queue es @ replicate (count_list (subscribers (registry_of ?d3) ''c'') i) (new_event ''c'' ''x''))"
    "set rs = {i \<in> set (subscribers (registry_of ?d3) ''c''). \<exists>es. live ?d3 i = Some es \<and> es_paused es}"
    using publish_reaches_subscribers [OF run, of "new_event ''c'' ''x''"] unfolding ch by blast
  have "set rs = {}" using p(3) unfolding subs by (auto simp: new_event_stream_def split: if_splits)
  then have rs: "rs = []" by simp
  have "live ?d3 0 = Some new_event_stream" by simp
  with p(2) obtain es where es: "objs' 0 = Some es"
    "es_queue es = es_queue new_event_stream @ replicate (count_list [0, 0::nat] 0) (new_event ''c'' ''x'')"
    unfolding subs by blast
  have "es_queue es = [new_event ''c'' ''x'', new_event ''c'' ''x'']"
    using es(2) by (simp add: new_event_stream_def)
  with run p(1) es(1) rs show ?thesis by blast
qed

end
