(* ===== verification/Worker_Events.thy ===== *)
theory Worker_Events
  imports Worker_Sessions Event_Dispatcher
begin

text \<open>
  A worker's event dispatcher together with its connections: the registry points to event streams
  that live inside the streams of the sessions, are destroyed with them, and are fed through
  their session. A pointer is the serial number of the stream that holds the event stream.
\<close>

section \<open>The worker and its dispatcher\<close>

text \<open>\<open>p\<close> points to the event stream \<open>es\<close> in stream \<open>i\<close> of session \<open>n\<close>.\<close>

definition points_to :: "HttpWorker \<Rightarrow> nat \<Rightarrow> nat \<Rightarrow> int \<Rightarrow> EventStream \<Rightarrow> bool" where
  "points_to w p n i es \<longleftrightarrow>
     (case stream_at w n i of None \<Rightarrow> False | Some st \<Rightarrow> unat (st_serial st) = p \<and> st_data st = Some (Is_event es))"

definition valid_pointer :: "HttpWorker \<Rightarrow> nat \<Rightarrow> bool" where
  "valid_pointer w p \<longleftrightarrow> (\<exists>n i es. points_to w p n i es)"

text \<open>
  \<open>publish\<close>, one pointer after the other: a copy of the event goes to the stream's \<open>submit\<close>. There is no
  rule for a pointer that points to no event stream: there the code is undefined.
\<close>

inductive publish_run :: "Event \<Rightarrow> nat option list \<Rightarrow> HttpWorker \<Rightarrow> HttpWorker \<Rightarrow> bool" for ev where
  end_of_vector: "publish_run ev [] w w"
| null: "publish_run ev vec w w' \<Longrightarrow> publish_run ev (None # vec) w w'"
| submit: "points_to w p n i es \<Longrightarrow> event_cb i ev (enter w (w_sessions w ! n)) = Inr s \<Longrightarrow>
    publish_run ev vec (leave n s w) w' \<Longrightarrow> publish_run ev (Some p # vec) w w'"

record EventWorker =
  ew_worker :: HttpWorker
  ew_registry :: registry

text \<open>
  What happens to both: the worker runs, and the event streams that are destroyed on the way (all that
  have gone, and those replaced by another body) leave the registry; a handler subscribes
  an event stream that it has opened; somebody publishes.
\<close>

inductive event_worker_step :: "Env \<Rightarrow> HttpRouter \<Rightarrow> EventWorker \<Rightarrow> EventWorker \<Rightarrow> bool" for env router where
  works: "http_worker_step env router (ew_worker x) w' \<Longrightarrow>
    \<forall>p. valid_pointer (ew_worker x) p \<and> \<not> valid_pointer w' p \<longrightarrow> p \<in> set ps \<Longrightarrow>
    event_worker_step env router x \<lparr>ew_worker = w', ew_registry = fold remove_pointer ps (ew_registry x)\<rparr>"
| suscribes: "valid_pointer (ew_worker x) p \<Longrightarrow>
    event_worker_step env router x (x\<lparr>ew_registry := suscribe ch p (ew_registry x)\<rparr>)"
| publishes: "publish_run ev (case ew_registry x (ev_channel ev) of None \<Rightarrow> [] | Some vec \<Rightarrow> vec) (ew_worker x) w' \<Longrightarrow>
    event_worker_step env router x (x\<lparr>ew_worker := w'\<rparr>)"

inductive event_worker_run :: "Env \<Rightarrow> HttpRouter \<Rightarrow> FileStore \<Rightarrow> EventWorker \<Rightarrow> bool" for env router fs where
  start: "event_worker_run env router fs \<lparr>ew_worker = new_http_worker fs, ew_registry = Map.empty\<rparr>"
| more: "event_worker_run env router fs x \<Longrightarrow> event_worker_step env router x y \<Longrightarrow> event_worker_run env router fs y"

section \<open>One submit\<close>

lemma points_to_unique:
  assumes "linked D w" and "w_created w < 2 ^ 64" and "points_to w p n i es" and "points_to w p m j es'"
  shows "n = m \<and> i = j \<and> es = es'"
proof -
  obtain st st' where st: "stream_at w n i = Some st" "stream_at w m j = Some st'" "unat (st_serial st) = unat (st_serial st')"
    "st_data st = Some (Is_event es)" "st_data st' = Some (Is_event es')"
    using assms(3,4) by (auto simp: points_to_def split: option.splits)
  then have "n = m \<and> i = j" using linked_alive(2) [OF assms(1,2) st(1,2)] by (simp add: word_unat_eq_iff)
  then show ?thesis using st by simp
qed

lemma submit_one:
  assumes "linked D w" and "w_created w < 2 ^ 64" and "points_to w p n i es"
  shows "\<exists>s. event_cb i ev (enter w (w_sessions w ! n)) = Inr s \<and> http_worker_step env router w (leave n s w) \<and>
    w_created (leave n s w) = w_created w \<and> length (w_sessions (leave n s w)) = length (w_sessions w) \<and>
    (\<forall>q m j e. points_to (leave n s w) q m j e \<longleftrightarrow>
       (if q = p then m = n \<and> j = i \<and> e = snd (es_submit ev es) else points_to w q m j e)) \<and>
    (\<forall>m < length (w_sessions w). ng_calls (conn (w_sessions (leave n s w) ! m)) =
       ng_calls (conn (w_sessions w ! m)) @ (if m = n \<and> es_paused es then [Resume_data i] else []))"
proof -
  obtain st where st: "n < length (w_sessions w)" "streams (w_sessions w ! n) i = Some st" "unat (st_serial st) = p"
    "st_data st = Some (Is_event es)"
    using assms(3) by (auto simp: points_to_def stream_at_def split: option.splits if_splits)
  have "kept_streams (w_sessions w ! n)" using assms(1) st(1) by (auto simp: linked_def)
  then have id: "st_id st = i" using st(2) by (auto simp: kept_streams_def)
  obtain b es' where e: "es_submit ev es = (b, es')" by fastforce
  have b: "b = es_paused es" using es_submit_resume(1) [of ev es] e by simp
  let ?old = "enter w (w_sessions w ! n)"
  let ?st = "st\<lparr>st_data := Some (Is_event es')\<rparr>"
  let ?s = "put_stream ?st (?old\<lparr>conn := if b then call_nghttp2 (Resume_data i) (conn ?old) else conn ?old\<rparr>)"
  have cb: "event_cb i ev ?old = Inr ?s"
    using st(2,4) e id by (simp add: event_cb_def submit_event_def enter_def)
  have step: "http_worker_step env router w (leave n ?s w)"
    by (rule http_worker_step.runs [OF st(1) session_step.event [OF cb]]) simp
  have streams: "streams ?s = (streams (w_sessions w ! n))(i \<mapsto> ?st)"
    using id by (simp add: put_stream_def enter_def)
  have at: "stream_at (leave n ?s w) m j = (if m = n \<and> j = i then Some ?st else stream_at w m j)" for m j
    using st(1) streams by (auto simp: stream_at_def leave_def nth_list_update)
  have pts: "points_to (leave n ?s w) q m j e' \<longleftrightarrow>
      (if q = p then m = n \<and> j = i \<and> e' = es' else points_to w q m j e')" for q m j e'
  proof (cases "m = n \<and> j = i")
    case True
    have "points_to w q n i e' \<Longrightarrow> q = p" for e' using st by (auto simp: points_to_def stream_at_def)
    then show ?thesis using True st(3) at [of m j] by (auto simp: points_to_def)
  next
    case False
    have "points_to (leave n ?s w) q m j e' = points_to w q m j e'"
      unfolding points_to_def at using False by (simp only: if_False)
    then show ?thesis using False points_to_unique [OF assms(1,2,3), of m j e'] by auto
  qed
  have "w_created (leave n ?s w) = w_created w" "length (w_sessions (leave n ?s w)) = length (w_sessions w)"
    by (simp_all add: leave_def put_stream_def enter_def)
  moreover have "ng_calls (conn (w_sessions (leave n ?s w) ! m)) =
      ng_calls (conn (w_sessions w ! m)) @ (if m = n \<and> es_paused es then [Resume_data i] else [])"
    if "m < length (w_sessions w)" for m
    using that b st(1) by (cases "m = n") (simp_all add: leave_def put_stream_def enter_def call_nghttp2_def)
  ultimately show ?thesis using cb step pts e by (intro exI [of _ ?s]) simp
qed

section \<open>Publishing\<close>

text \<open>The event streams \<open>ps\<close> have got the event: what changed, and whom nghttp2 was told to resume.\<close>

definition told :: "HttpWorker \<Rightarrow> nat list \<Rightarrow> Event \<Rightarrow> HttpWorker \<Rightarrow> bool" where
  "told w ps ev w' \<longleftrightarrow> w_created w' = w_created w \<and> length (w_sessions w') = length (w_sessions w) \<and>
     (\<forall>p n i es. points_to w p n i es \<longrightarrow> (\<exists>es'. points_to w' p n i es' \<and>
        es_queue es' = es_queue es @ replicate (count_list ps p) ev \<and> es_paused es' = (es_paused es \<and> p \<notin> set ps))) \<and>
     (\<forall>n < length (w_sessions w). \<exists>is. distinct is \<and>
        ng_calls (conn (w_sessions w' ! n)) = ng_calls (conn (w_sessions w ! n)) @ map Resume_data is \<and>
        set is = {i. \<exists>p es. points_to w p n i es \<and> es_paused es \<and> p \<in> set ps})"

lemma told_none: "told w [] ev w"
  by (auto simp: told_def intro: exI [of _ "[]"])

lemma told_step:
  assumes w: "linked D w" "w_created w < 2 ^ 64" "points_to w p n i es"
    and step: "w_created w1 = w_created w" "length (w_sessions w1) = length (w_sessions w)"
      "\<forall>q m j e. points_to w1 q m j e \<longleftrightarrow>
         (if q = p then m = n \<and> j = i \<and> e = snd (es_submit ev es) else points_to w q m j e)"
      "\<forall>m < length (w_sessions w). ng_calls (conn (w_sessions w1 ! m)) =
         ng_calls (conn (w_sessions w ! m)) @ (if m = n \<and> es_paused es then [Resume_data i] else [])"
    and rest: "told w1 ps ev w'"
  shows "told w (p # ps) ev w'"
proof -
  have new: "points_to w1 p n i (snd (es_submit ev es))" using step(3) by simp
  have paused: "points_to w1 q m j e \<and> es_paused e \<longleftrightarrow> points_to w q m j e \<and> es_paused e \<and> q \<noteq> p" for q m j e
    using step(3) es_submit_resume(2) [of ev es] by (cases "q = p") auto
  have "\<exists>e'. points_to w' q m j e' \<and> es_queue e' = es_queue e @ replicate (count_list (p # ps) q) ev \<and>
      es_paused e' = (es_paused e \<and> q \<notin> set (p # ps))" if "points_to w q m j e" for q m j e
  proof (cases "q = p")
    case True
    have e: "m = n" "j = i" "e = es" using points_to_unique [OF w(1,2) w(3)] that True by auto
    obtain e' where "points_to w' p n i e'"
      "es_queue e' = es_queue (snd (es_submit ev es)) @ replicate (count_list ps p) ev"
      "es_paused e' = (es_paused (snd (es_submit ev es)) \<and> p \<notin> set ps)"
      using rest new unfolding told_def by blast
    then show ?thesis using True e by (intro exI [of _ e']) (simp add: es_submit_queue es_submit_resume)
  next
    case False
    then have "points_to w1 q m j e" using step(3) that by simp
    then show ?thesis using rest False unfolding told_def by auto
  qed
  moreover have "\<exists>is. distinct is \<and> ng_calls (conn (w_sessions w' ! m)) = ng_calls (conn (w_sessions w ! m)) @ map Resume_data is \<and>
      set is = {j. \<exists>q e. points_to w q m j e \<and> es_paused e \<and> q \<in> set (p # ps)}" if m: "m < length (w_sessions w)" for m
  proof -
    have "m < length (w_sessions w1)" using m step(2) by simp
    with rest obtain "is" where "is": "distinct is" "ng_calls (conn (w_sessions w' ! m)) = ng_calls (conn (w_sessions w1 ! m)) @ map Resume_data is"
      "set is = {j. \<exists>q e. points_to w1 q m j e \<and> es_paused e \<and> q \<in> set ps}"
      unfolding told_def by blast
    let ?first = "if m = n \<and> es_paused es then [i] else []"
    have "set is = {j. \<exists>q e. points_to w q m j e \<and> es_paused e \<and> q \<in> set ps \<and> q \<noteq> p}"
      using "is"(3) paused [of _ m] by blast
    moreover have "points_to w p m j e \<longleftrightarrow> m = n \<and> j = i \<and> e = es" for j e
      using points_to_unique [OF w, of m j e] w(3) by blast
    then have "{j. \<exists>e. points_to w p m j e \<and> es_paused e} = set ?first" by simp
    moreover have "{j. \<exists>q e. points_to w q m j e \<and> es_paused e \<and> q \<in> set (p # ps)} =
        {j. \<exists>e. points_to w p m j e \<and> es_paused e} \<union> {j. \<exists>q e. points_to w q m j e \<and> es_paused e \<and> q \<in> set ps \<and> q \<noteq> p}"
      by auto
    ultimately have "set (?first @ is) = {j. \<exists>q e. points_to w q m j e \<and> es_paused e \<and> q \<in> set (p # ps)}"
      by (simp only: set_append)
    moreover have "i \<notin> set is" if "m = n"
    proof
      assume "i \<in> set is"
      then have "i \<in> {j. \<exists>q e. points_to w1 q n j e \<and> es_paused e \<and> q \<in> set ps}" using "is"(3) that by simp
      then obtain q e where "points_to w1 q n i e \<and> es_paused e" by blast
      then have "points_to w q n i e" "q \<noteq> p" using paused by simp_all
      then show False using w(3) by (auto simp: points_to_def split: option.splits)
    qed
    then have "distinct (?first @ is)" using "is"(1) by (cases "m = n \<and> es_paused es") auto
    moreover have "ng_calls (conn (w_sessions w' ! m)) = ng_calls (conn (w_sessions w ! m)) @ map Resume_data (?first @ is)"
      using "is"(2) step(4) m by simp
    ultimately show ?thesis by blast
  qed
  ultimately show ?thesis using rest step(1,2) unfolding told_def by simp
qed

lemma publish_told:
  "linked D w \<Longrightarrow> w_created w < 2 ^ 64 \<Longrightarrow> \<forall>p. Some p \<in> set vec \<longrightarrow> valid_pointer w p \<Longrightarrow>
   \<exists>w'. publish_run ev vec w w' \<and> http_worker_run env router w w' \<and> told w (List.map_filter id vec) ev w'"
proof (induction vec arbitrary: w)
  case Nil
  have "List.map_filter id [] = []" by (simp add: List.map_filter_def)
  then show ?case
    using publish_run.end_of_vector http_worker_run.start told_none by (intro exI [of _ w]) simp
next
  case (Cons x vec)
  show ?case
  proof (cases x)
    case None
    have "\<forall>p. Some p \<in> set vec \<longrightarrow> valid_pointer w p" using Cons.prems(3) by simp
    from Cons.IH [OF Cons.prems(1,2) this] obtain w' where w': "publish_run ev vec w w'" "http_worker_run env router w w'"
      "told w (List.map_filter id vec) ev w'" by blast
    have "List.map_filter id (None # vec) = List.map_filter id vec" by (simp add: List.map_filter_def)
    then show ?thesis using publish_run.null [OF w'(1)] w'(2,3) None by (intro exI [of _ w']) (simp del: id_apply)
  next
    case (Some p)
    then obtain n i es where p: "points_to w p n i es" using Cons.prems(3) by (auto simp: valid_pointer_def)
    from submit_one [OF Cons.prems(1,2) p, of ev env router]
    obtain s where s: "event_cb i ev (enter w (w_sessions w ! n)) = Inr s" "http_worker_step env router w (leave n s w)"
      "w_created (leave n s w) = w_created w" "length (w_sessions (leave n s w)) = length (w_sessions w)"
      "\<forall>q m j e. points_to (leave n s w) q m j e \<longleftrightarrow>
         (if q = p then m = n \<and> j = i \<and> e = snd (es_submit ev es) else points_to w q m j e)"
      "\<forall>m < length (w_sessions w). ng_calls (conn (w_sessions (leave n s w) ! m)) =
         ng_calls (conn (w_sessions w ! m)) @ (if m = n \<and> es_paused es then [Resume_data i] else [])"
      by blast
    have l: "linked D (leave n s w)" by (rule step_linked [OF s(2) Cons.prems(1)])
    have c: "w_created (leave n s w) < 2 ^ 64" using Cons.prems(2) s(3) by simp
    have "valid_pointer (leave n s w) q" if "valid_pointer w q" for q
      using that s(5) by (cases "q = p") (auto simp: valid_pointer_def)
    then have "\<forall>q. Some q \<in> set vec \<longrightarrow> valid_pointer (leave n s w) q" using Cons.prems(3) by simp
    from Cons.IH [OF l c this] obtain w' where w': "publish_run ev vec (leave n s w) w'"
      "http_worker_run env router (leave n s w) w'" "told (leave n s w) (List.map_filter id vec) ev w'" by blast
    have "List.map_filter id (Some p # vec) = p # List.map_filter id vec" by (simp add: List.map_filter_def)
    moreover have "told w (p # List.map_filter id vec) ev w'"
      by (rule told_step [OF Cons.prems(1,2) p s(3-6) w'(3)])
    moreover have "http_worker_run env router w w'"
      using w'(2) s(2) by (induction rule: http_worker_run.induct) (auto intro: http_worker_run.intros)
    moreover have "publish_run ev (Some p # vec) w w'" by (rule publish_run.submit [OF p s(1) w'(1)])
    ultimately show ?thesis unfolding Some by (intro exI [of _ w']) (simp del: id_apply)
  qed
qed

section \<open>No pointer dangles\<close>

lemma worker_run_front:
  assumes "http_worker_step env router w w1" and "http_worker_run env router w1 w'"
  shows "http_worker_run env router w w'"
  using assms(2) by induction (auto intro: http_worker_run.intros assms(1))

lemma publish_is_run: "publish_run ev vec w w' \<Longrightarrow> http_worker_run env router w w'"
proof (induction rule: publish_run.induct)
  case (submit w p n i es s vec w')
  have "n < length (w_sessions w)" using submit(1) by (auto simp: points_to_def stream_at_def split: option.splits if_splits)
  then have "http_worker_step env router w (leave n s w)"
    by (rule http_worker_step.runs [OF _ session_step.event [OF submit(2)]]) simp
  then show ?case using submit.IH by (rule worker_run_front)
qed (auto intro: http_worker_run.start)

lemma publish_created: "publish_run ev vec w w' \<Longrightarrow> w_created w' = w_created w"
proof (induction rule: publish_run.induct)
  case (submit w p n i es s vec w')
  have "created s = w_created w"
    using submit(2) by (auto simp: event_cb_def fault_simps put_stream_def enter_def split: option.splits)
  then show ?case using submit.IH by (simp add: leave_def)
qed simp_all

lemma publish_keeps_pointers:
  "publish_run ev vec w w' \<Longrightarrow> linked D w \<Longrightarrow> w_created w < 2 ^ 64 \<Longrightarrow> valid_pointer w q \<Longrightarrow> valid_pointer w' q"
proof (induction rule: publish_run.induct)
  case (submit w p n i es s vec w')
  from submit_one [OF submit.prems(1,2) submit(1), of ev sample_env sample_router] submit(2)
  have s: "http_worker_step sample_env sample_router w (leave n s w)" "w_created (leave n s w) = w_created w"
    "\<forall>q m j e. points_to (leave n s w) q m j e \<longleftrightarrow>
       (if q = p then m = n \<and> j = i \<and> e = snd (es_submit ev es) else points_to w q m j e)"
    by auto
  have "valid_pointer (leave n s w) q"
    using submit.prems(3) s(3) by (cases "q = p") (auto simp: valid_pointer_def)
  then show ?case using submit.IH step_linked [OF s(1) submit.prems(1)] submit.prems(2) s(2) by simp
qed simp_all

lemma worker_created:
  assumes "http_worker_step env router w w'" and "linked D w"
  shows "w_created w \<le> w_created w'"
proof -
  have grows: "w_created w \<le> created s'" if "k < length (w_sessions w)"
      "\<And>n b al E. registered n b al E (enter w (w_sessions w ! k)) \<Longrightarrow> registered n b al E s'" for k s'
  proof -
    let ?xs = "take k (w_sessions w)" and ?ys = "drop (Suc k) (w_sessions w)"
    have "w_sessions w = ?xs @ w_sessions w ! k # ?ys" using that(1) by (simp add: id_take_nth_drop)
    from that(2) [OF linked_enter [OF assms(2) this]] show ?thesis
      by (auto simp: registered_def roster_def enrolled.simps)
  qed
  have erased: "w_created (erase_session ids k v) = w_created v" for ids k v
  proof -
    have "created (fold remove_stream ids s) = created s" for s
      by (induction ids arbitrary: s) (auto simp: remove_stream_def split: option.splits)
    then show ?thesis by (simp add: erase_session_def leave_def enter_def Let_def)
  qed
  show ?thesis using assms(1)
  proof cases
    case (runs k rv s')
    then show ?thesis using grows registered.step_inv by (simp add: leave_def)
  next
    case (ends k s' ids)
    then show ?thesis using grows registered.step_inv by (simp add: erased) (simp add: leave_def)
  next
    case (answers k i st op s')
    then show ?thesis using grows registered.recv_law by (simp add: leave_def)
  qed (simp_all add: add_http_session_def)
qed

lemma subscribers_removed:
  "subscribers (fold remove_pointer ps reg) ch = filter (\<lambda>p. p \<notin> set ps) (subscribers reg ch)"
  by (induction ps arbitrary: reg) (auto simp: registry.unsub_law intro: filter_cong)

lemma event_worker_ok:
  "event_worker_run env router fs x \<Longrightarrow> linked {} (ew_worker x) \<and>
     (w_created (ew_worker x) < 2 ^ 64 \<longrightarrow> (\<forall>ch. \<forall>p \<in> set (subscribers (ew_registry x) ch). valid_pointer (ew_worker x) p))"
proof (induction rule: event_worker_run.induct)
  case start
  then show ?case using new_linked by (simp add: subscribers_def)
next
  case (more x y)
  show ?case using more(2)
  proof cases
    case (works w' ps)
    then show ?thesis
      using more.IH step_linked worker_created [OF works(2)] by (fastforce simp: subscribers_removed)
  next
    case (suscribes p ch)
    then show ?thesis using more.IH by (auto simp: registry.sub_set split: if_splits)
  next
    case (publishes ev w')
    have "linked {} w'" using run_linked [OF publish_is_run [OF publishes(2)]] more.IH by blast
    then show ?thesis
      using publishes more.IH publish_created [OF publishes(2)] publish_keeps_pointers [OF publishes(2), of "{}"] by auto
  qed
qed

section \<open>Properties\<close>

text \<open>
  C13. Publishing in a running worker: whatever its connections, its handlers and those who publish have
  done (with fewer than \<open>2 ^ 64\<close> streams opened), no pointer in the dispatcher's registry dangles, so
  that publishing an event goes through; each event stream, in whatever session it is, gets the event
  once per subscription to the channel; and of each session nghttp2 is told to resume exactly the streams
  that listen to the channel and were waiting, each once.
\<close>

theorem events_reach_streams:
  assumes "event_worker_run env router fs x" and "w_created (ew_worker x) < 2 ^ 64"
  shows "\<exists>w'. publish_run ev (case ew_registry x (ev_channel ev) of None \<Rightarrow> [] | Some vec \<Rightarrow> vec) (ew_worker x) w' \<and>
    (\<forall>p n i es. points_to (ew_worker x) p n i es \<longrightarrow> (\<exists>es'. points_to w' p n i es' \<and>
       es_queue es' = es_queue es @ replicate (count_list (subscribers (ew_registry x) (ev_channel ev)) p) ev)) \<and>
    (\<forall>n < length (w_sessions (ew_worker x)). \<exists>is. distinct is \<and>
       ng_calls (conn (w_sessions w' ! n)) = ng_calls (conn (w_sessions (ew_worker x) ! n)) @ map Resume_data is \<and>
       set is = {i. \<exists>p es. points_to (ew_worker x) p n i es \<and> es_paused es \<and>
         p \<in> set (subscribers (ew_registry x) (ev_channel ev))})"
proof -
  let ?vec = "case ew_registry x (ev_channel ev) of None \<Rightarrow> [] | Some vec \<Rightarrow> vec"
  have ok: "linked {} (ew_worker x)" "\<forall>p \<in> set (subscribers (ew_registry x) (ev_channel ev)). valid_pointer (ew_worker x) p"
    using event_worker_ok [OF assms(1)] assms(2) by auto
  have subs: "List.map_filter id ?vec = subscribers (ew_registry x) (ev_channel ev)"
    by (simp add: subscribers_def List.map_filter_def split: option.splits)
  have "Some p \<in> set vec \<Longrightarrow> p \<in> set (List.map_filter id vec)" for p :: nat and vec
    by (induction vec) (auto simp: List.map_filter_def)
  then have "\<forall>p. Some p \<in> set ?vec \<longrightarrow> valid_pointer (ew_worker x) p" using ok(2) subs by metis
  from publish_told [OF ok(1) assms(2) this, of ev env router]
  obtain w' where w': "publish_run ev ?vec (ew_worker x) w'" "told (ew_worker x) (subscribers (ew_registry x) (ev_channel ev)) ev w'"
    unfolding subs by blast
  show ?thesis using w'(1) w'(2) [unfolded told_def] by (intro exI [of _ w'] conjI) (assumption, blast, blast)
qed

section \<open>A worker with a subscriber\<close>

lemma submit_response_total: "\<exists>st' c'. submit_response b st c = Inr (st', c') \<and> st_data st' = st_data st"
  by (cases "status (st_response st)") (auto simp: submit_response_def set_status_def Let_def)

lemma event_source_opened:
  "\<exists>st' c'. create_event_source st c = Inr (st', c') \<and> st_data st' = Some (Is_event new_event_stream) \<and>
     st_id st' = st_id st \<and> st_serial st' = st_serial st"
proof -
  let ?st = "stop_read_timeout (response_header ''content-type'' ''text/event-stream''
    (response_header ''cache-control'' ''no-store'' st)\<lparr>st_data := Some (Is_event new_event_stream)\<rparr>)"
  obtain st' c' where "submit_response True ?st c = Inr (st', c')" "st_data st' = st_data ?st"
    using submit_response_total [of True ?st c] by blast
  then have e: "create_event_source st c = Inr (st', c')" "st_data st' = Some (Is_event new_event_stream)"
    by (simp_all add: create_event_source_def stop_read_timeout_def)
  then show ?thesis using request_event(1) [OF e(1)] by (simp add: request_of_def)
qed

lemma finite_pointers: "finite {p. valid_pointer w p}"
proof (rule finite_subset)
  show "{p. valid_pointer w p} \<subseteq> {..< 2 ^ 64}"
  proof
    fix p assume "p \<in> {p. valid_pointer w p}"
    then obtain k :: "64 word" where "unat k = p" by (auto simp: valid_pointer_def points_to_def split: option.splits)
    then show "p \<in> {..< 2 ^ 64}" using unsigned_less [of k] by auto
  qed
qed simp

lemma remove_from_empty: "fold remove_pointer ps Map.empty = Map.empty"
  by (induction ps) (simp_all add: remove_pointer_def)

text \<open>Without subscribers a worker runs as it does without a dispatcher.\<close>

lemma no_subscribers:
  "http_worker_run env router (new_http_worker fs) w \<Longrightarrow>
   event_worker_run env router fs \<lparr>ew_worker = w, ew_registry = Map.empty\<rparr>"
proof (induction rule: http_worker_run.induct)
  case (more v w)
  obtain ps where "set ps = {p. valid_pointer v p}" using finite_list [OF finite_pointers] by blast
  then have "event_worker_step env router \<lparr>ew_worker = v, ew_registry = Map.empty\<rparr>
      \<lparr>ew_worker = w, ew_registry = fold remove_pointer ps (ew_registry \<lparr>ew_worker = v, ew_registry = Map.empty\<rparr>)\<rparr>"
    using more(2) by (intro event_worker_step.works) auto
  then show ?case using event_worker_run.more [OF more.IH] by (simp add: remove_from_empty)
qed (rule event_worker_run.start)

lemma sample_event_worker:
  "\<exists>x. event_worker_run sample_env sample_router empty_store x \<and> w_created (ew_worker x) = 1 \<and>
     points_to (ew_worker x) 0 0 1 new_event_stream \<and> subscribers (ew_registry x) ''c'' = [0]"
proof -
  obtain w s st where w: "http_worker_run sample_env sample_router (new_http_worker empty_store) w" "w_sessions w = [s]"
    "streams s = [1 \<mapsto> st]" "st_serial st = 0" "enter w s = s" "w_created w = 1" "created s = 1"
    using sample_worker by blast
  have l: "linked {} w" using run_linked [OF w(1) new_linked] .
  then have "st_id st = 1" using w(2,3) by (auto simp: linked_def kept_streams_def)
  obtain st' c' where e: "create_event_source st (conn s) = Inr (st', c')" "st_data st' = Some (Is_event new_event_stream)"
    "st_id st' = 1" "st_serial st' = 0"
    using event_source_opened [of st "conn s"] w(4) \<open>st_id st = 1\<close> by auto
  let ?s = "put_stream st' (s\<lparr>conn := c', store := store s\<rparr>)"
  let ?w = "leave 0 ?s w"
  have "recv_step sample_env sample_router (Handler_call 1 Open_events) s = Inr ?s"
    using w(3) e(1) by (simp add: recv_step_def in_session_def response_step_def stream_only_def)
  moreover have "stream_at w 0 1 = Some st" using w(2,3) by (simp add: stream_at_def)
  then have "is_stream_alive 0 w" using linked_alive(1) [OF l, of 0] w(4,6) by auto
  ultimately have "http_worker_step sample_env sample_router w ?w"
    using w(2-5) by (intro http_worker_step.answers [of 0 w 1 st]) simp_all
  from event_worker_run.more [OF no_subscribers [OF http_worker_run.more [OF w(1) this]] event_worker_step.suscribes]
  have run: "event_worker_run sample_env sample_router empty_store \<lparr>ew_worker = ?w, ew_registry = suscribe ''c'' 0 Map.empty\<rparr>"
    if "valid_pointer ?w 0"
    using that by simp
  have p: "points_to ?w 0 0 1 new_event_stream"
    using w(2) e(2-4) by (simp add: points_to_def stream_at_def leave_def put_stream_def)
  then have "valid_pointer ?w 0" by (auto simp: valid_pointer_def)
  moreover have "w_created ?w = 1" using w(7) by (simp add: leave_def put_stream_def)
  moreover have "subscribers (suscribe ''c'' 0 Map.empty) ''c'' = [0]"
    by (simp add: subscribers_def suscribe_def List.map_filter_def)
  ultimately show ?thesis using run p
    by (intro exI [of _ "\<lparr>ew_worker = ?w, ew_registry = suscribe ''c'' 0 Map.empty\<rparr>"]) simp
qed

theorem events_reach_streams_witness:
  "\<exists>x w' es'. event_worker_run sample_env sample_router empty_store x \<and>
     publish_run (new_event ''c'' ''x'') (case ew_registry x ''c'' of None \<Rightarrow> [] | Some vec \<Rightarrow> vec) (ew_worker x) w' \<and>
     points_to w' 0 0 1 es' \<and> es_queue es' = [new_event ''c'' ''x'']"
proof -
  obtain x where x: "event_worker_run sample_env sample_router empty_store x" "w_created (ew_worker x) = 1"
    "points_to (ew_worker x) 0 0 1 new_event_stream" "subscribers (ew_registry x) ''c'' = [0]"
    using sample_event_worker by blast
  have c: "ev_channel (new_event ''c'' ''x'') = ''c''" by (simp add: new_event_def)
  have "w_created (ew_worker x) < 2 ^ 64" using x(2) by simp
  from events_reach_streams [OF x(1) this, of "new_event ''c'' ''x''"] x(3)
  obtain w' es' where "publish_run (new_event ''c'' ''x'') (case ew_registry x ''c'' of None \<Rightarrow> [] | Some vec \<Rightarrow> vec) (ew_worker x) w'"
    "points_to w' 0 0 1 es'"
    "es_queue es' = es_queue new_event_stream @ replicate (count_list (subscribers (ew_registry x) ''c'') 0) (new_event ''c'' ''x'')"
    unfolding c by blast
  then show ?thesis using x(1,4) by (intro exI [of _ x] exI [of _ w'] exI [of _ es']) (simp add: new_event_stream_def)
qed

end
