(* ===== verification/Json_Text.thy ===== *)
theory Json_Text
  imports Text_Codecs
begin

text \<open>
  JSON output: the quoting of strings (\<open>util.cc\<close>, copied in \<open>json.cc\<close>), query results as
  JSON (\<open>jsonify_row\<close>, \<open>to_json\<close>) and the writer of \<open>json.h\<close>, in which every value
  leaves a comma behind that the closing bracket overwrites. All three are proved to render a
  value of one abstract type; a reference decoder reads quoted strings back.
\<close>

section \<open>Quoted strings\<close>

definition needs_escape :: "char \<Rightarrow> bool" where
  "needs_escape c \<longleftrightarrow> c = CHR 0x5C \<or> c = CHR 0x22 \<or> code c < 0x20"

definition hexchars :: string where
  "hexchars = ''0123456789abcdef''"

definition escape_char :: "char \<Rightarrow> string" where
  "escape_char c =
     (if c = CHR 0x22 then [CHR 0x5C, CHR 0x22]
      else if c = CHR 0x5C then [CHR 0x5C, CHR 0x5C]
      else if c = CHR 0x08 then [CHR 0x5C, CHR ''b'']
      else if c = CHR 0x0C then [CHR 0x5C, CHR ''f'']
      else if c = CHR 0x0A then [CHR 0x5C, CHR ''n'']
      else if c = CHR 0x0D then [CHR 0x5C, CHR ''r'']
      else if c = CHR 0x09 then [CHR 0x5C, CHR ''t'']
      else if code c < 0x20 then
        [CHR 0x5C, CHR ''u'', CHR ''0'', CHR ''0'', hexchars ! (code c div 16), hexchars ! (code c mod 16)]
      else [c])"

definition append_quoted_string :: "string \<Rightarrow> string \<Rightarrow> string" where
  "append_quoted_string sv ret =
     (if \<not> list_ex needs_escape sv then ret @ [CHR 0x22] @ sv @ [CHR 0x22]
      else fold (\<lambda>c ret. ret @ escape_char c) sv (ret @ [CHR 0x22]) @ [CHR 0x22])"

text \<open>The copy in \<open>json.cc\<close>, a member of \<open>Node\<close>.\<close>

definition Node_append_quoted_string :: "string \<Rightarrow> string \<Rightarrow> string" where
  "Node_append_quoted_string sv out =
     (if \<not> list_ex needs_escape sv then out @ [CHR 0x22] @ sv @ [CHR 0x22]
      else fold (\<lambda>c ret. ret @ escape_char c) sv (out @ [CHR 0x22]) @ [CHR 0x22])"

definition quoted :: "string \<Rightarrow> string" where
  "quoted s = [CHR 0x22] @ concat (map escape_char s) @ [CHR 0x22]"

lemma fold_append: "fold (\<lambda>c ret. ret @ f c) s r = r @ concat (map f s)"
  by (induction s arbitrary: r) auto

lemma escape_plain: "\<not> list_ex needs_escape s \<Longrightarrow> concat (map escape_char s) = s"
  by (induction s) (auto simp: needs_escape_def escape_char_def)

lemma append_quoted_string_eq: "append_quoted_string s ret = ret @ quoted s"
  by (simp add: append_quoted_string_def quoted_def fold_append escape_plain)

lemma Node_append_quoted_string_eq: "Node_append_quoted_string s ret = ret @ quoted s"
  by (simp add: Node_append_quoted_string_def quoted_def fold_append escape_plain)

text \<open>A reader of JSON strings, from after the opening quote: the string and what follows.\<close>

definition hex_digit_value :: "char \<Rightarrow> nat option" where
  "hex_digit_value c =
     (if 48 \<le> code c \<and> code c \<le> 57 then Some (code c - 48)
      else if 65 \<le> code c \<and> code c \<le> 70 then Some (code c - 55)
      else if 97 \<le> code c \<and> code c \<le> 102 then Some (code c - 87) else None)"

definition simple_escape :: "char \<Rightarrow> char option" where
  "simple_escape c =
     (if c = CHR 0x22 \<or> c = CHR 0x5C \<or> c = CHR ''/'' then Some c
      else if c = CHR ''b'' then Some (CHR 0x08) else if c = CHR ''f'' then Some (CHR 0x0C)
      else if c = CHR ''n'' then Some (CHR 0x0A) else if c = CHR ''r'' then Some (CHR 0x0D)
      else if c = CHR ''t'' then Some (CHR 0x09) else None)"

fun read_string :: "string \<Rightarrow> (string \<times> string) option" where
  "read_string [] = None"
| "read_string (c # s) =
     (if c = CHR 0x22 then Some ([], s)
      else if code c < 0x20 then None
      else if c \<noteq> CHR 0x5C then map_option (apfst (Cons c)) (read_string s)
      else
        (case s of
           [] \<Rightarrow> None
         | e # t \<Rightarrow>
             if e = CHR ''u'' then
               (case t of
                  z1 # z2 # h # l # u \<Rightarrow>
                    if z1 = CHR ''0'' \<and> z2 = CHR ''0'' then
                      (case (hex_digit_value h, hex_digit_value l) of
                         (Some i, Some j) \<Rightarrow> map_option (apfst (Cons (char_of (16 * i + j)))) (read_string u)
                       | _ \<Rightarrow> None)
                    else None
                | _ \<Rightarrow> None)
             else (case simple_escape e of
                     None \<Rightarrow> None | Some x \<Rightarrow> map_option (apfst (Cons x)) (read_string t))))"

lemma hexchars_value: "n < 16 \<Longrightarrow> hex_digit_value (hexchars ! n) = Some n"
proof -
  assume "n < 16"
  moreover have "list_all (\<lambda>n. hex_digit_value (hexchars ! n) = Some n) [0..<16]"
    by (simp add: upt_rec hexchars_def hex_digit_value_def)
  ultimately show ?thesis by (simp add: list_all_iff)
qed

lemma read_escape_char:
  "read_string (escape_char c @ s) = map_option (apfst (Cons c)) (read_string s)"
proof -
  consider "c \<in> {CHR 0x22, CHR 0x5C, CHR 0x08, CHR 0x0C, CHR 0x0A, CHR 0x0D, CHR 0x09}"
    | "c \<notin> {CHR 0x22, CHR 0x5C, CHR 0x08, CHR 0x0C, CHR 0x0A, CHR 0x0D, CHR 0x09}" "code c < 0x20"
    | "c \<notin> {CHR 0x22, CHR 0x5C, CHR 0x08, CHR 0x0C, CHR 0x0A, CHR 0x0D, CHR 0x09}" "\<not> code c < 0x20"
    by blast
  then show ?thesis
  proof cases
    case 1
    then show ?thesis by (auto simp: escape_char_def simple_escape_def)
  next
    case 2
    have "char_of (16 * (code c div 16) + code c mod 16) = c"
      by (simp only: mult_div_mod_eq char_of_code)
    moreover have "code c div 16 < 16" using code_lt [of c] by simp
    ultimately show ?thesis using 2 by (simp add: escape_char_def hexchars_value)
  next
    case 3
    then show ?thesis by (simp add: escape_char_def)
  qed
qed

text \<open>
  Both copies of \<open>append_quoted_string\<close> append a string a JSON reader reads back to exactly
  the bytes given, with nothing left over, whichever way they take: the fast path without
  escapes and the slow one are one function.
\<close>

theorem quoted_string_reads_back:
  "\<exists>body. append_quoted_string s ret = ret @ CHR 0x22 # body \<and>
     Node_append_quoted_string s ret = ret @ CHR 0x22 # body \<and>
     read_string (body @ rest) = Some (s, rest)"
proof (intro exI conjI)
  let ?body = "concat (map escape_char s) @ [CHR 0x22]"
  show "append_quoted_string s ret = ret @ CHR 0x22 # ?body"
    "Node_append_quoted_string s ret = ret @ CHR 0x22 # ?body"
    by (simp_all add: append_quoted_string_eq Node_append_quoted_string_eq quoted_def)
  show "read_string (?body @ rest) = Some (s, rest)"
    by (induction s) (simp_all add: read_escape_char)
qed

section \<open>JSON values and their rendering\<close>

text \<open>\<open>Raw\<close> is text used as it is: numbers of a query, \<open>Unquoted\<close>, keys are never escaped.\<close>

datatype json = Null | Raw string | Bool bool | Str string | Arr "json list" | Obj "(string \<times> json) list"

fun commas :: "string list \<Rightarrow> string" where
  "commas [] = []"
| "commas [s] = s"
| "commas (s # t # ss) = s @ '','' @ commas (t # ss)"

definition key_text :: "string \<Rightarrow> string" where
  "key_text k = [CHR 0x22] @ k @ [CHR 0x22, CHR '':'']"

fun render_json :: "(bool \<Rightarrow> string) \<Rightarrow> json \<Rightarrow> string" where
  "render_json b Null = ''null''"
| "render_json b (Raw s) = s"
| "render_json b (Bool x) = b x"
| "render_json b (Str s) = quoted s"
| "render_json b (Arr vs) = ''['' @ commas (map (render_json b) vs) @ '']''"
| "render_json b (Obj kvs) = ''{'' @ commas (map (\<lambda>(k, v). key_text k @ render_json b v) kvs) @ ''}''"

definition true_false :: "bool \<Rightarrow> string" where
  "true_false x = (if x then ''true'' else ''false'')"

section \<open>Query results\<close>

text \<open>
  A result as libpq's accessors give it: status, per column type and name, per row and column
  whether it is null and the text.
\<close>

datatype PGStatus =
    PGRES_EMPTY_QUERY | PGRES_COMMAND_OK | PGRES_TUPLES_OK | PGRES_COPY_OUT | PGRES_COPY_IN
  | PGRES_BAD_RESPONSE | PGRES_NONFATAL_ERROR | PGRES_FATAL_ERROR | PGRES_COPY_BOTH
  | PGRES_SINGLE_TUPLE | PGRES_PIPELINE_SYNC | PGRES_PIPELINE_ABORTED

record PGresult =
  pg_status :: PGStatus
  pg_fields :: "(nat \<times> string) list"
  pg_rows :: "(bool \<times> string option) list list"

definition PG_BOOL :: nat where "PG_BOOL = 16"

definition is_pg_string_type :: "nat \<Rightarrow> bool" where
  "is_pg_string_type oid \<longleftrightarrow> oid = 18 \<or> oid = 25 \<or> oid = 1042 \<or> oid = 1043"

definition is_pg_num_type :: "nat \<Rightarrow> bool" where
  "is_pg_num_type oid \<longleftrightarrow> oid = 21 \<or> oid = 23 \<or> oid = 20 \<or> oid = 700 \<or> oid = 701 \<or> oid = 1700"

definition jsonify_value :: "nat \<Rightarrow> bool \<times> string option \<Rightarrow> string \<Rightarrow> string" where
  "jsonify_value type cell ret =
     (if fst cell then ret @ ''null''
      else
        (case snd cell of
           None \<Rightarrow> ret @ ''null''
         | Some val \<Rightarrow>
             if type = PG_BOOL then ret @ (if val \<noteq> [] \<and> hd val = CHR ''t'' then ''true'' else ''false'')
             else if is_pg_num_type type then ret @ val
             else append_quoted_string val ret))"

text \<open>The loop over the columns, the index going up to \<open>n_cols\<close>.\<close>

fun jsonify_cols :: "nat \<Rightarrow> nat \<Rightarrow> ((nat \<times> string) \<times> (bool \<times> string option)) list \<Rightarrow> string \<Rightarrow> string" where
  "jsonify_cols n_cols j [] ret = ret"
| "jsonify_cols n_cols j (((type, field), cell) # cols) ret =
     (let ret = ret @ [CHR 0x22] @ field @ [CHR 0x22] @ '':'';
          ret = jsonify_value type cell ret;
          ret = (if int j < int n_cols - 1 then ret @ '','' else ret)
      in jsonify_cols n_cols (j + 1) cols ret)"

definition jsonify_row :: "PGresult \<Rightarrow> nat \<Rightarrow> string \<Rightarrow> string res" where
  "jsonify_row res row ret =
     (if row < length (pg_rows res) then
        Inr (jsonify_cols (length (pg_fields res)) 0 (zip (pg_fields res) (pg_rows res ! row)) (ret @ ''{'') @ ''}'')
      else Inl Undefined)"

fun jsonify_rows :: "PGresult \<Rightarrow> nat \<Rightarrow> nat \<Rightarrow> nat \<Rightarrow> string \<Rightarrow> string res" where
  "jsonify_rows res n_rows i 0 ret = Inr ret"
| "jsonify_rows res n_rows i (Suc k) ret =
     bindE (jsonify_row res i ret) (\<lambda>ret.
       jsonify_rows res n_rows (i + 1) k (if int i < int n_rows - 1 then ret @ '','' else ret))"

definition to_json :: "PGresult \<Rightarrow> string res" where
  "to_json res =
     (case pg_status res of
        PGRES_TUPLES_OK \<Rightarrow>
          (let n_rows = length (pg_rows res) in
           bindE (jsonify_rows res n_rows 0 n_rows ''['') (\<lambda>ret. Inr (ret @ '']'')))
      | PGRES_SINGLE_TUPLE \<Rightarrow> jsonify_row res 0 []
      | PGRES_COMMAND_OK \<Rightarrow> Inr ''{}''
      | _ \<Rightarrow> Inl Assertion)"

text \<open>The value a cell, a row and a result stand for.\<close>

definition cell_json :: "nat \<Rightarrow> bool \<times> string option \<Rightarrow> json" where
  "cell_json type cell =
     (case cell of
        (False, Some val) \<Rightarrow>
          if type = PG_BOOL then Bool (val \<noteq> [] \<and> hd val = CHR ''t'')
          else if is_pg_num_type type then Raw val else Str val
      | _ \<Rightarrow> Null)"

definition row_json :: "PGresult \<Rightarrow> (bool \<times> string option) list \<Rightarrow> json" where
  "row_json res row = Obj (map (\<lambda>((type, field), cell). (field, cell_json type cell)) (zip (pg_fields res) row))"

lemma jsonify_value_render: "jsonify_value type cell ret = ret @ render_json true_false (cell_json type cell)"
  by (cases cell)
    (auto simp: jsonify_value_def cell_json_def true_false_def append_quoted_string_eq split: option.splits bool.splits)

lemma commas_Cons: "commas (s # ss) = (if ss = [] then s else s @ '','' @ commas ss)"
  by (cases ss) auto

lemma jsonify_cols_render:
  "j + length cols = n \<Longrightarrow> jsonify_cols n j cols ret =
     ret @ commas (map (\<lambda>((type, field), cell). key_text field @ render_json true_false (cell_json type cell)) cols)"
  by (induction n j cols ret rule: jsonify_cols.induct)
    (auto simp: Let_def jsonify_value_render key_text_def commas_Cons)

lemma jsonify_row_render:
  assumes "i < length (pg_rows res)" and "length (pg_rows res ! i) = length (pg_fields res)"
  shows "jsonify_row res i ret = Inr (ret @ render_json true_false (row_json res (pg_rows res ! i)))"
  using assms
  by (simp add: jsonify_row_def row_json_def jsonify_cols_render comp_def case_prod_unfold)

lemma jsonify_rows_render:
  "i + k = length (pg_rows res) \<Longrightarrow> \<forall>row \<in> set (pg_rows res). length row = length (pg_fields res) \<Longrightarrow>
   jsonify_rows res (length (pg_rows res)) i k ret =
     Inr (ret @ commas (map (\<lambda>row. render_json true_false (row_json res row)) (drop i (pg_rows res))))"
proof (induction k arbitrary: i ret)
  case (Suc k)
  then have i: "i < length (pg_rows res)" by simp
  then have "length (pg_rows res ! i) = length (pg_fields res)" using Suc.prems(2) by simp
  moreover have "drop i (pg_rows res) = pg_rows res ! i # drop (i + 1) (pg_rows res)"
    using i by (simp add: Cons_nth_drop_Suc)
  moreover have "drop (i + 1) (pg_rows res) = [] \<longleftrightarrow> k = 0" using Suc.prems(1) by auto
  ultimately show ?case
    using Suc.IH [of "i + 1"] Suc.prems i
    by (auto simp: jsonify_row_render commas_Cons)
qed simp



section \<open>The writer\<close>

text \<open>
  The scalars that can be assigned to a node. \<open>std::integral\<close> holds of \<open>bool\<close>, so the branch
  for \<open>bool\<close> is never taken. What \<open>%lf\<close> prints is part of the value.
\<close>

datatype scalar = SNull | SInt int | SFloat string | SUnquoted string | SText string | SBool bool

definition assign :: "scalar \<Rightarrow> string \<Rightarrow> string" where
  "assign v out =
     (case v of
        SNull \<Rightarrow> out @ ''null''
      | SInt n \<Rightarrow> out @ decimal n
      | SBool b \<Rightarrow> out @ decimal (if b then 1 else 0)
      | SFloat s \<Rightarrow> out @ take 23 s
      | SUnquoted s \<Rightarrow> out @ s
      | SText s \<Rightarrow> Node_append_quoted_string s out) @ '',''"

definition open_array :: "string \<Rightarrow> string" where
  "open_array out = out @ ''[''"

definition close_array :: "string \<Rightarrow> string" where
  "close_array out = (if last out = CHR '','' then butlast out @ ''],'' else out @ ''],'')"

definition open_object :: "string \<Rightarrow> string" where
  "open_object out = out @ ''{''"

definition close_object :: "string \<Rightarrow> string" where
  "close_object out = (if last out = CHR '','' then butlast out @ ''},'' else out @ ''},'')"

definition object_key :: "string \<Rightarrow> string \<Rightarrow> string" where
  "object_key key out = out @ [CHR 0x22] @ key @ [CHR 0x22, CHR '':'']"

definition writer_string :: "string \<Rightarrow> string res" where
  "writer_string out =
     (if out = [] then Inl Undefined
      else Inr (if last out = CHR '','' then butlast out else out))"

text \<open>
  How a document is written: an array's elements are arrays and objects (\<open>next_array\<close>,
  \<open>next_object\<close>), an object's members any values, and each closes when it goes out of scope.
\<close>

datatype document = Scalar scalar | WArr "document list" | WObj "(string \<times> document) list"

fun write_doc :: "document \<Rightarrow> string \<Rightarrow> string" where
  "write_doc (Scalar v) out = assign v out"
| "write_doc (WArr ds) out = close_array (fold write_doc ds (open_array out))"
| "write_doc (WObj kds) out =
     close_object (fold (\<lambda>(k, d) ret. write_doc d (object_key k ret)) kds (open_object out))"

definition scalar_json :: "scalar \<Rightarrow> json" where
  "scalar_json v =
     (case v of
        SNull \<Rightarrow> Null | SInt n \<Rightarrow> Raw (decimal n) | SBool b \<Rightarrow> Bool b | SFloat s \<Rightarrow> Raw (take 23 s)
      | SUnquoted s \<Rightarrow> Raw s | SText s \<Rightarrow> Str s)"

fun doc_json :: "document \<Rightarrow> json" where
  "doc_json (Scalar v) = scalar_json v"
| "doc_json (WArr ds) = Arr (map doc_json ds)"
| "doc_json (WObj kds) = Obj (map (\<lambda>(k, d). (k, doc_json d)) kds)"

definition one_zero :: "bool \<Rightarrow> string" where
  "one_zero b = (if b then ''1'' else ''0'')"

lemma decimal_bit: "decimal (if b then 1 else 0) = one_zero b"
proof -
  have "digit 0 = CHR ''0''" "digit 1 = CHR ''1''"
    by (simp_all add: digit_def code_eq_iff [symmetric] code_char_of)
  then show ?thesis
    by (simp add: decimal_def one_zero_def decimal_nat.simps [of 0] decimal_nat.simps [of "Suc 0"])
qed

lemma assign_render: "assign v ret = ret @ render_json one_zero (scalar_json v) @ '',''"
  by (cases v) (auto simp: assign_def scalar_json_def Node_append_quoted_string_eq decimal_bit)

text \<open>A sequence of items each ending in a comma, as the closing bracket finds it.\<close>

definition trailing :: "string list \<Rightarrow> string" where
  "trailing ss = concat (map (\<lambda>s. s @ '','') ss)"

lemma trailing_commas: "ss \<noteq> [] \<Longrightarrow> trailing ss = commas ss @ '',''"
  by (induction ss rule: commas.induct) (auto simp: trailing_def)

lemma close_trailing:
  "close_array (ret @ ''['' @ trailing ss) = ret @ ''['' @ commas ss @ ''],''"
  "close_object (ret @ ''{'' @ trailing ss) = ret @ ''{'' @ commas ss @ ''},''"
proof -
  have "trailing ss = [] \<and> ss = [] \<or> trailing ss = commas ss @ '',''"
    using trailing_commas [of ss] by (auto simp: trailing_def)
  then show "close_array (ret @ ''['' @ trailing ss) = ret @ ''['' @ commas ss @ ''],''"
    "close_object (ret @ ''{'' @ trailing ss) = ret @ ''{'' @ commas ss @ ''},''"
    by (auto simp: close_array_def close_object_def butlast_append)
qed

lemma fold_trailing:
  "(\<And>x ret. x \<in> set xs \<Longrightarrow> f x ret = ret @ g x @ '','') \<Longrightarrow> fold f xs ret = ret @ trailing (map g xs)"
  by (induction xs arbitrary: ret) (auto simp: trailing_def)

lemma write_doc_render: "write_doc d ret = ret @ render_json one_zero (doc_json d) @ '',''"
proof (induction d arbitrary: ret)
  case (Scalar v)
  then show ?case by (simp add: assign_render)
next
  case (WArr ds)
  then have "fold write_doc ds (open_array ret) =
      ret @ ''['' @ trailing (map (\<lambda>d. render_json one_zero (doc_json d)) ds)"
    using fold_trailing [of ds write_doc "\<lambda>d. render_json one_zero (doc_json d)" "ret @ ''[''"]
    by (simp add: open_array_def)
  then show ?case by (simp only: write_doc.simps close_trailing) (simp add: comp_def)
next
  case (WObj kds)
  then have "fold (\<lambda>(k, d) ret. write_doc d (object_key k ret)) kds (open_object ret) =
      ret @ ''{'' @ trailing (map (\<lambda>(k, d). key_text k @ render_json one_zero (doc_json d)) kds)"
    using fold_trailing [of kds "\<lambda>(k, d) ret. write_doc d (object_key k ret)"
        "\<lambda>(k, d). key_text k @ render_json one_zero (doc_json d)" "ret @ ''{''"]
    by (fastforce simp: open_object_def object_key_def key_text_def)
  then show ?case by (simp only: write_doc.simps close_trailing) (simp add: comp_def case_prod_unfold)
qed


end
