(* ===== verification/Db_Result.thy ===== *)
theory Db_Result
  imports Json_Text
begin

text \<open>
  Query results as handlers see them (\<open>dbresult.h\<close>, \<open>dbresult.cc\<close>): construction from a
  \<open>PGresult\<close>, copies and moves, cell access with its assertions, the loop over the rows, and
  the classes holding one string of a result.

  A pointer to a result is the result or \<open>None\<close>, an \<open>int\<close> member no constructor has set is
  \<open>None\<close>. \<open>PQfnumber\<close> and \<open>PQresultErrorMessage\<close> are arguments; \<open>PQgetvalue\<close> and
  \<open>PQfname\<close> give null outside the result, which no \<open>string_view\<close> may be made from.
\<close>

section \<open>Construction\<close>

datatype Status = ERROR | EMPTY | SINGLE | MANY

record ResultBase =
  pg_result :: "PGresult option"
  res_status :: Status
  n_rows :: "int option"
  n_cols :: "int option"
  own_message :: "string option"

definition status_of :: "PGStatus \<Rightarrow> Status" where
  "status_of s =
     (case s of
        PGRES_COMMAND_OK \<Rightarrow> EMPTY
      | PGRES_TUPLES_OK \<Rightarrow> MANY
      | PGRES_SINGLE_TUPLE \<Rightarrow> SINGLE
      | _ \<Rightarrow> ERROR)"

definition is_error :: "ResultBase \<Rightarrow> bool" where
  "is_error r \<longleftrightarrow> res_status r = ERROR"

definition new_result :: "PGresult \<Rightarrow> ResultBase" where
  "new_result pg =
     (let r = \<lparr>pg_result = Some pg, res_status = status_of (pg_status pg), n_rows = None, n_cols = None,
        own_message = None\<rparr>
      in if \<not> is_error r then r\<lparr>n_rows := Some (int (length (pg_rows pg))), n_cols := Some (int (length (pg_fields pg)))\<rparr>
         else r)"

definition unset_result :: ResultBase where
  "unset_result = \<lparr>pg_result = None, res_status = ERROR, n_rows = None, n_cols = None,
     own_message = Some ''Result class in unitialised state''\<rparr>"

definition failed_result :: "string \<Rightarrow> ResultBase" where
  "failed_result message = \<lparr>pg_result = None, res_status = ERROR, n_rows = None, n_cols = None,
     own_message = Some message\<rparr>"

definition assign_result :: "ResultBase \<Rightarrow> ResultBase" where
  "assign_result b = \<lparr>pg_result = pg_result b, res_status = res_status b, n_rows = n_rows b, n_cols = n_rows b,
     own_message = own_message b\<rparr>"

text \<open>What a move makes, and what it leaves of the source.\<close>

definition move_result :: "ResultBase \<Rightarrow> ResultBase \<times> ResultBase" where
  "move_result b = (assign_result b, b\<lparr>pg_result := None\<rparr>)"

section \<open>Access\<close>

definition initialised :: "int option \<Rightarrow> int res" where
  "initialised x = (case x of None \<Rightarrow> Inl Undefined | Some n \<Rightarrow> Inr n)"

definition PQfname :: "PGresult option \<Rightarrow> int \<Rightarrow> string option" where
  "PQfname pg col =
     (case pg of None \<Rightarrow> None
      | Some p \<Rightarrow> if 0 \<le> col \<and> col < int (length (pg_fields p)) then Some (snd (pg_fields p ! nat col)) else None)"

definition PQgetvalue :: "PGresult option \<Rightarrow> int \<Rightarrow> int \<Rightarrow> string option" where
  "PQgetvalue pg row col =
     (case pg of None \<Rightarrow> None
      | Some p \<Rightarrow>
          if 0 \<le> row \<and> row < int (length (pg_rows p)) \<and> 0 \<le> col \<and> col < int (length (pg_fields p))
          then snd (pg_rows p ! nat row ! nat col) else None)"

definition string_view :: "string option \<Rightarrow> string res" where
  "string_view p = (case p of None \<Rightarrow> Inl Undefined | Some s \<Rightarrow> Inr s)"

definition name_at :: "int \<Rightarrow> ResultBase \<Rightarrow> string res" where
  "name_at col r =
     (if res_status r \<noteq> MANY then Inl Assertion
      else bindE (initialised (n_cols r)) (\<lambda>cols.
        if \<not> col < cols then Inl Assertion else string_view (PQfname (pg_result r) col)))"

definition value_at :: "int \<Rightarrow> int \<Rightarrow> ResultBase \<Rightarrow> string res" where
  "value_at row col r =
     (if res_status r \<noteq> MANY then Inl Assertion
      else bindE (initialised (n_rows r)) (\<lambda>rows.
        if \<not> row < rows then Inl Assertion
        else bindE (initialised (n_cols r)) (\<lambda>cols.
          if \<not> col < cols then Inl Assertion else string_view (PQgetvalue (pg_result r) row col))))"

definition get_in_row ::
  "(PGresult option \<Rightarrow> string \<Rightarrow> int) \<Rightarrow> int \<Rightarrow> string \<Rightarrow> ResultBase \<Rightarrow> string option res" where
  "get_in_row PQfnumber row name r =
     (if res_status r \<noteq> MANY then Inl Assertion
      else let col = PQfnumber (pg_result r) name in
        if 0 \<le> col then bindE (value_at row col r) (\<lambda>v. Inr (Some v)) else Inr None)"

definition get_single ::
  "(PGresult option \<Rightarrow> string \<Rightarrow> int) \<Rightarrow> string \<Rightarrow> ResultBase \<Rightarrow> string option res" where
  "get_single PQfnumber name r =
     (if res_status r = SINGLE then get_in_row PQfnumber 0 name r
      else bindE (initialised (n_rows r)) (\<lambda>rows.
        if rows = 1 then get_in_row PQfnumber 0 name r else Inl Assertion))"

definition error_message :: "(PGresult option \<Rightarrow> string) \<Rightarrow> ResultBase \<Rightarrow> string res" where
  "error_message PQresultErrorMessage r =
     (case own_message r of
        Some m \<Rightarrow> if res_status r = ERROR then Inr m else Inl Assertion
      | None \<Rightarrow>
          if res_status r = ERROR then Inr (PQresultErrorMessage (pg_result r))
          else if res_status r \<noteq> EMPTY then
            bindE (initialised (n_rows r)) (\<lambda>rows. Inr (if rows = 0 then ''No record matched query'' else ''Success''))
          else Inr ''Success'')"

definition result_to_json :: "ResultBase \<Rightarrow> string res" where
  "result_to_json r = (case pg_result r of None \<Rightarrow> Inl Assertion | Some pg \<Rightarrow> to_json pg)"

definition exists_result :: "ResultBase \<Rightarrow> bool res" where
  "exists_result r =
     (if is_error r then Inr False else bindE (initialised (n_rows r)) (\<lambda>rows. Inr (0 < rows)))"

definition result_ok :: "ResultBase \<Rightarrow> bool res" where
  "result_ok r =
     (if is_error r then Inr False
      else if res_status r = EMPTY then Inr True
      else bindE (initialised (n_rows r)) (\<lambda>rows. Inr (0 < rows)))"

text \<open>The loop \<open>for (auto row : result)\<close>: from 0, a step of one clamped to the end, until equal.\<close>

function rows_from :: "int \<Rightarrow> int \<Rightarrow> int list" where
  "rows_from i n = (if i = n then [] else i # rows_from (min (i + 1) n) n)"
  by auto
termination by (relation "measure (\<lambda>(i, n). nat \<bar>n - i\<bar>)") auto

declare rows_from.simps [simp del]

definition rows_visited :: "ResultBase \<Rightarrow> int list res" where
  "rows_visited r = bindE (initialised (n_rows r)) (\<lambda>n. Inr (rows_from 0 n))"

text \<open>\<open>ResultString\<close>: the result is moved in, and the view taken of its first cell.\<close>

definition result_string :: "ResultBase \<Rightarrow> (string \<times> ResultBase) res" where
  "result_string result =
     (let r = fst (move_result result) in bindE (value_at 0 0 r) (\<lambda>content. Inr (content, r)))"

section \<open>Facts\<close>

definition pg_ok :: "PGresult \<Rightarrow> bool" where
  "pg_ok pg \<longleftrightarrow> (\<forall>row \<in> set (pg_rows pg). length row = length (pg_fields pg) \<and> None \<notin> snd ` set row)"

definition cell :: "PGresult \<Rightarrow> int \<Rightarrow> int \<Rightarrow> string" where
  "cell pg row col = the (snd (pg_rows pg ! nat row ! nat col))"

lemma initialised_Some [simp]: "initialised (Some n) = Inr n"
  by (simp add: initialised_def)

lemma string_view_Some [simp]: "string_view (Some s) = Inr s"
  by (simp add: string_view_def)

lemma assign_result_idem: "assign_result (assign_result b) = assign_result b"
  by (simp add: assign_result_def)

lemma rows_from_upto: "i \<le> n \<Longrightarrow> rows_from i n = [i..n - 1]"
proof (induction "nat (n - i)" arbitrary: i)
  case (Suc k)
  then have "i < n" "min (i + 1) n = i + 1" "k = nat (n - (i + 1))" by auto
  with Suc show ?case by (subst rows_from.simps) (simp add: upto_rec1)
qed (subst rows_from.simps, simp)

lemma PQgetvalue_cell:
  assumes "pg_ok pg" "0 \<le> row" "row < int (length (pg_rows pg))" "0 \<le> col" "col < int (length (pg_fields pg))"
  shows "PQgetvalue (Some pg) row col = Some (cell pg row col)"
proof -
  let ?r = "pg_rows pg ! nat row"
  have r: "?r \<in> set (pg_rows pg)" using assms(2,3) by (intro nth_mem) linarith
  then have "nat col < length ?r" using assms by (auto simp: pg_ok_def)
  then have "?r ! nat col \<in> set ?r" by simp
  with r have "snd (?r ! nat col) \<noteq> None" using assms(1) by (force simp: pg_ok_def)
  then show ?thesis using assms(2-5) by (simp add: PQgetvalue_def cell_def)
qed

lemma PQgetvalue_outside:
  "\<not> (0 \<le> row \<and> row < int (length (pg_rows pg)) \<and> 0 \<le> col \<and> col < int (length (pg_fields pg))) \<Longrightarrow>
   PQgetvalue (Some pg) row col = None"
  by (auto simp: PQgetvalue_def)

text \<open>A fresh result gives every cell of its table, and asserts beyond it.\<close>

lemma fresh_result_reads:
  assumes "pg_ok pg" and "pg_status pg = PGRES_TUPLES_OK" and "0 \<le> row" and "0 \<le> col"
  shows "value_at row col (new_result pg) =
    (if row < int (length (pg_rows pg)) \<and> col < int (length (pg_fields pg)) then Inr (cell pg row col)
     else Inl Assertion)"
  using assms PQgetvalue_cell [of pg row col]
  by (auto simp: value_at_def new_result_def status_of_def is_error_def Let_def)

lemma fresh_states:
  "res_status (new_result pg) = status_of (pg_status pg)" "pg_result (new_result pg) = Some pg"
  "own_message (new_result pg) = None"
  "\<not> is_error (new_result pg) \<Longrightarrow> n_rows (new_result pg) = Some (int (length (pg_rows pg)))"
  by (auto simp: new_result_def Let_def is_error_def)

text \<open>\<open>bool\<close> of a result and its message agree, moved or not: \<open>Success\<close> is what is true.\<close>

lemma message_agrees:
  assumes "\<not> is_error (new_result pg)" and "r = new_result pg \<or> r = fst (move_result (new_result pg))"
  shows "result_ok r = Inr (error_message e r = Inr ''Success'')"
    and "rows_visited r = Inr [0..int (length (pg_rows pg)) - 1]"
  using assms fresh_states [of pg]
  by (auto simp: result_ok_def error_message_def move_result_def assign_result_def is_error_def rows_visited_def rows_from_upto)

section \<open>Properties\<close>

text \<open>
  A handler never gets a fresh result: it gets one that has been moved at least once, and a
  move overwrites the number of columns by the number of rows. So the cell in row \<open>row\<close> and
  column \<open>col\<close> is read only if \<open>col\<close> is below both numbers; a column the table has but beyond
  the number of rows stops at the assertion, one it lacks below that number makes a view of null.
\<close>

theorem moved_result_reads:
  assumes "pg_ok pg" and "pg_status pg = PGRES_TUPLES_OK" and "0 \<le> row" and "0 \<le> col" and "0 < k"
  shows "value_at row col (((\<lambda>r. fst (move_result r)) ^^ k) (new_result pg)) =
    (if row < int (length (pg_rows pg)) \<and> col < int (length (pg_rows pg)) then
       (if col < int (length (pg_fields pg)) then Inr (cell pg row col) else Inl Undefined)
     else Inl Assertion)"
proof -
  have moved: "((\<lambda>r. fst (move_result r)) ^^ Suc j) b = assign_result b" for j b
    by (induction j) (simp_all add: move_result_def assign_result_idem)
  obtain j where "k = Suc j" using assms(5) by (cases k) auto
  then have "((\<lambda>r. fst (move_result r)) ^^ k) (new_result pg) = assign_result (new_result pg)"
    using moved by simp
  then show ?thesis
    using assms(1-4) PQgetvalue_cell [of pg row col] PQgetvalue_outside [of row pg col]
    by (auto simp: value_at_def assign_result_def new_result_def status_of_def is_error_def Let_def string_view_def)
qed

definition one_person :: PGresult where
  "one_person = \<lparr>pg_status = PGRES_TUPLES_OK, pg_fields = [(23, ''id''), (25, ''name'')],
     pg_rows = [[(False, Some ''7''), (False, Some ''Ada'')]]\<rparr>"

theorem moved_result_reads_witness:
  "value_at 0 1 (new_result one_person) = Inr ''Ada'' \<and>
   value_at 0 0 (((\<lambda>r. fst (move_result r)) ^^ 1) (new_result one_person)) = Inr ''7'' \<and>
   value_at 0 1 (((\<lambda>r. fst (move_result r)) ^^ 1) (new_result one_person)) = Inl Assertion"
proof -
  have ok: "pg_ok one_person" "pg_status one_person = PGRES_TUPLES_OK"
    by (simp_all add: pg_ok_def one_person_def)
  show ?thesis
    using moved_result_reads [OF ok, of 0 0 1] moved_result_reads [OF ok, of 0 1 1]
      fresh_result_reads [OF ok, of 0 1]
    by (simp add: one_person_def cell_def del: funpow.simps)
qed

end
