(* ===== verification/Db_Session.thy ===== *)
theory Db_Session
  imports Db_Result Data_Streams
begin

text \<open>
  The database session of a worker (\<open>dbsession.cc\<close>, \<open>dbquery.h\<close>) and the calls handlers make on
  it (\<open>dbconnection.cc\<close>): queries are queued, written to libpq in batches in pipeline mode, and
  answered in order to the coroutine or callback that asked.

  libpq and the kernel are the environment: what they answer is a script or an argument. A handler
  is the number of a coroutine or of a callback; what the application does when one is run is an
  argument too, the list of calls it makes. The locale \<open>db_invariant\<close> is the frame of the
  arguments about a session.
\<close>

section \<open>Queries\<close>

datatype completion_handler = Coroutine nat | Callback nat

datatype query_arg =
    QueryArg string
  | QueryParamArg string "string list"
  | PrepareArg string "string option" int
  | QueryPreparedArg string "string list"

record Query =
  q_serial :: "64 word"
  q_sync :: bool
  q_arg :: query_arg
  q_handler :: completion_handler

record DispatchedQuery =
  d_serial :: "64 word"
  d_sync :: bool
  d_handler :: completion_handler

text \<open>
  The session. \<open>ready\<close> is whether the watchers call \<open>read\<close> and \<open>write\<close> and no longer
  \<open>poll_connection\<close>. The last six are history: the queries asked for, those answered and popped,
  what libpq was given, the handlers run with their results, the coroutines resumed, and the
  events published.
\<close>

datatype wire_op =
    Send_query string
  | Send_params string "string list"
  | Send_prepare string string
  | Send_prepared string "string list"
  | Send_sync

record DbSession =
  connected :: bool
  ready :: bool
  db_fd :: int
  dir_fd :: int
  rev_started :: bool
  wev_started :: bool
  queued :: "Query list"
  dispatched :: "DispatchedQuery list"
  prepared_queries :: "string set"
  asked :: "Query list"
  answered :: "DispatchedQuery list"
  wire :: "wire_op list"
  delivered :: "(completion_handler \<times> ResultBase) list"
  resumed :: "nat set"
  published :: "Event list"

definition dispatch_of :: "Query \<Rightarrow> DispatchedQuery" where
  "dispatch_of q = \<lparr>d_serial = q_serial q, d_sync = q_sync q, d_handler = q_handler q\<rparr>"

section \<open>Asking\<close>

text \<open>The common part: \<open>queued_.emplace_back\<close> and \<open>ev_io_start(loop_, &wev_)\<close>.\<close>

definition enqueue :: "Query \<Rightarrow> DbSession \<Rightarrow> DbSession" where
  "enqueue q s = s\<lparr>queued := queued s @ [q], asked := asked s @ [q], wev_started := True\<rparr>"

definition send_query :: "64 word \<Rightarrow> string \<Rightarrow> completion_handler \<Rightarrow> DbSession \<Rightarrow> DbSession" where
  "send_query serial command cb s =
     enqueue \<lparr>q_serial = serial, q_sync = True, q_arg = QueryArg command, q_handler = cb\<rparr> s"

definition send_query_params ::
  "64 word \<Rightarrow> string \<Rightarrow> string list \<Rightarrow> completion_handler \<Rightarrow> DbSession \<Rightarrow> DbSession" where
  "send_query_params serial command vec cb s =
     enqueue \<lparr>q_serial = serial, q_sync = True, q_arg = QueryParamArg command vec, q_handler = cb\<rparr> s"

definition add_prepared_query :: "string \<Rightarrow> DbSession \<Rightarrow> DbSession" where
  "add_prepared_query statement s = s\<lparr>prepared_queries := insert statement (prepared_queries s)\<rparr>"

definition check_prepared_query :: "string \<Rightarrow> DbSession \<Rightarrow> bool" where
  "check_prepared_query statement s \<longleftrightarrow> statement \<in> prepared_queries s"

definition send_prepared ::
  "64 word \<Rightarrow> string \<Rightarrow> string \<Rightarrow> completion_handler \<Rightarrow> DbSession \<Rightarrow> DbSession" where
  "send_prepared serial statement command cb s =
     enqueue \<lparr>q_serial = serial, q_sync = True, q_arg = PrepareArg statement (Some command) (- 1), q_handler = cb\<rparr>
       (add_prepared_query statement s)"

definition send_prepared_file ::
  "64 word \<Rightarrow> string \<Rightarrow> int \<Rightarrow> completion_handler \<Rightarrow> DbSession \<Rightarrow> DbSession res" where
  "send_prepared_file serial statement file_fd cb s =
     (if file_fd < 0 then Inl Assertion
      else Inr (enqueue \<lparr>q_serial = serial, q_sync = True, q_arg = PrepareArg statement None file_fd, q_handler = cb\<rparr>
             (add_prepared_query statement s)))"

definition send_query_prepared ::
  "64 word \<Rightarrow> string \<Rightarrow> string list \<Rightarrow> completion_handler \<Rightarrow> DbSession \<Rightarrow> DbSession" where
  "send_query_prepared serial statement params cb s =
     enqueue \<lparr>q_serial = serial, q_sync = True, q_arg = QueryPreparedArg statement params, q_handler = cb\<rparr> s"

text \<open>The calls of an application, and a list of them in order.\<close>

datatype app_call =
    Ask_query "64 word" string completion_handler
  | Ask_params "64 word" string "string list" completion_handler
  | Ask_prepare "64 word" string string completion_handler
  | Ask_prepare_file "64 word" string int completion_handler
  | Ask_prepared "64 word" string "string list" completion_handler

fun perform :: "app_call \<Rightarrow> DbSession \<Rightarrow> DbSession res" where
  "perform (Ask_query serial command cb) s = Inr (send_query serial command cb s)"
| "perform (Ask_params serial command vec cb) s = Inr (send_query_params serial command vec cb s)"
| "perform (Ask_prepare serial statement command cb) s = Inr (send_prepared serial statement command cb s)"
| "perform (Ask_prepare_file serial statement file_fd cb) s = send_prepared_file serial statement file_fd cb s"
| "perform (Ask_prepared serial statement params cb) s = Inr (send_query_prepared serial statement params cb s)"

fun perform_all :: "app_call list \<Rightarrow> DbSession \<Rightarrow> DbSession res" where
  "perform_all [] s = Inr s"
| "perform_all (c # cs) s = bindE (perform c s) (perform_all cs)"

text \<open>
  \<open>open_query_file\<close>: \<open>open_at\<close> is what the system call answers, in a directory or without one.
  \<open>set_query_location\<close> is given what opening the directory answers, and gives what it closed.
\<close>

definition open_query_file :: "(int option \<Rightarrow> string \<Rightarrow> int) \<Rightarrow> string \<Rightarrow> DbSession \<Rightarrow> int res" where
  "open_query_file open_at statement s =
     (if \<not> length statement + 4 < 64 then Inl Assertion
      else Inr (open_at (if 0 \<le> dir_fd s then Some (dir_fd s) else None) (statement @ ''.sql'')))"

definition set_query_location :: "int \<Rightarrow> DbSession \<Rightarrow> int list \<times> DbSession" where
  "set_query_location opened s =
     (let closed = (if 0 \<le> dir_fd s then [dir_fd s] else []) in (closed, s\<lparr>dir_fd := opened\<rparr>))"

text \<open>
  The coroutine \<open>Connection::query_prepared\<close>, cut at its \<open>co_await\<close>s: it returns at once, or waits
  for the answer to a query it asked. \<open>c'\<close> is the coroutine of \<open>prepare\<close>, resumed with its result.
\<close>

datatype progress = Returned ResultBase | Waiting

definition query_prepared ::
  "(int option \<Rightarrow> string \<Rightarrow> int) \<Rightarrow> 64 word \<Rightarrow> string \<Rightarrow> string list \<Rightarrow> nat \<Rightarrow> nat \<Rightarrow> DbSession \<Rightarrow> (progress \<times> DbSession) res"
where
  "query_prepared open_at serial statement params c c' s =
     (if \<not> check_prepared_query statement s then
        bindE (open_query_file open_at statement s) (\<lambda>fd.
          if fd < 0 then Inr (Returned (failed_result ''Couldn't find query file''), s)
          else bindE (send_prepared_file serial statement fd (Coroutine c') s) (\<lambda>s. Inr (Waiting, s)))
      else Inr (Waiting, send_query_prepared serial statement params (Coroutine c) s))"

definition query_prepared_resumed ::
  "ResultBase \<Rightarrow> 64 word \<Rightarrow> string \<Rightarrow> string list \<Rightarrow> nat \<Rightarrow> DbSession \<Rightarrow> progress \<times> DbSession"
where
  "query_prepared_resumed res serial statement params c s =
     (if is_error res then (Returned res, s)
      else (Waiting, send_query_prepared serial statement params (Coroutine c) s))"

section \<open>Connecting\<close>

datatype polling = POLLING_ACTIVE | POLLING_READING | POLLING_WRITING | POLLING_OK | POLLING_FAILED

definition db_connection_made :: "int \<Rightarrow> int \<Rightarrow> DbSession \<Rightarrow> int \<times> DbSession" where
  "db_connection_made nonblocking pipeline s =
     (let s = s\<lparr>ready := True\<rparr> in
      if nonblocking \<noteq> 0 then (- 1, s)
      else if pipeline \<noteq> 1 then (- 1, s)
      else (0, s\<lparr>connected := True\<rparr>))"

text \<open>
  \<open>poll_connection\<close>: the script is what \<open>PQconnectPoll\<close> answers, \<open>sock\<close> what \<open>PQsocket\<close> does.
  \<open>ev_io_set\<close> changes the descriptor of watchers that are stopped.
\<close>

fun poll_connection :: "polling list \<Rightarrow> int \<Rightarrow> int \<Rightarrow> int \<Rightarrow> DbSession \<Rightarrow> (int \<times> DbSession) res" where
  "poll_connection [] sock nonblocking pipeline s = Inl Unfinished"
| "poll_connection (p # ps) sock nonblocking pipeline s =
     (case p of
        POLLING_ACTIVE \<Rightarrow> poll_connection ps sock nonblocking pipeline s
      | POLLING_READING \<Rightarrow>
          (let s = s\<lparr>wev_started := False\<rparr>;
               s = (if sock \<noteq> db_fd s then s\<lparr>db_fd := sock, rev_started := False\<rparr> else s)
           in Inr (0, s\<lparr>rev_started := True\<rparr>))
      | POLLING_WRITING \<Rightarrow>
          (let s = (if sock \<noteq> db_fd s then s\<lparr>db_fd := sock, rev_started := False, wev_started := False\<rparr> else s)
           in Inr (0, s\<lparr>wev_started := True\<rparr>))
      | POLLING_OK \<Rightarrow>
          (let (rv, s) = db_connection_made nonblocking pipeline s in Inr (if rv \<noteq> 0 then - 1 else 0, s))
      | POLLING_FAILED \<Rightarrow> Inr (- 1, s))"

text \<open>
  The constructor; \<open>dir\<close> is what opening the query directory answers, if there is one. What the
  first poll returns is ignored.
\<close>

definition new_db_session :: "int option \<Rightarrow> polling list \<Rightarrow> int \<Rightarrow> int \<Rightarrow> int \<Rightarrow> DbSession res" where
  "new_db_session dir ps sock nonblocking pipeline =
     bindE (poll_connection ps sock nonblocking pipeline
       \<lparr>connected = False, ready = False, db_fd = - 1, dir_fd = (case dir of None \<Rightarrow> - 1 | Some fd \<Rightarrow> fd),
        rev_started = False, wev_started = False, queued = [], dispatched = [], prepared_queries = {},
        asked = [], answered = [], wire = [], delivered = [], resumed = {}, published = []\<rparr>) (\<lambda>(_, s). Inr s)"

section \<open>Writing\<close>

text \<open>The text a \<open>const char *\<close> into it gives.\<close>

definition c_str :: "string \<Rightarrow> string" where
  "c_str s = takeWhile (\<lambda>c. c \<noteq> CHR 0x00) s"

text \<open>\<open>send_query(db::Query &)\<close>, what it hands to libpq; \<open>files\<close> is the content of a descriptor.\<close>

definition wire_of :: "(int \<Rightarrow> string) \<Rightarrow> query_arg \<Rightarrow> wire_op res" where
  "wire_of files arg =
     (case arg of
        QueryArg command \<Rightarrow> Inr (Send_query command)
      | QueryParamArg command params \<Rightarrow>
          if \<not> length params \<le> 20 then Inl Assertion else Inr (Send_params command (map c_str params))
      | PrepareArg statement query file_fd \<Rightarrow>
          if 0 \<le> file_fd then Inr (Send_prepare statement (c_str (files file_fd)))
          else (case query of None \<Rightarrow> Inl Assertion | Some q \<Rightarrow> Inr (Send_prepare statement q))
      | QueryPreparedArg statement params \<Rightarrow>
          if \<not> length params \<le> 20 then Inl Assertion else Inr (Send_prepared statement (map c_str params)))"

text \<open>
  The calls after the flush: \<open>ans k\<close> is what libpq answers when it has taken \<open>k\<close> calls before.
  A call it refuses leaves nothing on the wire.
\<close>

definition dispatch_query :: "wire_op list \<Rightarrow> Query \<Rightarrow> Query list \<Rightarrow> DbSession \<Rightarrow> DbSession" where
  "dispatch_query ops q qs s = s\<lparr>wire := wire s @ ops, dispatched := dispatched s @ [dispatch_of q], queued := qs\<rparr>"

fun write_batch :: "(int \<Rightarrow> string) \<Rightarrow> (nat \<Rightarrow> int) \<Rightarrow> nat \<Rightarrow> DbSession \<Rightarrow> (int \<times> DbSession) res" where
  "write_batch files ans 0 s = Inr (0, s)"
| "write_batch files ans (Suc n) s =
     (case queued s of
        [] \<Rightarrow> Inr (0, s)
      | q # qs \<Rightarrow>
          bindE (wire_of files (q_arg q)) (\<lambda>op.
            if ans (length (wire s)) = 0 then Inr (- 1, s)
            else if q_sync q then
              (if ans (length (wire s) + 1) = 0 then Inr (- 1, s\<lparr>wire := wire s @ [op]\<rparr>)
               else write_batch files ans n (dispatch_query [op, Send_sync] q qs s))
            else write_batch files ans n (dispatch_query [op] q qs s)))"

text \<open>\<open>write\<close>: the script is what \<open>PQflush\<close> answers.\<close>

fun write_queries :: "(int \<Rightarrow> string) \<Rightarrow> (nat \<Rightarrow> int) \<Rightarrow> int list \<Rightarrow> DbSession \<Rightarrow> (int \<times> DbSession) res" where
  "write_queries files ans [] s = Inl Unfinished"
| "write_queries files ans (rv # flushes) s =
     (if rv = 1 then Inr (0, s)
      else if rv = - 1 then Inr (- 1, s)
      else bindE (write_batch files ans 20 s) (\<lambda>(rv, s).
        if rv \<noteq> 0 then Inr (- 1, s)
        else if queued s = [] then Inr (0, s\<lparr>wev_started := False\<rparr>)
        else write_queries files ans flushes s))"

section \<open>Reading\<close>

text \<open>
  One turn of the loop of \<open>read\<close>, taken when \<open>PQisBusy\<close> answers 0: the streams alive then, the
  answers of \<open>PQgetResult\<close>, null being \<open>None\<close>, and the notifications (channel and payload) that
  \<open>PQnotifies\<close> gives after it.
\<close>

record Round =
  r_alive :: "64 word set"
  r_results :: "PGresult option list"
  r_notifs :: "(string \<times> string) list"

definition check_notif :: "(string \<times> string) list \<Rightarrow> DbSession \<Rightarrow> DbSession" where
  "check_notif notifs s = s\<lparr>published := published s @ map (\<lambda>(channel, payload). new_event channel payload) notifs\<rparr>"

text \<open>
  \<open>handle_result\<close>: a coroutine not done is resumed, and \<open>react\<close> tells what the application
  asks for when its handler runs.
\<close>

type_synonym reaction = "completion_handler \<Rightarrow> ResultBase \<Rightarrow> app_call list"

definition handle_result :: "reaction \<Rightarrow> DispatchedQuery \<Rightarrow> PGresult \<Rightarrow> bool \<Rightarrow> DbSession \<Rightarrow> DbSession res" where
  "handle_result react query result alive s =
     (if \<not> alive then Inr s
      else let h = d_handler query; r = fst (move_result (new_result result)) in
        (case h of
           Coroutine c \<Rightarrow>
             if c \<in> resumed s then Inr s
             else perform_all (react h r) (s\<lparr>delivered := delivered s @ [(h, r)], resumed := insert c (resumed s)\<rparr>)
         | Callback t \<Rightarrow> perform_all (react h r) (s\<lparr>delivered := delivered s @ [(h, r)]\<rparr>)))"

text \<open>The inner loop: the flags are \<open>pipeline_sync\<close> and \<open>error\<close>.\<close>

fun get_results ::
  "reaction \<Rightarrow> DispatchedQuery \<Rightarrow> bool \<Rightarrow> PGresult option list \<Rightarrow> bool \<Rightarrow> DbSession \<Rightarrow> (bool \<times> bool \<times> DbSession) res"
where
  "get_results react query alive [] error s = Inl Unfinished"
| "get_results react query alive (None # results) error s = Inr (False, error, s)"
| "get_results react query alive (Some result # results) error s =
     (case pg_status result of
        PGRES_EMPTY_QUERY \<Rightarrow> get_results react query alive results error s
      | PGRES_BAD_RESPONSE \<Rightarrow> get_results react query alive results True s
      | PGRES_COPY_IN \<Rightarrow> get_results react query alive results True s
      | PGRES_COPY_OUT \<Rightarrow> get_results react query alive results True s
      | PGRES_COPY_BOTH \<Rightarrow> get_results react query alive results True s
      | PGRES_PIPELINE_SYNC \<Rightarrow> Inr (True, error, s)
      | _ \<Rightarrow> bindE (handle_result react query result alive s) (get_results react query alive results error))"

definition pop_front :: "DbSession \<Rightarrow> DbSession" where
  "pop_front s =
     (case dispatched s of
        [] \<Rightarrow> s
      | d # ds \<Rightarrow> s\<lparr>dispatched := ds, answered := answered s @ [d]\<rparr>)"

fun read_rounds :: "reaction \<Rightarrow> Round list \<Rightarrow> DbSession \<Rightarrow> (int \<times> DbSession) res" where
  "read_rounds react [] s = Inr (0, s)"
| "read_rounds react (r # rs) s =
     (case dispatched s of
        [] \<Rightarrow> Inl Undefined
      | query # _ \<Rightarrow>
          bindE (get_results react query (d_serial query \<in> r_alive r) (r_results r) False s) (\<lambda>(pipeline_sync, error, s).
            let s = (if \<not> pipeline_sync then pop_front s else s) in
            if error then Inr (- 1, s)
            else let s = check_notif (r_notifs r) s in
              if dispatched s = [] then Inr (0, s) else read_rounds react rs s))"

definition read_answers ::
  "reaction \<Rightarrow> int \<Rightarrow> (string \<times> string) list \<Rightarrow> Round list \<Rightarrow> DbSession \<Rightarrow> (int \<times> DbSession) res"
where
  "read_answers react consumed notifs rounds s =
     (if consumed = 0 then Inr (- 1, s) else read_rounds react rounds (check_notif notifs s))"

end
