(* ===== verification/Db_Facts.thy ===== *)
theory Db_Facts
  imports Db_Session
begin

text \<open>
  What holds of the database session: queries are sent and answered in the order they were asked,
  each handler gets its own answer, everything queued is written once the socket takes it; and
  where the code falls short of it.
\<close>

section \<open>Runs of a session\<close>

text \<open>
  What happens to a session: calls of handlers, and \<open>read_cb\<close> and \<open>write_cb\<close>, which call what
  \<open>read_fn_\<close> and \<open>write_fn_\<close> point to. A callback that fails replaces the session.
\<close>

inductive db_step :: "(int \<Rightarrow> string) \<Rightarrow> DbSession \<Rightarrow> DbSession \<Rightarrow> bool" for files where
  asks: "perform c s = Inr s' \<Longrightarrow> db_step files s s'"
| polls: "\<not> ready s \<Longrightarrow> rev_started s \<or> wev_started s \<Longrightarrow>
    poll_connection ps sock nonblocking pipeline s = Inr (0, s') \<Longrightarrow> db_step files s s'"
| writes: "ready s \<Longrightarrow> wev_started s \<Longrightarrow> write_queries files ans flushes s = Inr (0, s') \<Longrightarrow> db_step files s s'"
| reads: "ready s \<Longrightarrow> rev_started s \<Longrightarrow> read_answers react consumed notifs rounds s = Inr (0, s') \<Longrightarrow>
    db_step files s s'"

inductive db_run :: "(int \<Rightarrow> string) \<Rightarrow> DbSession \<Rightarrow> DbSession \<Rightarrow> bool" for files s0 where
  none: "db_run files s0 s0"
| more: "db_run files s0 s \<Longrightarrow> db_step files s s' \<Longrightarrow> db_run files s0 s'"

lemma pop_front_ready [simp]: "ready (pop_front s) = ready s"
  by (simp add: pop_front_def split: list.splits)

lemma send_ready: "perform c s = Inr s' \<Longrightarrow> ready s' = ready s"
  by (cases c) (auto simp: enqueue_def send_query_def send_query_params_def send_prepared_def
      send_prepared_file_def send_query_prepared_def add_prepared_query_def split: if_splits)

section \<open>Invariants\<close>

text \<open>
  A predicate kept by every elementary change of a session is kept by its loops and handlers, and
  so by every run.
\<close>

locale db_invariant =
  fixes files :: "int \<Rightarrow> string" and inv :: "DbSession \<Rightarrow> bool"
  assumes ask_law: "inv s \<Longrightarrow> q_sync q \<Longrightarrow> inv (enqueue q s)"
    and prepared_law: "inv s \<Longrightarrow> inv (s\<lparr>prepared_queries := p\<rparr>)"
    and poll_law: "inv s \<Longrightarrow> \<not> ready s \<Longrightarrow> poll_connection ps sock nb pl s = Inr (rv, s') \<Longrightarrow> inv s'"
    and dispatch_law: "inv s \<Longrightarrow> ready s \<Longrightarrow> queued s = q # qs \<Longrightarrow> wire_of files (q_arg q) = Inr op \<Longrightarrow>
      inv (dispatch_query (op # (if q_sync q then [Send_sync] else [])) q qs s)"
    and stop_law: "inv s \<Longrightarrow> ready s \<Longrightarrow> queued s = [] \<Longrightarrow> inv (s\<lparr>wev_started := False\<rparr>)"
    and pop_law: "inv s \<Longrightarrow> ready s \<Longrightarrow> inv (pop_front s)"
    and delivered_law: "inv s \<Longrightarrow> inv (s\<lparr>delivered := d, resumed := r\<rparr>)"
    and published_law: "inv s \<Longrightarrow> inv (s\<lparr>published := es\<rparr>)"
begin

lemma perform_inv: "perform c s = Inr s' \<Longrightarrow> inv s \<Longrightarrow> inv s'"
  by (cases c) (auto simp: send_query_def send_query_params_def send_prepared_def send_prepared_file_def
      send_query_prepared_def add_prepared_query_def intro!: ask_law prepared_law split: if_splits)

lemma perform_all_inv: "perform_all cs s = Inr s' \<Longrightarrow> inv s \<Longrightarrow> inv s' \<and> ready s' = ready s"
proof (induction cs arbitrary: s)
  case (Cons c cs)
  then obtain s1 where "perform c s = Inr s1" "perform_all cs s1 = Inr s'" by (auto simp: fault_simps)
  with Cons show ?case using perform_inv send_ready by metis
qed simp

lemma handle_inv:
  assumes "handle_result react query result alive s = Inr s'" and "inv s"
  shows "inv s' \<and> ready s' = ready s"
proof -
  have "inv (s\<lparr>delivered := d\<rparr>)" for d :: "(completion_handler \<times> ResultBase) list"
    using delivered_law [OF assms(2), where d = d and r = "resumed s"] by simp
  moreover have "inv (s\<lparr>delivered := d, resumed := r\<rparr>)" for d r
    using delivered_law [OF assms(2)] .
  ultimately show ?thesis using assms
    by (auto simp: handle_result_def Let_def split: if_splits completion_handler.splits
        dest: perform_all_inv)
qed

lemma results_inv:
  "get_results react query alive results error s = Inr (sync, e, s') \<Longrightarrow> inv s \<Longrightarrow> inv s' \<and> ready s' = ready s"
proof (induction react query alive results error s rule: get_results.induct)
  case (3 react query alive result results error s)
  show ?case using "3.prems" "3.IH" by (auto simp: fault_simps split: PGStatus.splits dest!: handle_inv)
qed auto

lemma notif_inv: "inv s \<Longrightarrow> inv (check_notif ns s) \<and> ready (check_notif ns s) = ready s"
  by (simp add: check_notif_def published_law)

lemma rounds_inv: "read_rounds react rounds s = Inr (rv, s') \<Longrightarrow> ready s \<Longrightarrow> inv s \<Longrightarrow> inv s'"
proof (induction rounds arbitrary: s)
  case (Cons r rs s)
  obtain query ds where d: "dispatched s = query # ds" using Cons.prems(1) by (auto split: list.splits)
  obtain sync e s1 where g: "get_results react query (d_serial query \<in> r_alive r) (r_results r) False s = Inr (sync, e, s1)"
    using Cons.prems(1) d by (auto simp: fault_simps)
  have s1: "inv s1" "ready s1" using results_inv [OF g] Cons.prems by auto
  let ?s2 = "if \<not> sync then pop_front s1 else s1"
  have s2: "inv ?s2" "ready ?s2" using s1 pop_law by auto
  let ?s3 = "check_notif (r_notifs r) ?s2"
  have s3: "inv ?s3" "ready ?s3" using notif_inv [OF s2(1)] s2(2) by auto
  show ?case
  proof (cases "e \<or> dispatched ?s3 = []")
    case True
    then show ?thesis using Cons.prems(1) d g s2 s3 by (auto simp: Let_def split: if_splits)
  next
    case False
    then have "read_rounds react rs ?s3 = Inr (rv, s')" using Cons.prems(1) d g by (auto simp: Let_def)
    then show ?thesis using Cons.IH s3 by blast
  qed
qed auto

lemma batch_inv:
  "write_batch files ans n s = Inr (rv, s') \<Longrightarrow> rv = 0 \<Longrightarrow> ready s \<Longrightarrow> inv s \<Longrightarrow> inv s' \<and> ready s'"
proof (induction n arbitrary: s)
  case (Suc n)
  show ?case
  proof (cases "queued s")
    case (Cons q qs)
    then obtain op where op: "wire_of files (q_arg q) = Inr op"
      using Suc.prems(1) by (auto simp: fault_simps)
    let ?s = "dispatch_query (op # (if q_sync q then [Send_sync] else [])) q qs s"
    have "inv ?s" using dispatch_law [OF Suc.prems(4,3) Cons op] .
    moreover have "write_batch files ans n ?s = Inr (rv, s')"
      using Suc.prems(1,2) Cons op by (auto split: if_splits)
    moreover have "ready ?s" using Suc.prems(3) by (simp add: dispatch_query_def)
    ultimately show ?thesis using Suc.IH Suc.prems(2) by blast
  qed (use Suc.prems in auto)
qed auto

lemma write_inv:
  "write_queries files ans flushes s = Inr (rv, s') \<Longrightarrow> rv = 0 \<Longrightarrow> ready s \<Longrightarrow> inv s \<Longrightarrow> inv s'"
proof (induction flushes arbitrary: s)
  case (Cons f fs)
  show ?case
  proof (cases "f = 1 \<or> f = - 1")
    case False
    then obtain rv1 s1 where b: "write_batch files ans 20 s = Inr (rv1, s1)"
      using Cons.prems(1) by (auto simp: fault_simps)
    then have "rv1 = 0" using False Cons.prems(1,2) by (auto split: if_splits)
    then have s1: "inv s1" "ready s1" using batch_inv [OF b] Cons.prems by auto
    then show ?thesis using Cons b False \<open>rv1 = 0\<close> stop_law [of s1] by (auto split: if_splits)
  qed (use Cons.prems in auto)
qed auto

lemma db_step_inv: "db_step files s s' \<Longrightarrow> inv s \<Longrightarrow> inv s'"
proof (induction rule: db_step.induct)
  case (reads s react consumed notifs rounds s')
  then show ?case using rounds_inv [of react rounds "check_notif notifs s" 0 s'] notif_inv [of s notifs]
    by (auto simp: read_answers_def split: if_splits)
qed (use perform_inv poll_law write_inv in blast)+

lemma run_inv: "db_run files s0 s \<Longrightarrow> inv s0 \<Longrightarrow> inv s"
  by (induction rule: db_run.induct) (auto dest: db_step_inv)

end

section \<open>First asked, first sent, first answered\<close>

definition wire_ops :: "(int \<Rightarrow> string) \<Rightarrow> Query \<Rightarrow> wire_op list" where
  "wire_ops files q = (case wire_of files (q_arg q) of Inl _ \<Rightarrow> [] | Inr op \<Rightarrow> [op, Send_sync])"

definition fifo_ok :: "(int \<Rightarrow> string) \<Rightarrow> DbSession \<Rightarrow> bool" where
  "fifo_ok files s \<longleftrightarrow>
     (\<forall>q \<in> set (asked s). q_sync q) \<and>
     (\<exists>sent_qs. asked s = sent_qs @ queued s \<and> answered s @ dispatched s = map dispatch_of sent_qs \<and>
        wire s = concat (map (wire_ops files) sent_qs))"

text \<open>Polling touches the watchers and the connection, nothing of the queries.\<close>

lemma poll_frame:
  "poll_connection ps sock nb pl s = Inr (rv, s') \<Longrightarrow>
   queued s' = queued s \<and> asked s' = asked s \<and> answered s' = answered s \<and> dispatched s' = dispatched s \<and>
   wire s' = wire s"
  by (induction ps) (auto simp: Let_def db_connection_made_def split: polling.splits if_splits)

lemma pop_front_split: "answered (pop_front s) @ dispatched (pop_front s) = answered s @ dispatched s"
  by (simp add: pop_front_def split: list.splits)

lemma pop_front_frame [simp]: "asked (pop_front s) = asked s" "queued (pop_front s) = queued s"
  "wire (pop_front s) = wire s" "wev_started (pop_front s) = wev_started s"
  "delivered (pop_front s) = delivered s" "resumed (pop_front s) = resumed s"
  by (simp_all add: pop_front_def split: list.splits)

interpretation fifo: db_invariant files "fifo_ok files" for files
proof unfold_locales
  fix s :: DbSession and q qs op
  assume inv: "fifo_ok files s" and q: "queued s = q # qs" and op: "wire_of files (q_arg q) = Inr op"
  then obtain sent_qs where sent: "asked s = sent_qs @ q # qs" "answered s @ dispatched s = map dispatch_of sent_qs"
    "wire s = concat (map (wire_ops files) sent_qs)" by (auto simp: fifo_ok_def)
  have "q_sync q" using inv sent(1) by (simp add: fifo_ok_def)
  then show "fifo_ok files (dispatch_query (op # (if q_sync q then [Send_sync] else [])) q qs s)"
    using inv sent op unfolding fifo_ok_def
    by (intro conjI exI [of _ "sent_qs @ [q]"]) (auto simp: dispatch_query_def wire_ops_def simp flip: append_assoc)
next
  fix s assume "fifo_ok files s"
  then show "fifo_ok files (pop_front s)" by (simp add: fifo_ok_def pop_front_split)
next
  fix s s' ps sock nb pl rv
  assume "fifo_ok files s" "poll_connection ps sock nb pl s = Inr (rv, s')"
  then show "fifo_ok files s'" using poll_frame [of ps sock nb pl s rv s'] by (simp add: fifo_ok_def)
qed (auto simp: fifo_ok_def enqueue_def)

lemma new_session_fifo: "new_db_session dir ps sock nb pl = Inr s \<Longrightarrow> fifo_ok files s"
  by (auto simp: new_db_session_def fault_simps fifo_ok_def dest!: poll_frame)

text \<open>
  C9. Queries are answered in the order they were asked, whatever handlers, the socket and the
  server do: in every state of a session, what was asked is what was answered, then what was
  sent and waits for its answer, then what is still queued; and libpq has been given exactly the
  calls of the queries sent, in order, each followed by a sync.
\<close>

theorem queries_in_order:
  assumes "new_db_session dir ps sock nb pl = Inr s0" and "db_run files s0 s"
  shows "\<exists>sent_qs. asked s = sent_qs @ queued s \<and> answered s @ dispatched s = map dispatch_of sent_qs \<and>
    wire s = concat (map (wire_ops files) sent_qs)"
  using fifo.run_inv [OF assms(2) new_session_fifo [OF assms(1)]] by (simp add: fifo_ok_def)

text \<open>A session waiting for the server's greeting, and one connected, with a question each.\<close>

definition connecting_session :: DbSession where
  "connecting_session = \<lparr>connected = False, ready = False, db_fd = 5, dir_fd = - 1, rev_started = True, wev_started = False,
     queued = [], dispatched = [], prepared_queries = {}, asked = [], answered = [], wire = [], delivered = [],
     resumed = {}, published = []\<rparr>"

definition connected_session :: DbSession where
  "connected_session = connecting_session\<lparr>connected := True, ready := True\<rparr>"

definition question :: Query where
  "question = \<lparr>q_serial = 1, q_sync = True, q_arg = QueryArg ''select 1'', q_handler = Callback 0\<rparr>"

lemma ask_question: "perform (Ask_query 1 ''select 1'' (Callback 0)) s = Inr (enqueue question s)"
  by (simp add: send_query_def question_def)

lemma new_connecting: "new_db_session None [POLLING_READING] 5 0 1 = Inr connecting_session"
  by (simp add: new_db_session_def connecting_session_def Let_def)

lemma asking_run: "db_run files s (enqueue question s)"
  using db_run.more [OF db_run.none db_step.asks [OF ask_question]] .

theorem queries_in_order_witness:
  "\<forall>files. let s = enqueue question connecting_session in \<exists>sent_qs. asked s = sent_qs @ queued s \<and>
     answered s @ dispatched s = map dispatch_of sent_qs \<and> wire s = concat (map (wire_ops files) sent_qs)"
  unfolding Let_def using queries_in_order [OF new_connecting asking_run] by (intro allI)

section \<open>Nothing queued is forgotten, once connected\<close>

definition writing_ok :: "DbSession \<Rightarrow> bool" where
  "writing_ok s \<longleftrightarrow> ready s \<and> (queued s \<noteq> [] \<longrightarrow> wev_started s)"

interpretation writing: db_invariant files writing_ok for files
  by unfold_locales (auto simp: writing_ok_def enqueue_def dispatch_query_def)

text \<open>
  Once a session is connected with nothing queued, the write watcher runs whenever a query is
  queued, so that \<open>write\<close> gets to it.
\<close>

theorem queued_means_writing:
  assumes "ready s0" and "queued s0 = []" and "db_run files s0 s" and "queued s \<noteq> []"
  shows "ready s \<and> wev_started s"
  using writing.run_inv [OF assms(3)] assms(1,2,4) by (simp add: writing_ok_def)

theorem queued_means_writing_witness:
  "\<forall>files. db_run files connected_session (enqueue question connected_session) \<and>
     wev_started (enqueue question connected_session)"
proof (intro allI conjI)
  fix files
  show run: "db_run files connected_session (enqueue question connected_session)" by (rule asking_run)
  show "wev_started (enqueue question connected_session)"
    using queued_means_writing [OF _ _ run]
    by (simp add: connected_session_def connecting_session_def enqueue_def)
qed

section \<open>Writing drains the queue\<close>

definition sendable :: "(int \<Rightarrow> string) \<Rightarrow> Query \<Rightarrow> bool" where
  "sendable files q \<longleftrightarrow> q_sync q \<and> (\<exists>op. wire_of files (q_arg q) = Inr op)"

lemma batch_drains:
  "(\<forall>k. ans k \<noteq> 0) \<Longrightarrow> (\<forall>q \<in> set (queued s). sendable files q) \<Longrightarrow>
   \<exists>s'. write_batch files ans n s = Inr (0, s') \<and> queued s' = drop n (queued s) \<and>
     dispatched s' = dispatched s @ map dispatch_of (take n (queued s)) \<and>
     wire s' = wire s @ concat (map (wire_ops files) (take n (queued s)))"
proof (induction n arbitrary: s)
  case (Suc n)
  show ?case
  proof (cases "queued s")
    case (Cons q qs)
    then obtain op where op: "wire_of files (q_arg q) = Inr op" "q_sync q"
      using Suc.prems(2) by (auto simp: sendable_def)
    let ?s = "dispatch_query [op, Send_sync] q qs s"
    have "\<forall>q \<in> set (queued ?s). sendable files q" using Suc.prems(2) Cons by (simp add: dispatch_query_def)
    from Suc.IH [OF Suc.prems(1) this] show ?thesis
      using Suc.prems(1) Cons op by (auto simp: dispatch_query_def wire_ops_def)
  qed auto
qed auto

text \<open>
  C19. \<open>write\<close> returns, and has sent everything: while the socket takes the data and libpq the
  calls, one flush per batch of 20 and one more are enough for a queue of any length; the
  queries go out in order and the write watcher is stopped.
\<close>

theorem write_drains:
  assumes "\<forall>k. ans k \<noteq> 0" and "\<forall>q \<in> set (queued s). sendable files q" and "set flushes = {0}"
    and "length (queued s) div 20 < length flushes"
  shows "\<exists>s'. write_queries files ans flushes s = Inr (0, s') \<and> queued s' = [] \<and> \<not> wev_started s' \<and>
    dispatched s' = dispatched s @ map dispatch_of (queued s) \<and>
    wire s' = wire s @ concat (map (wire_ops files) (queued s))"
  using assms(2-4)
proof (induction flushes arbitrary: s)
  case (Cons f fs)
  obtain s1 where s1: "write_batch files ans 20 s = Inr (0, s1)" "queued s1 = drop 20 (queued s)"
    "dispatched s1 = dispatched s @ map dispatch_of (take 20 (queued s))"
    "wire s1 = wire s @ concat (map (wire_ops files) (take 20 (queued s)))"
    using batch_drains [OF assms(1) Cons.prems(1), of 20] by blast
  have f: "f = 0" using Cons.prems(2) by auto
  show ?case
  proof (cases "length (queued s) \<le> 20")
    case True
    then show ?thesis using s1 f by simp
  next
    case False
    then have more: "length (queued s1) div 20 < length fs"
      using Cons.prems(3) s1(2) False le_div_geq [of 20 "length (queued s)"] by simp
    then have "set fs = {0}" using Cons.prems(2) by (cases fs) auto
    moreover have "\<forall>q \<in> set (queued s1). sendable files q" using Cons.prems(1) s1(2) by (auto dest: in_set_dropD)
    ultimately obtain s' where "write_queries files ans fs s1 = Inr (0, s')" "queued s' = []" "\<not> wev_started s'"
      "dispatched s' = dispatched s1 @ map dispatch_of (queued s1)"
      "wire s' = wire s1 @ concat (map (wire_ops files) (queued s1))"
      using Cons.IH more by blast
    moreover have "queued s1 \<noteq> []" using False s1(2) by simp
    ultimately show ?thesis using s1 f
      by (auto simp: append_take_drop_id simp flip: map_append concat_append)
  qed
qed simp

theorem write_drains_witness:
  "\<exists>s'. write_queries (\<lambda>_. []) (\<lambda>_. 1) [0, 0] (connected_session\<lparr>queued := replicate 21 question\<rparr>) = Inr (0, s') \<and>
     queued s' = [] \<and> length (dispatched s') = 21"
proof -
  let ?s = "connected_session\<lparr>queued := replicate 21 question\<rparr>"
  have "sendable (\<lambda>_. []) question" by (simp add: sendable_def question_def wire_of_def)
  then have "\<forall>q \<in> set (queued ?s). sendable (\<lambda>_. []) q" by simp
  from write_drains [OF _ this, of "\<lambda>_. 1" "[0, 0]"] show ?thesis
    by (auto simp: connected_session_def connecting_session_def)
qed

end
