(* ===== verification/Db_Answers.thy ===== *)
theory Db_Answers
  imports Db_Facts
begin

text \<open>
  Reading the answers of the database server: when it answers a pipeline the way it was asked, one
  result and a sync per query, each live handler gets its own result in order. Then the three ways
  the session loses its footing: the sync after the last answer, a query asked while connecting,
  and a prepare that fails.
\<close>

section \<open>The answers of a pipeline\<close>

definition is_answer :: "PGresult \<Rightarrow> bool" where
  "is_answer pg \<longleftrightarrow> pg_status pg \<in> {PGRES_COMMAND_OK, PGRES_TUPLES_OK, PGRES_SINGLE_TUPLE,
     PGRES_NONFATAL_ERROR, PGRES_FATAL_ERROR, PGRES_PIPELINE_ABORTED}"

definition is_sync_round :: "Round \<Rightarrow> bool" where
  "is_sync_round r \<longleftrightarrow> r_notifs r = [] \<and>
     (case r_results r of Some pg # _ \<Rightarrow> pg_status pg = PGRES_PIPELINE_SYNC | _ \<Rightarrow> False)"

type_synonym answer = "64 word set \<times> PGresult \<times> (string \<times> string) list"

fun answer_rounds :: "Round \<Rightarrow> answer list \<Rightarrow> Round list" where
  "answer_rounds sync [] = []"
| "answer_rounds sync ((al, pg, ns) # as) =
     \<lparr>r_alive = al, r_results = [Some pg, None], r_notifs = ns\<rparr> # sync # answer_rounds sync as"

text \<open>The handlers that run and what they get: those whose stream is alive.\<close>

fun deliveries :: "DispatchedQuery list \<Rightarrow> answer list \<Rightarrow> (completion_handler \<times> ResultBase) list" where
  "deliveries (d # ds) ((al, pg, ns) # as) =
     (if d_serial d \<in> al then [(d_handler d, fst (move_result (new_result pg)))] else []) @ deliveries ds as"
| "deliveries _ _ = []"

text \<open>A coroutine waits for one query at a time, and none of those asked before is waiting still.\<close>

definition coros :: "DispatchedQuery list \<Rightarrow> nat list" where
  "coros ds = concat (map (\<lambda>d. case d_handler d of Coroutine c \<Rightarrow> [c] | Callback t \<Rightarrow> []) ds)"

definition waiting_once :: "DbSession \<Rightarrow> bool" where
  "waiting_once s \<longleftrightarrow> distinct (coros (dispatched s)) \<and> set (coros (dispatched s)) \<inter> resumed s = {}"

lemma coros_Cons: "coros (d # ds) = coros [d] @ coros ds"
  by (simp add: coros_def)

text \<open>An application that does not ask to prepare from a file it could not open.\<close>

definition polite :: "reaction \<Rightarrow> bool" where
  "polite react \<longleftrightarrow> (\<forall>h r. \<forall>c \<in> set (react h r). case c of Ask_prepare_file _ _ fd _ \<Rightarrow> 0 \<le> fd | _ \<Rightarrow> True)"

definition read_side :: "DbSession \<Rightarrow> _" where
  "read_side s = (dispatched s, answered s, delivered s, resumed s, published s)"

lemma perform_read_side:
  "(case c of Ask_prepare_file _ _ fd _ \<Rightarrow> 0 \<le> fd | _ \<Rightarrow> True) \<Longrightarrow>
   \<exists>s'. perform c s = Inr s' \<and> read_side s' = read_side s"
  by (cases c) (auto simp: read_side_def enqueue_def send_query_def send_query_params_def send_prepared_def
      send_prepared_file_def send_query_prepared_def add_prepared_query_def)

lemma perform_all_read_side:
  "\<forall>c \<in> set cs. case c of Ask_prepare_file _ _ fd _ \<Rightarrow> 0 \<le> fd | _ \<Rightarrow> True \<Longrightarrow>
   \<exists>s'. perform_all cs s = Inr s' \<and> read_side s' = read_side s"
proof (induction cs arbitrary: s)
  case (Cons c cs)
  obtain s1 where s1: "perform c s = Inr s1" "read_side s1 = read_side s"
    using perform_read_side [of c s] Cons.prems by auto
  obtain s2 where "perform_all cs s1 = Inr s2" "read_side s2 = read_side s1"
    using Cons.IH [of s1] Cons.prems by auto
  then show ?case using s1 by simp
qed simp

lemma handle_delivers:
  assumes "polite react" and "\<And>c. d_handler d = Coroutine c \<Longrightarrow> c \<notin> resumed s"
  shows "\<exists>s'. handle_result react d pg al s = Inr s' \<and> dispatched s' = dispatched s \<and> answered s' = answered s \<and>
    published s' = published s \<and>
    delivered s' = delivered s @ (if al then [(d_handler d, fst (move_result (new_result pg)))] else []) \<and>
    resumed s' \<subseteq> resumed s \<union> set (coros [d])"
proof (cases al)
  case True
  let ?r = "fst (move_result (new_result pg))"
  let ?s = "s\<lparr>delivered := delivered s @ [(d_handler d, ?r)], resumed := resumed s \<union> set (coros [d])\<rparr>"
  obtain s' where "perform_all (react (d_handler d) ?r) ?s = Inr s'" "read_side s' = read_side ?s"
    using perform_all_read_side [of "react (d_handler d) ?r" ?s] assms(1) unfolding polite_def by blast
  then show ?thesis using assms(2) True
    by (cases "d_handler d") (auto simp: handle_result_def read_side_def coros_def Let_def)
qed (simp add: handle_result_def)

lemma sync_round_skips:
  "is_sync_round r \<Longrightarrow> dispatched s \<noteq> [] \<Longrightarrow> read_rounds react (r # rs) s = read_rounds react rs s"
  by (cases "r_results r"; cases "dispatched s")
    (auto simp: is_sync_round_def check_notif_def Let_def split: option.splits)

lemma answer_round_step:
  assumes "dispatched s = d # ds" and "is_answer pg"
    and "handle_result react d pg (d_serial d \<in> al) s = Inr s1" and "dispatched s1 = d # ds"
  shows "read_rounds react (\<lparr>r_alive = al, r_results = [Some pg, None], r_notifs = ns\<rparr> # rs) s =
    (let s2 = check_notif ns (pop_front s1) in if ds = [] then Inr (0, s2) else read_rounds react rs s2)"
proof -
  have "get_results react d (d_serial d \<in> al) [Some pg, None] False s = Inr (False, False, s1)"
    using assms(2,3) by (auto simp: is_answer_def)
  then show ?thesis using assms(1,4) by (simp add: Let_def check_notif_def pop_front_def)
qed

definition events_of :: "answer list \<Rightarrow> Event list" where
  "events_of as = concat (map (\<lambda>(al, pg, ns). map (\<lambda>(channel, payload). new_event channel payload) ns) as)"

lemma rounds_deliver:
  assumes "polite react" and "is_sync_round sync"
  shows "\<forall>(al, pg, ns) \<in> set as. is_answer pg \<Longrightarrow> length as \<le> length (dispatched s) \<Longrightarrow> waiting_once s \<Longrightarrow>
    \<exists>s'. read_rounds react (answer_rounds sync as) s = Inr (0, s') \<and>
      delivered s' = delivered s @ deliveries (dispatched s) as \<and>
      dispatched s' = drop (length as) (dispatched s) \<and>
      answered s' = answered s @ take (length as) (dispatched s) \<and>
      published s' = published s @ events_of as"
proof (induction as arbitrary: s)
  case (Cons a as)
  obtain al pg ns where a: "a = (al, pg, ns)" by (cases a)
  obtain d ds where d: "dispatched s = d # ds" using Cons.prems(2) by (cases "dispatched s") auto
  have once: "distinct (coros (d # ds))" "set (coros (d # ds)) \<inter> resumed s = {}"
    using Cons.prems(3) d by (simp_all add: waiting_once_def)
  have "c \<notin> resumed s" if "d_handler d = Coroutine c" for c using once(2) that by (auto simp: coros_def)
  from handle_delivers [OF assms(1) this, where pg = pg and al = "d_serial d \<in> al"] obtain s1 where s1:
    "handle_result react d pg (d_serial d \<in> al) s = Inr s1" "dispatched s1 = dispatched s" "answered s1 = answered s"
    "published s1 = published s"
    "delivered s1 = delivered s @ (if d_serial d \<in> al then [(d_handler d, fst (move_result (new_result pg)))] else [])"
    "resumed s1 \<subseteq> resumed s \<union> set (coros [d])" by blast
  let ?s2 = "check_notif ns (pop_front s1)"
  have s2: "dispatched ?s2 = ds" "answered ?s2 = answered s @ [d]" "delivered ?s2 = delivered s1"
    "published ?s2 = published s @ map (\<lambda>(channel, payload). new_event channel payload) ns"
    using s1(2-4) d by (simp_all add: check_notif_def pop_front_def)
  have "is_answer pg" using Cons.prems(1) a by auto
  from answer_round_step [OF d this s1(1) trans [OF s1(2) d]] have step:
    "read_rounds react (answer_rounds sync (a # as)) s =
      (if ds = [] then Inr (0, ?s2) else read_rounds react (sync # answer_rounds sync as) ?s2)"
    by (simp add: a Let_def)
  show ?case
  proof (cases "ds = []")
    case True
    then have "as = []" using Cons.prems(2) d by simp
    then show ?thesis using step True s2 s1(5) a d by (auto simp: events_of_def)
  next
    case False
    have "resumed ?s2 = resumed s1" by (simp add: check_notif_def)
    then have "waiting_once ?s2"
      using once s1(6) unfolding waiting_once_def s2(1) coros_Cons [of d ds] by auto
    moreover have "length as \<le> length (dispatched ?s2)" using Cons.prems(2) d s2(1) by simp
    ultimately obtain s' where s': "read_rounds react (answer_rounds sync as) ?s2 = Inr (0, s')"
      "delivered s' = delivered ?s2 @ deliveries ds as" "dispatched s' = drop (length as) ds"
      "answered s' = answered ?s2 @ take (length as) ds" "published s' = published ?s2 @ events_of as"
      using Cons.IH [of ?s2] Cons.prems(1) s2(1) by auto
    have "read_rounds react (sync # answer_rounds sync as) ?s2 = Inr (0, s')"
      using sync_round_skips [OF assms(2), of ?s2 react "answer_rounds sync as"] s'(1) s2(1) False by simp
    then show ?thesis using step False s' s2 s1(5) a d by (auto simp: events_of_def)
  qed
qed (simp add: events_of_def)

lemma waiting_once_notif [simp]: "waiting_once (check_notif ns s) = waiting_once s"
  by (simp add: check_notif_def waiting_once_def)

lemma notif_queries [simp]: "dispatched (check_notif ns s) = dispatched s" "answered (check_notif ns s) = answered s"
  "delivered (check_notif ns s) = delivered s" "queued (check_notif ns s) = queued s"
  "wev_started (check_notif ns s) = wev_started s"
  by (simp_all add: check_notif_def)

section \<open>Properties\<close>

text \<open>
  C8. When the server answers the first queries of the pipeline, one result and one sync each,
  \<open>read\<close> gives every answer to the coroutine or callback that asked, in the order of asking,
  exactly once, as an error where it is one; the answers to streams that are gone are dropped
  without shifting the others; and the queries answered, and only those, leave the pipeline.
\<close>

theorem read_delivers_in_order:
  assumes "polite react" and "is_sync_round sync" and "consumed \<noteq> 0"
    and "\<forall>(al, pg, ns) \<in> set as. is_answer pg" and "length as \<le> length (dispatched s)" and "waiting_once s"
  shows "\<exists>s'. read_answers react consumed notifs (answer_rounds sync as) s = Inr (0, s') \<and>
    delivered s' = delivered s @ deliveries (dispatched s) as \<and>
    dispatched s' = drop (length as) (dispatched s) \<and>
    answered s' = answered s @ take (length as) (dispatched s)"
  using rounds_deliver [OF assms(1,2,4), of "check_notif notifs s"] assms(3,5,6)
  by (auto simp: read_answers_def)

text \<open>Three queries are out; the stream of the second is gone when its answer comes.\<close>

definition ok_result :: PGresult where
  "ok_result = \<lparr>pg_status = PGRES_COMMAND_OK, pg_fields = [], pg_rows = []\<rparr>"

definition failed :: PGresult where
  "failed = ok_result\<lparr>pg_status := PGRES_FATAL_ERROR\<rparr>"

definition sync_round :: Round where
  "sync_round = \<lparr>r_alive = {}, r_results = [Some (ok_result\<lparr>pg_status := PGRES_PIPELINE_SYNC\<rparr>)], r_notifs = []\<rparr>"

definition three_out :: DbSession where
  "three_out = connected_session\<lparr>dispatched :=
     [\<lparr>d_serial = 1, d_sync = True, d_handler = Callback 0\<rparr>, \<lparr>d_serial = 2, d_sync = True, d_handler = Coroutine 1\<rparr>,
      \<lparr>d_serial = 3, d_sync = True, d_handler = Coroutine 2\<rparr>]\<rparr>"

lemma three_answers:
  "\<forall>(al, pg, ns) \<in> set [({1, 2, 3}, ok_result, []), ({1, 3}, ok_result, []), ({1, 3}, failed, [])]. is_answer pg"
  by (simp add: is_answer_def ok_result_def failed_def)

lemma three_waiting: "waiting_once three_out"
  by (simp add: waiting_once_def coros_def three_out_def connected_session_def connecting_session_def)

lemma silent_polite: "polite (\<lambda>_ _. [])" "is_sync_round sync_round"
  by (simp_all add: polite_def is_sync_round_def sync_round_def)

theorem read_delivers_in_order_witness:
  "\<exists>s'. read_answers (\<lambda>_ _. []) 1 []
       (answer_rounds sync_round [({1, 2, 3}, ok_result, []), ({1, 3}, ok_result, []), ({1, 3}, failed, [])]) three_out
     = Inr (0, s') \<and> map fst (delivered s') = [Callback 0, Coroutine 2] \<and> dispatched s' = []"
  using read_delivers_in_order [OF silent_polite one_neq_zero three_answers _ three_waiting, of "[]"]
  by (auto simp: three_out_def connected_session_def connecting_session_def)

text \<open>
  After the last answer \<open>read\<close> stops with the sync that follows it unread. Whatever makes
  the socket readable next (that sync, a notification), \<open>PQisBusy\<close> answers 0 and \<open>read\<close> takes
  the front of an empty queue.
\<close>

theorem trailing_sync_undefined:
  assumes "polite react" and "is_sync_round sync" and "consumed \<noteq> 0" and "consumed' \<noteq> 0"
    and "\<forall>(al, pg, ns) \<in> set as. is_answer pg" and "length as = length (dispatched s)" and "waiting_once s"
  shows "\<exists>s'. read_answers react consumed notifs (answer_rounds sync as) s = Inr (0, s') \<and>
    read_answers react' consumed' notifs' (round # rounds) s' = Inl Undefined"
  using rounds_deliver [OF assms(1,2,5), of "check_notif notifs s"] assms(3,4,6,7)
  by (auto simp: read_answers_def)

theorem trailing_sync_undefined_witness:
  "\<exists>s'. read_answers (\<lambda>_ _. []) 1 []
       (answer_rounds sync_round [({1, 2, 3}, ok_result, []), ({1, 3}, ok_result, []), ({1, 3}, failed, [])]) three_out
     = Inr (0, s') \<and> read_answers (\<lambda>_ _. []) 1 [] [sync_round] s' = Inl Undefined"
  using trailing_sync_undefined [OF silent_polite one_neq_zero one_neq_zero three_answers _ three_waiting,
      of "[]" "\<lambda>_ _. []" "[]" sync_round "[]"]
  by (auto simp: three_out_def connected_session_def connecting_session_def)

text \<open>
  A query asked while the connection is being made is stranded: polling stops the write
  watcher its asking had started, and when the connection is there nothing starts it again; no
  read changes that, so it is written only when somebody asks another query.
\<close>

theorem early_query_stalls:
  assumes "\<not> ready s" and "dispatched s = []"
  shows "\<exists>s1 s2. poll_connection [POLLING_READING] sock 0 1 (enqueue q s) = Inr (0, s1) \<and>
    poll_connection [POLLING_OK] sock' 0 1 s1 = Inr (0, s2) \<and>
    connected s2 \<and> ready s2 \<and> queued s2 = queued s @ [q] \<and> \<not> wev_started s2 \<and>
    (\<forall>react consumed notifs rounds rv s3. read_answers react consumed notifs rounds s2 = Inr (rv, s3) \<longrightarrow>
       queued s3 = queued s @ [q] \<and> \<not> wev_started s3 \<and> dispatched s3 = [])"
proof -
  let ?s1 = "(if sock \<noteq> db_fd s then (enqueue q s)\<lparr>wev_started := False, db_fd := sock\<rparr>
    else (enqueue q s)\<lparr>wev_started := False\<rparr>)\<lparr>rev_started := True\<rparr>"
  let ?s2 = "?s1\<lparr>ready := True, connected := True\<rparr>"
  have "poll_connection [POLLING_READING] sock 0 1 (enqueue q s) = Inr (0, ?s1)"
    by (simp add: enqueue_def Let_def)
  moreover have "poll_connection [POLLING_OK] sock' 0 1 ?s1 = Inr (0, ?s2)"
    by (simp add: db_connection_made_def Let_def)
  moreover have "queued s3 = queued s @ [q] \<and> \<not> wev_started s3 \<and> dispatched s3 = []"
    if "read_answers react consumed notifs rounds ?s2 = Inr (rv, s3)" for react consumed notifs rounds rv s3
    using that assms(2)
    by (cases rounds) (auto simp: read_answers_def enqueue_def split: if_split_asm)
  ultimately show ?thesis by (intro exI [of _ ?s1] exI [of _ ?s2]) (simp add: enqueue_def)
qed

theorem early_query_stalls_witness:
  "\<exists>s1 s2. poll_connection [POLLING_READING] 5 0 1 (enqueue question connecting_session) = Inr (0, s1) \<and>
     poll_connection [POLLING_OK] 5 0 1 s1 = Inr (0, s2) \<and> queued s2 = [question] \<and> \<not> wev_started s2"
  using early_query_stalls [of connecting_session 5 question 5]
  by (auto simp: connecting_session_def)

text \<open>
  A statement is marked as prepared before the server has prepared it, and stays so when it
  fails: the next query of that statement is sent as if it existed, without preparing it again.
\<close>

theorem failed_prepare_stays_marked:
  assumes "statement \<notin> prepared_queries s" and "length statement + 4 < 64" and "0 \<le> open_at (if 0 \<le> dir_fd s then Some (dir_fd s) else None) (statement @ ''.sql'')"
    and "is_error res"
  shows "\<exists>s1. query_prepared open_at serial statement params c c' s = Inr (Waiting, s1) \<and>
    query_prepared_resumed res serial statement params c s1 = (Returned res, s1) \<and>
    query_prepared open_at' serial' statement params' d d' s1 = Inr (Waiting, enqueue
      \<lparr>q_serial = serial', q_sync = True, q_arg = QueryPreparedArg statement params', q_handler = Coroutine d\<rparr> s1)"
  using assms by (auto simp: query_prepared_def query_prepared_resumed_def check_prepared_query_def
      open_query_file_def send_prepared_file_def send_query_prepared_def add_prepared_query_def enqueue_def)

theorem failed_prepare_stays_marked_witness:
  "\<exists>s1. query_prepared (\<lambda>_ _. 7) 1 ''users'' [] 0 1 connected_session = Inr (Waiting, s1) \<and>
     query_prepared_resumed (new_result failed) 1 ''users'' [] 0 s1 = (Returned (new_result failed), s1) \<and>
     (\<exists>s2. query_prepared (\<lambda>_ _. 7) 2 ''users'' [] 2 3 s1 = Inr (Waiting, s2))"
  using failed_prepare_stays_marked [of "''users''" connected_session "\<lambda>_ _. 7" "new_result failed" 1 "[]" 0 1
      "\<lambda>_ _. 7" 2 "[]" 2 3]
  by (auto simp: connected_session_def connecting_session_def is_error_def new_result_def failed_def
      ok_result_def status_of_def Let_def)

end
