(* ===== verification/Db_Ownership.thy ===== *)
theory Db_Ownership
  imports Db_Result "HOL-Library.Multiset"
begin

text \<open>
  Who frees a \<open>PGresult\<close>: the owning pointers of \<open>Result\<close> and \<open>SharedResult\<close> (\<open>dbresult.cc\<close>).
  Each object keeps the raw pointer of its base class beside its \<open>unique_ptr\<close> or \<open>shared_ptr\<close>.
  A run is over objects of one of the two classes, which never exchange pointers. An object that
  was destroyed stays in the list with both pointers null; a pointer is the number of its result.
  \<open>cleared\<close> logs the calls of \<open>PQclear\<close>, \<open>issued\<close> the results libpq gave.
\<close>

section \<open>Objects and operations\<close>

record Holder =
  raw :: "nat option"
  own :: "nat option"

record Holders =
  objects :: "Holder list"
  uses :: "nat \<Rightarrow> nat"
  cleared :: "nat list"
  issued :: "nat list"

definition null_holder :: Holder where
  "null_holder = \<lparr>raw = None, own = None\<rparr>"

definition no_holders :: Holders where
  "no_holders = \<lparr>objects = [], uses = (\<lambda>_. 0), cleared = [], issued = []\<rparr>"

text \<open>
  An owner lets go: a \<open>unique_ptr\<close> deletes, a \<open>shared_ptr\<close> does when the count it decrements
  reaches zero. A copy increments it.
\<close>

definition release :: "bool \<Rightarrow> nat option \<Rightarrow> Holders \<Rightarrow> Holders" where
  "release shared ptr s =
     (case ptr of
        None \<Rightarrow> s
      | Some p \<Rightarrow>
          let s' = s\<lparr>uses := (uses s)(p := uses s p - 1)\<rparr> in
          if shared \<and> uses s' p \<noteq> 0 then s' else s'\<lparr>cleared := cleared s @ [p]\<rparr>)"

definition acquire :: "nat option \<Rightarrow> Holders \<Rightarrow> Holders" where
  "acquire ptr s = (case ptr of None \<Rightarrow> s | Some p \<Rightarrow> s\<lparr>uses := (uses s)(p := uses s p + 1)\<rparr>)"

definition construct :: "nat \<Rightarrow> Holders \<Rightarrow> Holders" where
  "construct p s =
     acquire (Some p) (s\<lparr>objects := objects s @ [\<lparr>raw = Some p, own = Some p\<rparr>], issued := issued s @ [p]\<rparr>)"

definition construct_null :: "Holders \<Rightarrow> Holders" where
  "construct_null s = s\<lparr>objects := objects s @ [null_holder]\<rparr>"

definition move_construct :: "nat \<Rightarrow> Holders \<Rightarrow> Holders" where
  "move_construct i s = s\<lparr>objects := (objects s)[i := null_holder] @ [objects s ! i]\<rparr>"

text \<open>Assigning an object to itself nulls the raw pointer and keeps the owner.\<close>

definition move_assign :: "bool \<Rightarrow> nat \<Rightarrow> nat \<Rightarrow> Holders \<Rightarrow> Holders" where
  "move_assign shared j i s =
     (let a = objects s ! j; b = objects s ! i in
      if i = j then s\<lparr>objects := (objects s)[j := a\<lparr>raw := None\<rparr>]\<rparr>
      else release shared (own a) (s\<lparr>objects := (objects s)[j := b, i := null_holder]\<rparr>))"

definition copy_construct :: "nat \<Rightarrow> Holders \<Rightarrow> Holders" where
  "copy_construct i s = acquire (own (objects s ! i)) (s\<lparr>objects := objects s @ [objects s ! i]\<rparr>)"

definition copy_assign :: "nat \<Rightarrow> nat \<Rightarrow> Holders \<Rightarrow> Holders" where
  "copy_assign j i s =
     (let a = objects s ! j; b = objects s ! i in
      release True (own a) (acquire (own b) (s\<lparr>objects := (objects s)[j := b]\<rparr>)))"

definition destroy :: "bool \<Rightarrow> nat \<Rightarrow> Holders \<Rightarrow> Holders" where
  "destroy shared i s = release shared (own (objects s ! i)) (s\<lparr>objects := (objects s)[i := null_holder]\<rparr>)"

text \<open>What a program can do with the objects of one class; only \<open>SharedResult\<close> copies.\<close>

inductive holder_step :: "bool \<Rightarrow> Holders \<Rightarrow> Holders \<Rightarrow> bool" for shared where
  makes: "p \<notin> set (issued s) \<Longrightarrow> holder_step shared s (construct p s)"
| makes_null: "holder_step shared s (construct_null s)"
| moves: "i < length (objects s) \<Longrightarrow> holder_step shared s (move_construct i s)"
| moves_to: "i < length (objects s) \<Longrightarrow> j < length (objects s) \<Longrightarrow> holder_step shared s (move_assign shared j i s)"
| copies: "shared \<Longrightarrow> i < length (objects s) \<Longrightarrow> holder_step shared s (copy_construct i s)"
| copies_to: "shared \<Longrightarrow> i < length (objects s) \<Longrightarrow> j < length (objects s) \<Longrightarrow>
    holder_step shared s (copy_assign j i s)"
| destroys: "i < length (objects s) \<Longrightarrow> holder_step shared s (destroy shared i s)"

inductive holder_run :: "bool \<Rightarrow> Holders \<Rightarrow> bool" for shared where
  start: "holder_run shared no_holders"
| more: "holder_run shared s \<Longrightarrow> holder_step shared s s' \<Longrightarrow> holder_run shared s'"

section \<open>The invariant\<close>

definition owners :: "Holders \<Rightarrow> nat \<Rightarrow> nat" where
  "owners s p = count (mset (map own (objects s))) (Some p)"

text \<open>\<open>extra p\<close> owners are in hand: counted, but in no object, during an assignment.\<close>

definition held :: "bool \<Rightarrow> (nat \<Rightarrow> nat) \<Rightarrow> Holders \<Rightarrow> bool" where
  "held shared extra s \<longleftrightarrow>
     (\<forall>p. uses s p = owners s p + extra p) \<and>
     (\<forall>p. count_list (cleared s) p = (if p \<in> set (issued s) \<and> uses s p = 0 then 1 else 0)) \<and>
     (\<forall>p. p \<notin> set (issued s) \<longrightarrow> uses s p = 0) \<and>
     (\<forall>h \<in> set (objects s). raw h = None \<or> raw h = own h) \<and>
     (\<not> shared \<longrightarrow> (\<forall>p. uses s p \<le> 1))"

abbreviation (input) one_of :: "nat option \<Rightarrow> nat \<Rightarrow> nat" where
  "one_of ptr \<equiv> (\<lambda>p. if ptr = Some p then 1 else 0)"

lemma owners_upd [simp]: "owners (s\<lparr>uses := u\<rparr>) = owners s" "owners (s\<lparr>cleared := c\<rparr>) = owners s"
  "owners (s\<lparr>issued := g\<rparr>) = owners s"
  by (auto simp: owners_def)

lemma held_release:
  assumes "held shared (one_of ptr) s"
  shows "held shared (\<lambda>_. 0) (release shared ptr s)"
proof (cases ptr)
  case (Some p)
  have u: "uses s p = owners s p + 1" using assms Some by (simp add: held_def)
  have p: "p \<in> set (issued s)" "count_list (cleared s) p = 0" using assms u by (auto simp: held_def)
  have all: "uses s q = owners s q" "count_list (cleared s) q = (if q \<in> set (issued s) \<and> uses s q = 0 then 1 else 0)"
    if "q \<noteq> p" for q using assms Some that by (simp_all add: held_def)
  show ?thesis unfolding held_def
  proof (intro conjI allI impI)
    fix q
    show "uses (release shared ptr s) q = owners (release shared ptr s) q + 0"
      using Some u all(1) [of q] by (auto simp: release_def Let_def)
    show "count_list (cleared (release shared ptr s)) q =
      (if q \<in> set (issued (release shared ptr s)) \<and> uses (release shared ptr s) q = 0 then 1 else 0)"
    proof (cases "q = p")
      case True
      have "uses s p \<le> 1" if "\<not> shared" using assms that unfolding held_def by blast
      then have "\<not> shared \<Longrightarrow> uses s p = 1" using u by fastforce
      then show ?thesis using True Some u p by (auto simp: release_def Let_def)
    qed (use all(2) [of q] Some in \<open>auto simp: release_def Let_def\<close>)
    show "uses (release shared ptr s) q = 0" if "q \<notin> set (issued (release shared ptr s))"
      using assms Some that p by (auto simp: release_def Let_def held_def split: if_split_asm)
    show "uses (release shared ptr s) q \<le> 1" if "\<not> shared"
      using assms that by (auto simp: release_def Let_def held_def split: option.split dest!: spec [of _ q])
  qed (use assms in \<open>auto simp: release_def Let_def held_def split: option.split\<close>)
qed (use assms in \<open>simp add: release_def\<close>)

lemma owners_update:
  assumes "i < length (objects s)"
  shows "owners (s\<lparr>objects := (objects s)[i := h]\<rparr>) p + one_of (own (objects s ! i)) p = owners s p + one_of (own h) p"
proof -
  let ?M = "mset (map own (objects s))" and ?x = "own (objects s ! i)"
  have "map own (objects s) ! i \<in> set (map own (objects s))" using assms by (intro nth_mem) simp
  then have "?x \<in># ?M" using assms by simp
  then obtain N where N: "?M = add_mset ?x N" by (blast dest: multi_member_split)
  have "mset (map own ((objects s)[i := h])) = add_mset (own h) (?M - {#?x#})"
    using assms by (simp add: map_update mset_update del: mset_map)
  then have "mset (map own ((objects s)[i := h])) = add_mset (own h) N" unfolding N by simp
  then show ?thesis using N by (simp add: owners_def del: mset_map)
qed

lemma held_objects:
  assumes "held shared extra s" and "\<And>p. uses s p = owners (s\<lparr>objects := os\<rparr>) p + extra' p"
    and "\<And>h. h \<in> set os \<Longrightarrow> raw h = None \<or> raw h = own h"
  shows "held shared extra' (s\<lparr>objects := os\<rparr>)"
proof -
  have same: "uses (s\<lparr>objects := os\<rparr>) = uses s" "cleared (s\<lparr>objects := os\<rparr>) = cleared s"
    "issued (s\<lparr>objects := os\<rparr>) = issued s" "objects (s\<lparr>objects := os\<rparr>) = os" by simp_all
  show ?thesis using assms unfolding held_def same by blast
qed

lemma held_counts: "held shared extra s \<Longrightarrow> uses s p = owners s p + extra p"
  by (simp add: held_def)

lemma held_update:
  assumes "held shared extra s" and "i < length (objects s)" and "raw h = None \<or> raw h = own h"
    and "\<And>p. one_of (own h) p \<le> extra p + one_of (own (objects s ! i)) p"
  shows "held shared (\<lambda>p. extra p + one_of (own (objects s ! i)) p - one_of (own h) p)
    (s\<lparr>objects := (objects s)[i := h]\<rparr>)"
proof (rule held_objects [OF assms(1)])
  fix p
  show "uses s p = owners (s\<lparr>objects := (objects s)[i := h]\<rparr>) p +
      (extra p + one_of (own (objects s ! i)) p - one_of (own h) p)"
    using owners_update [OF assms(2), of h p] held_counts [OF assms(1), of p] assms(4) [of p] by simp
next
  fix h' assume "h' \<in> set ((objects s)[i := h])"
  then consider "h' = h" | "h' \<in> set (objects s)" using set_update_subset_insert by fast
  then show "raw h' = None \<or> raw h' = own h'" by cases (use assms(1,3) in \<open>simp_all add: held_def\<close>)
qed

lemma owners_append: "owners (s\<lparr>objects := objects s @ [h]\<rparr>) p = owners s p + one_of (own h) p"
  by (simp add: owners_def)

lemma held_append:
  assumes "held shared extra s" and "raw h = None \<or> raw h = own h" and "\<And>p. one_of (own h) p \<le> extra p"
  shows "held shared (\<lambda>p. extra p - one_of (own h) p) (s\<lparr>objects := objects s @ [h]\<rparr>)"
proof (rule held_objects [OF assms(1)])
  fix p
  show "uses s p = owners (s\<lparr>objects := objects s @ [h]\<rparr>) p + (extra p - one_of (own h) p)"
    using owners_append [of s h p] held_counts [OF assms(1), of p] assms(3) [of p] by simp
next
  fix h' assume "h' \<in> set (objects s @ [h])"
  then show "raw h' = None \<or> raw h' = own h'" using assms(1,2) by (auto simp: held_def)
qed

lemma acquire_same [simp]: "objects (acquire ptr s) = objects s"
  by (simp add: acquire_def split: option.split)

lemma owners_acquire [simp]: "owners (acquire ptr s) = owners s"
  by (simp add: acquire_def split: option.split)

lemma held_acquire:
  assumes "held True extra s" and "\<And>p. ptr = Some p \<Longrightarrow> 0 < uses s p"
  shows "held True (\<lambda>p. extra p + one_of ptr p) (acquire ptr s)"
proof (cases ptr)
  case (Some p)
  have u: "0 < uses s p" using assms(2) Some by simp
  have p: "p \<in> set (issued s)" "count_list (cleared s) p = 0" using assms(1) u by (auto simp: held_def)
  have uses: "uses (acquire ptr s) q = uses s q + one_of ptr q" for q using Some by (simp add: acquire_def)
  have rest: "cleared (acquire ptr s) = cleared s" "issued (acquire ptr s) = issued s"
    using Some by (simp_all add: acquire_def)
  have "uses s q = owners s q + extra q" "q \<notin> set (issued s) \<Longrightarrow> uses s q = 0"
    "count_list (cleared s) q = (if q \<in> set (issued s) \<and> uses s q = 0 then 1 else 0)" for q
    using assms(1) unfolding held_def by blast+
  moreover have "\<forall>h \<in> set (objects s). raw h = None \<or> raw h = own h" using assms(1) unfolding held_def by blast
  ultimately show ?thesis unfolding held_def uses rest owners_acquire acquire_same using p u Some by auto
qed (use assms(1) in \<open>simp add: acquire_def\<close>)

lemma acquire_objects: "acquire ptr (s\<lparr>objects := os\<rparr>) = (acquire ptr s)\<lparr>objects := os\<rparr>"
  by (simp add: acquire_def split: option.split)

lemma held_object:
  assumes "held shared extra s" and "i < length (objects s)" and "own (objects s ! i) = Some p"
  shows "0 < uses s p"
proof -
  have "Some p \<in># mset (map own (objects s))" using assms(2,3) by (auto simp: in_set_conv_nth) (metis nth_mem image_eqI)
  then have "0 < owners s p" by (simp add: owners_def)
  then show ?thesis using assms(1) by (simp add: held_def)
qed

lemma held_raw: "held shared extra s \<Longrightarrow> i < length (objects s) \<Longrightarrow>
    raw (objects s ! i) = None \<or> raw (objects s ! i) = own (objects s ! i)"
  by (simp add: held_def)

lemma held_construct:
  assumes "held shared (\<lambda>_. 0) s" and "p \<notin> set (issued s)"
  shows "held shared (\<lambda>_. 0) (construct p s)"
proof -
  have "uses s p = 0" "owners s p = 0" "count_list (cleared s) p = 0" using assms by (auto simp: held_def)
  then show ?thesis using assms by (auto simp: held_def construct_def acquire_def owners_def)
qed

lemma step_held: "holder_step shared s s' \<Longrightarrow> held shared (\<lambda>_. 0) s \<Longrightarrow> held shared (\<lambda>_. 0) s'"
proof (induction rule: holder_step.induct)
  case (makes p s)
  then show ?case using held_construct by blast
next
  case (makes_null s)
  then show ?case using held_append [of shared "\<lambda>_. 0" s null_holder]
    by (simp add: construct_null_def null_holder_def)
next
  case (moves i s)
  let ?b = "objects s ! i"
  have "held shared (one_of (own ?b)) (s\<lparr>objects := (objects s)[i := null_holder]\<rparr>)"
    using held_update [OF moves(2,1), of null_holder] by (simp add: null_holder_def)
  from held_append [OF this held_raw [OF moves(2,1)]] show ?case by (simp add: move_construct_def)
next
  case (moves_to i s j)
  let ?a = "objects s ! j" and ?b = "objects s ! i"
  show ?case
  proof (cases "i = j")
    case True
    then show ?thesis
      using held_update [OF moves_to(3,2), of "?a\<lparr>raw := None\<rparr>"] by (simp add: move_assign_def Let_def)
  next
    case False
    have 1: "held shared (one_of (own ?b)) (s\<lparr>objects := (objects s)[i := null_holder]\<rparr>)"
      using held_update [OF moves_to(3,1), of null_holder] by (simp add: null_holder_def)
    have "held shared (one_of (own ?a)) (s\<lparr>objects := (objects s)[i := null_holder, j := ?b]\<rparr>)"
      using held_update [OF 1, of j ?b] held_raw [OF moves_to(3,1)] moves_to(2) False by simp
    from held_release [OF this] show ?thesis
      using False by (simp add: move_assign_def Let_def list_update_swap)
  qed
next
  case (copies i s)
  let ?b = "objects s ! i"
  have 1: "held shared (one_of (own ?b)) (acquire (own ?b) s)"
    using held_acquire [of "\<lambda>_. 0" s "own ?b"] held_object [of True] copies by simp
  from held_append [OF 1 held_raw [OF copies(3,2)]] show ?case by (simp add: copy_construct_def acquire_objects)
next
  case (copies_to i s j)
  let ?a = "objects s ! j" and ?b = "objects s ! i"
  have 1: "held True (one_of (own ?b)) (acquire (own ?b) s)"
    using held_acquire [of "\<lambda>_. 0" s "own ?b"] held_object [of True] copies_to by simp
  have "held True (one_of (own ?a)) ((acquire (own ?b) s)\<lparr>objects := (objects s)[j := ?b]\<rparr>)"
    using held_update [OF 1, of j ?b] held_raw [OF copies_to(4,2)] copies_to(3) by simp
  from held_release [OF this] show ?case
    using copies_to(1) by (simp add: copy_assign_def Let_def acquire_objects)
next
  case (destroys i s)
  have "held shared (one_of (own (objects s ! i))) (s\<lparr>objects := (objects s)[i := null_holder]\<rparr>)"
    using held_update [OF destroys(2,1), of null_holder] by (simp add: null_holder_def)
  from held_release [OF this] show ?case by (simp add: destroy_def)
qed

lemma run_held: "holder_run shared s \<Longrightarrow> held shared (\<lambda>_. 0) s"
proof (induction rule: holder_run.induct)
  case (more s s')
  then show ?case using step_held by blast
qed (simp add: held_def no_holders_def owners_def)

text \<open>Nothing is freed twice, read after it was freed, or forgotten.\<close>

definition owned_safely :: "Holders \<Rightarrow> bool" where
  "owned_safely s \<longleftrightarrow> distinct (cleared s) \<and>
    (\<forall>h \<in> set (objects s). \<forall>p. raw h = Some p \<or> own h = Some p \<longrightarrow> own h = Some p \<and> p \<notin> set (cleared s)) \<and>
    (\<forall>p \<in> set (issued s). (\<forall>h \<in> set (objects s). own h \<noteq> Some p) \<longrightarrow> p \<in> set (cleared s))"

lemma held_safe:
  assumes held: "held shared (\<lambda>_. 0) s"
  shows "owned_safely s"
  unfolding owned_safely_def
proof (intro conjI ballI allI impI)
  have once: "count_list (cleared s) p = (if p \<in> set (issued s) \<and> uses s p = 0 then 1 else 0)" for p
    using held by (simp add: held_def)
  have "count (mset (cleared s)) p = (if p \<in> set (cleared s) then 1 else 0)" for p
    using once [of p] count_list_0_iff [of "cleared s" p] by (auto simp: count_mset split: if_split_asm)
  then show "distinct (cleared s)" by (simp add: distinct_count_atmost_1)
  fix h p
  assume h: "h \<in> set (objects s)" and p: "raw h = Some p \<or> own h = Some p"
  show own: "own h = Some p" using held h p by (force simp: held_def)
  obtain i where "i < length (objects s)" "objects s ! i = h" using h by (auto simp: in_set_conv_nth)
  then have "0 < uses s p" using held_object [OF held] own by blast
  then have "count_list (cleared s) p = 0" using once by simp
  then show "p \<notin> set (cleared s)" by (simp add: count_list_0_iff)
next
  fix p
  assume p: "p \<in> set (issued s)" "\<forall>h \<in> set (objects s). own h \<noteq> Some p"
  then have "owners s p = 0" by (force simp: owners_def count_eq_zero_iff)
  then have "uses s p = 0" using held by (simp add: held_def)
  then have "count_list (cleared s) p \<noteq> 0" using held p(1) by (simp add: held_def)
  then show "p \<in> set (cleared s)" using count_list_0_iff by metis
qed

section \<open>Property\<close>

text \<open>
  Results are freed exactly when nobody has them: whatever objects of a class are made, moved,
  copied, assigned (also to themselves) and destroyed in whatever order, no result is freed twice,
  the raw pointer an object reads through is null or one it owns that is not freed, and a result
  that no object owns any more has been freed.
\<close>

theorem results_freed_once:
  assumes "holder_run shared s"
  shows "distinct (cleared s) \<and>
    (\<forall>h \<in> set (objects s). \<forall>p. raw h = Some p \<or> own h = Some p \<longrightarrow> own h = Some p \<and> p \<notin> set (cleared s)) \<and>
    (\<forall>p \<in> set (issued s). (\<forall>h \<in> set (objects s). own h \<noteq> Some p) \<longrightarrow> p \<in> set (cleared s))"
  using held_safe [OF run_held [OF assms]] unfolding owned_safely_def .

theorem results_freed_once_witness:
  "\<exists>s. holder_run True s \<and> cleared s = [3] \<and> issued s = [3, 4] \<and> own (objects s ! 1) = Some 4 \<and> distinct (cleared s)"
proof -
  let ?s1 = "construct 3 no_holders"
  let ?s2 = "construct 4 ?s1"
  let ?s3 = "copy_assign 0 1 ?s2"
  note unf = construct_def no_holders_def acquire_def copy_assign_def release_def Let_def
  have "holder_run True ?s1"
    by (rule holder_run.more [OF holder_run.start holder_step.makes]) (simp add: unf)
  then have "holder_run True ?s2"
    by (rule holder_run.more [OF _ holder_step.makes]) (simp add: unf)
  then have run: "holder_run True ?s3"
    by (rule holder_run.more [OF _ holder_step.copies_to]) (simp_all add: unf)
  have "cleared ?s3 = [3]" "issued ?s3 = [3, 4]" "own (objects ?s3 ! 1) = Some 4" by (simp_all add: unf)
  then show ?thesis using run results_freed_once [OF run] by blast
qed

end
