(* ===== verification/Db_Notify.thy ===== *)
theory Db_Notify
  imports Db_Ownership Db_Facts Event_Dispatcher
begin

text \<open>
  Notifications of the database (\<open>dbnotify.cc\<close>, \<open>dbnotify.h\<close>) and the way they take: what libpq
  gives to \<open>check_notif\<close> becomes an event that goes to every event stream listening to its channel.

  A \<open>Notify\<close> or \<open>SharedNotify\<close> keeps in its base class the pointer to the notification and a view of
  its payload, and owns the notification by a \<open>unique_ptr\<close> or \<open>shared_ptr\<close>. As in \<open>Db_Ownership\<close> a run
  is over the objects of one class, a pointer is a number, and objects that were destroyed
  stay in the list. The operations refine the ones there.
\<close>

section \<open>The objects\<close>

text \<open>
  \<open>payload_\<close> is the notification whose text the view shows, or \<open>None\<close> for the literal \<open>""\<close>.
\<close>

record NotifyObj =
  pg_notify :: "nat option"
  payload :: "nat option"
  n_ptr :: "nat option"

record Notifies =
  notifies :: "NotifyObj list"
  n_uses :: "nat \<Rightarrow> nat"
  n_freed :: "nat list"
  n_issued :: "nat list"

definition no_notifies :: Notifies where
  "no_notifies = \<lparr>notifies = [], n_uses = (\<lambda>_. 0), n_freed = [], n_issued = []\<rparr>"

text \<open>\<open>NotifyBase\<close>: the constructor, \<open>assign\<close> and \<open>reset\<close>.\<close>

definition notify_base :: "nat \<Rightarrow> NotifyObj" where
  "notify_base p = \<lparr>pg_notify = Some p, payload = Some p, n_ptr = None\<rparr>"

definition notify_assign :: "NotifyObj \<Rightarrow> NotifyObj \<Rightarrow> NotifyObj" where
  "notify_assign b a = a\<lparr>pg_notify := pg_notify b, payload := payload b\<rparr>"

definition notify_reset :: "NotifyObj \<Rightarrow> NotifyObj" where
  "notify_reset a = a\<lparr>pg_notify := None, payload := None\<rparr>"

text \<open>Members before their constructor has run.\<close>

definition blank :: NotifyObj where
  "blank = \<lparr>pg_notify = None, payload = None, n_ptr = None\<rparr>"

text \<open>\<open>PQfreemem\<close> by a \<open>unique_ptr\<close>, or by a \<open>shared_ptr\<close> when the last owner goes.\<close>

definition notify_release :: "bool \<Rightarrow> nat option \<Rightarrow> Notifies \<Rightarrow> Notifies" where
  "notify_release shared ptr s =
     (case ptr of
        None \<Rightarrow> s
      | Some p \<Rightarrow>
          let s' = s\<lparr>n_uses := (n_uses s)(p := n_uses s p - 1)\<rparr> in
          if shared \<and> n_uses s' p \<noteq> 0 then s' else s'\<lparr>n_freed := n_freed s @ [p]\<rparr>)"

definition notify_acquire :: "nat option \<Rightarrow> Notifies \<Rightarrow> Notifies" where
  "notify_acquire ptr s = (case ptr of None \<Rightarrow> s | Some p \<Rightarrow> s\<lparr>n_uses := (n_uses s)(p := n_uses s p + 1)\<rparr>)"

text \<open>The base class is constructed first; then the owner.\<close>

definition notify_construct :: "nat \<Rightarrow> Notifies \<Rightarrow> Notifies" where
  "notify_construct p s =
     notify_acquire (Some p) (s\<lparr>notifies := notifies s @ [(notify_base p)\<lparr>n_ptr := Some p\<rparr>], n_issued := n_issued s @ [p]\<rparr>)"

definition notify_move_construct :: "nat \<Rightarrow> Notifies \<Rightarrow> Notifies" where
  "notify_move_construct i s =
     (let b = notifies s ! i;
          a = notify_assign b blank;
          b' = notify_reset b
      in s\<lparr>notifies := (notifies s)[i := b'\<lparr>n_ptr := None\<rparr>] @ [a\<lparr>n_ptr := n_ptr b\<rparr>]\<rparr>)"

text \<open>
  \<open>assign(b); b.reset(); ptr_ = std::move(b.ptr_)\<close>. When \<open>a\<close> is \<open>b\<close>, the first two leave it reset, and
  a pointer moved to itself is kept.
\<close>

definition notify_move_assign :: "bool \<Rightarrow> nat \<Rightarrow> nat \<Rightarrow> Notifies \<Rightarrow> Notifies" where
  "notify_move_assign shared j i s =
     (let s = s\<lparr>notifies := (notifies s)[j := notify_assign (notifies s ! i) (notifies s ! j)]\<rparr>;
          s = s\<lparr>notifies := (notifies s)[i := notify_reset (notifies s ! i)]\<rparr>;
          a = notifies s ! j; b = notifies s ! i in
      if i = j then s
      else notify_release shared (n_ptr a)
             (s\<lparr>notifies := (notifies s)[j := a\<lparr>n_ptr := n_ptr b\<rparr>, i := b\<lparr>n_ptr := None\<rparr>]\<rparr>))"

definition notify_copy_construct :: "nat \<Rightarrow> Notifies \<Rightarrow> Notifies" where
  "notify_copy_construct i s =
     (let b = notifies s ! i; a = notify_assign b blank
      in notify_acquire (n_ptr b) (s\<lparr>notifies := notifies s @ [a\<lparr>n_ptr := n_ptr b\<rparr>]\<rparr>))"

definition notify_copy_assign :: "nat \<Rightarrow> nat \<Rightarrow> Notifies \<Rightarrow> Notifies" where
  "notify_copy_assign j i s =
     (let a = notifies s ! j; b = notifies s ! i
      in notify_release True (n_ptr a) (notify_acquire (n_ptr b)
           (s\<lparr>notifies := (notifies s)[j := (notify_assign b a)\<lparr>n_ptr := n_ptr b\<rparr>]\<rparr>)))"

definition notify_destroy :: "bool \<Rightarrow> nat \<Rightarrow> Notifies \<Rightarrow> Notifies" where
  "notify_destroy shared i s = notify_release shared (n_ptr (notifies s ! i)) (s\<lparr>notifies := (notifies s)[i := blank]\<rparr>)"

text \<open>
  What is read: \<open>texts\<close> are the channel and the payload of a notification while libpq's memory holds
  it. Reading through null or after \<open>PQfreemem\<close> is undefined.
\<close>

definition notify_channel :: "(nat \<Rightarrow> string \<times> string) \<Rightarrow> nat \<Rightarrow> Notifies \<Rightarrow> string res" where
  "notify_channel texts i s =
     (case pg_notify (notifies s ! i) of
        None \<Rightarrow> Inl Undefined
      | Some p \<Rightarrow> if p \<in> set (n_freed s) then Inl Undefined else Inr (fst (texts p)))"

definition notify_view :: "(nat \<Rightarrow> string \<times> string) \<Rightarrow> nat \<Rightarrow> Notifies \<Rightarrow> string res" where
  "notify_view texts i s =
     (case payload (notifies s ! i) of
        None \<Rightarrow> Inr []
      | Some p \<Rightarrow> if p \<in> set (n_freed s) then Inl Undefined else Inr (snd (texts p)))"

text \<open>\<open>length\<close> reads the view's own member and no memory of libpq.\<close>

definition notify_length :: "(nat \<Rightarrow> string \<times> string) \<Rightarrow> nat \<Rightarrow> Notifies \<Rightarrow> nat" where
  "notify_length texts i s = (case payload (notifies s ! i) of None \<Rightarrow> 0 | Some p \<Rightarrow> length (snd (texts p)))"

inductive notify_step :: "bool \<Rightarrow> Notifies \<Rightarrow> Notifies \<Rightarrow> bool" for shared where
  n_makes: "p \<notin> set (n_issued s) \<Longrightarrow> notify_step shared s (notify_construct p s)"
| n_moves: "i < length (notifies s) \<Longrightarrow> notify_step shared s (notify_move_construct i s)"
| n_moves_to: "i < length (notifies s) \<Longrightarrow> j < length (notifies s) \<Longrightarrow> notify_step shared s (notify_move_assign shared j i s)"
| n_copies: "shared \<Longrightarrow> i < length (notifies s) \<Longrightarrow> notify_step shared s (notify_copy_construct i s)"
| n_copies_to: "shared \<Longrightarrow> i < length (notifies s) \<Longrightarrow> j < length (notifies s) \<Longrightarrow>
    notify_step shared s (notify_copy_assign j i s)"
| n_destroys: "i < length (notifies s) \<Longrightarrow> notify_step shared s (notify_destroy shared i s)"

inductive notify_run :: "bool \<Rightarrow> Notifies \<Rightarrow> bool" for shared where
  start: "notify_run shared no_notifies"
| more: "notify_run shared s \<Longrightarrow> notify_step shared s s' \<Longrightarrow> notify_run shared s'"

section \<open>Refinement\<close>

definition as_holder :: "NotifyObj \<Rightarrow> Holder" where
  "as_holder a = \<lparr>raw = pg_notify a, own = n_ptr a\<rparr>"

definition as_holders :: "Notifies \<Rightarrow> Holders" where
  "as_holders s = \<lparr>objects = map as_holder (notifies s), uses = n_uses s, cleared = n_freed s, issued = n_issued s\<rparr>"

lemmas notify_defs = notify_base_def notify_assign_def notify_reset_def blank_def as_holder_def null_holder_def

lemma as_holders_upd [simp]:
  "objects (as_holders s) = map as_holder (notifies s)" "cleared (as_holders s) = n_freed s"
  "issued (as_holders s) = n_issued s" "uses (as_holders s) = n_uses s"
  "as_holders (s\<lparr>notifies := ns\<rparr>) = (as_holders s)\<lparr>objects := map as_holder ns\<rparr>"
  by (simp_all add: as_holders_def)

lemma as_holders_release [simp]: "as_holders (notify_release shared ptr s) = release shared ptr (as_holders s)"
  by (auto simp: notify_release_def release_def as_holders_def Let_def split: option.split)

lemma as_holders_acquire [simp]: "as_holders (notify_acquire ptr s) = acquire ptr (as_holders s)"
  by (auto simp: notify_acquire_def acquire_def as_holders_def split: option.split)

lemma as_holder_simps [simp]:
  "own (as_holder a) = n_ptr a" "raw (as_holder a) = pg_notify a" "as_holder blank = null_holder"
  by (simp_all add: notify_defs)

text \<open>Every operation is the one on results, seen through \<open>as_holders\<close>.\<close>

lemma refines_construct: "as_holders (notify_construct p s) = construct p (as_holders s)"
proof -
  have "as_holders (notify_construct p s) =
      acquire (Some p) (as_holders (s\<lparr>notifies := notifies s @ [(notify_base p)\<lparr>n_ptr := Some p\<rparr>], n_issued := n_issued s @ [p]\<rparr>))"
    unfolding notify_construct_def by (rule as_holders_acquire)
  then show ?thesis by (simp add: construct_def as_holders_def notify_defs)
qed

lemma refines_move_construct:
  "i < length (notifies s) \<Longrightarrow> as_holders (notify_move_construct i s) = move_construct i (as_holders s)"
  by (simp add: notify_move_construct_def move_construct_def Let_def map_update notify_defs)

lemma refines_move_assign:
  assumes "i < length (notifies s)" and "j < length (notifies s)"
  shows "as_holders (notify_move_assign shared j i s) = move_assign shared j i (as_holders s)"
proof (cases "i = j")
  case True
  then show ?thesis using assms
    by (simp add: notify_move_assign_def move_assign_def Let_def map_update notify_defs)
next
  case False
  then have "as_holder ((notify_assign (notifies s ! i) (notifies s ! j))\<lparr>n_ptr := n_ptr (notifies s ! i)\<rparr>) = as_holder (notifies s ! i)"
    "as_holder ((notify_reset (notifies s ! i))\<lparr>n_ptr := None\<rparr>) = null_holder"
    by (simp_all add: notify_defs)
  moreover have "n_ptr (notify_assign (notifies s ! i) (notifies s ! j)) = n_ptr (notifies s ! j)"
    "n_ptr (notify_reset (notifies s ! i)) = n_ptr (notifies s ! i)"
    by (simp_all add: notify_defs)
  ultimately show ?thesis using assms False
    by (simp add: notify_move_assign_def move_assign_def Let_def map_update list_update_swap)
qed

lemma refines_copy_construct:
  "i < length (notifies s) \<Longrightarrow> as_holders (notify_copy_construct i s) = copy_construct i (as_holders s)"
  by (simp add: notify_copy_construct_def copy_construct_def Let_def notify_defs)

lemma refines_copy_assign:
  "i < length (notifies s) \<Longrightarrow> j < length (notifies s) \<Longrightarrow>
   as_holders (notify_copy_assign j i s) = copy_assign j i (as_holders s)"
  by (simp add: notify_copy_assign_def copy_assign_def Let_def map_update notify_defs acquire_objects)

lemma refines_destroy:
  "i < length (notifies s) \<Longrightarrow> as_holders (notify_destroy shared i s) = destroy shared i (as_holders s)"
  by (simp add: notify_destroy_def destroy_def map_update)

lemmas notify_refines = refines_construct refines_move_construct refines_move_assign refines_copy_construct
  refines_copy_assign refines_destroy

lemma notify_step_holder: "notify_step shared s s' \<Longrightarrow> holder_step shared (as_holders s) (as_holders s')"
  by (induction rule: notify_step.induct) (auto simp: notify_refines intro!: holder_step.intros)

lemma notify_run_holder: "notify_run shared s \<Longrightarrow> holder_run shared (as_holders s)"
proof (induction rule: notify_run.induct)
  case start
  have "as_holders no_notifies = no_holders" by (simp add: as_holders_def no_notifies_def no_holders_def)
  then show ?case using holder_run.start by simp
next
  case (more s s')
  then show ?case using holder_run.more notify_step_holder by blast
qed

text \<open>The view shows the notification the pointer is to.\<close>

definition view_ok :: "NotifyObj \<Rightarrow> bool" where
  "view_ok a \<longleftrightarrow> payload a = pg_notify a"

definition views_match :: "Notifies \<Rightarrow> bool" where
  "views_match s \<longleftrightarrow> (\<forall>a \<in> set (notifies s). view_ok a)"

lemma view_ok_simps [simp]:
  "view_ok (a\<lparr>n_ptr := q\<rparr>) = view_ok a" "view_ok (notify_assign b a) = view_ok b" "view_ok (notify_reset a)"
  "view_ok (notify_base p)" "view_ok blank"
  by (simp_all add: view_ok_def notify_defs)

lemma notifies_counted [simp]:
  "notifies (notify_release shared ptr s) = notifies s" "notifies (notify_acquire ptr s) = notifies s"
  by (simp_all add: notify_release_def notify_acquire_def Let_def split: option.split)

lemma match_update: "\<forall>a \<in> set ns. view_ok a \<Longrightarrow> view_ok x \<Longrightarrow> \<forall>a \<in> set (ns[i := x]). view_ok a"
  using set_update_subset_insert by fast

lemma notify_step_views: "notify_step shared s s' \<Longrightarrow> views_match s \<Longrightarrow> views_match s'"
proof (induction rule: notify_step.induct)
  case (n_moves_to i s j)
  let ?n1 = "(notifies s)[j := notify_assign (notifies s ! i) (notifies s ! j)]"
  let ?n2 = "?n1[i := notify_reset (?n1 ! i)]"
  have "view_ok (notifies s ! i)" using n_moves_to by (simp add: views_match_def)
  then have n1: "\<forall>a \<in> set ?n1. view_ok a" using n_moves_to(3) by (intro match_update) (simp_all add: views_match_def)
  have n2: "\<forall>a \<in> set ?n2. view_ok a" by (rule match_update [OF n1]) simp
  then have ok: "view_ok (?n2 ! j)" "view_ok (?n2 ! i)" using n_moves_to(1,2) by simp_all
  have "\<forall>a \<in> set (?n2[j := (?n2 ! j)\<lparr>n_ptr := n_ptr (?n2 ! i)\<rparr>]). view_ok a"
    by (rule match_update [OF n2]) (simp only: ok view_ok_simps)
  then have "\<forall>a \<in> set (?n2[j := (?n2 ! j)\<lparr>n_ptr := n_ptr (?n2 ! i)\<rparr>, i := (?n2 ! i)\<lparr>n_ptr := None\<rparr>]). view_ok a"
    by (rule match_update) (simp only: ok view_ok_simps)
  then show ?case using n2 by (simp add: views_match_def notify_move_assign_def Let_def)
qed (auto simp: views_match_def notify_construct_def notify_move_construct_def notify_copy_construct_def
    notify_copy_assign_def notify_destroy_def Let_def dest!: subsetD [OF set_update_subset_insert])

lemma notify_run_views: "notify_run shared s \<Longrightarrow> views_match s"
proof (induction rule: notify_run.induct)
  case (more s s')
  then show ?case using notify_step_views by blast
qed (simp add: views_match_def no_notifies_def)

section \<open>From the database to the event streams\<close>

text \<open>
  \<open>EventDispatcher::dispatch\<close> for each event in turn; the streams nghttp2 is told to resume come out
  in order.
\<close>

fun dispatch_all :: "Event list \<Rightarrow> Dispatcher \<Rightarrow> (nat list \<times> Dispatcher) res" where
  "dispatch_all [] d = Inr ([], d)"
| "dispatch_all (ev # evs) d =
     bindE (publish ev (registry_of d) (live d)) (\<lambda>(rs, objs).
       bindE (dispatch_all evs (d\<lparr>live := objs\<rparr>)) (\<lambda>(rs', d). Inr (rs @ rs', d)))"

definition notif_event :: "string \<times> string \<Rightarrow> Event" where
  "notif_event n = new_event (fst n) (snd n)"

text \<open>What a stream is sent of a list of events: each once per subscription.\<close>

definition share :: "Dispatcher \<Rightarrow> nat \<Rightarrow> Event list \<Rightarrow> Event list" where
  "share d i evs = concat (map (\<lambda>ev. replicate (count_list (subscribers (registry_of d) (ev_channel ev)) i) ev) evs)"

lemma share_Cons: "share d i (ev # evs) =
    replicate (count_list (subscribers (registry_of d) (ev_channel ev)) i) ev @ share d i evs"
  by (simp add: share_def)

lemma dispatch_all_spec:
  "no_dangling d \<Longrightarrow> \<exists>rs d'. dispatch_all evs d = Inr (rs, d') \<and> registry_of d' = registry_of d \<and>
     dom (live d') = dom (live d) \<and>
     (\<forall>i es. live d i = Some es \<longrightarrow> (\<exists>es'. live d' i = Some es' \<and> es_queue es' = es_queue es @ share d i evs)) \<and>
     distinct rs \<and> set rs = {i. share d i evs \<noteq> [] \<and> (\<exists>es. live d i = Some es \<and> es_paused es)}"
proof (induction evs arbitrary: d)
  case Nil
  then show ?case by (simp add: share_def)
next
  case (Cons ev evs)
  let ?S = "subscribers (registry_of d) (ev_channel ev)"
  have "set ?S \<subseteq> dom (live d)" using Cons.prems by (simp add: no_dangling_def)
  from publish_spec [OF this] obtain rs objs where p:
    "publish ev (registry_of d) (live d) = Inr (rs, objs)" "dom objs = dom (live d)"
    "\<And>i es. live d i = Some es \<Longrightarrow> \<exists>es'. objs i = Some es' \<and> es_queue es' = es_queue es @ replicate (count_list ?S i) ev \<and>
       es_paused es' = (es_paused es \<and> i \<notin> set ?S)"
    "distinct rs" "set rs = {i \<in> set ?S. \<exists>es. live d i = Some es \<and> es_paused es}" by blast
  let ?d = "d\<lparr>live := objs\<rparr>"
  have sh: "share ?d = share d" by (simp add: share_def fun_eq_iff)
  have "no_dangling ?d" using Cons.prems p(2) by (simp add: no_dangling_def)
  from Cons.IH [OF this] obtain rs' d' where IH: "dispatch_all evs ?d = Inr (rs', d')" "registry_of d' = registry_of d"
    "dom (live d') = dom objs"
    "\<And>i es. objs i = Some es \<Longrightarrow> \<exists>es'. live d' i = Some es' \<and> es_queue es' = es_queue es @ share d i evs"
    "distinct rs'" "set rs' = {i. share d i evs \<noteq> [] \<and> (\<exists>es. objs i = Some es \<and> es_paused es)}"
    unfolding sh by auto
  have queue: "\<exists>es'. live d' i = Some es' \<and> es_queue es' = es_queue es @ share d i (ev # evs)"
    if "live d i = Some es" for i es
    using p(3) [OF that] IH(4) [of i] by (auto simp: share_Cons)
  have awake: "(\<exists>es. objs i = Some es \<and> es_paused es) \<longleftrightarrow> i \<notin> set ?S \<and> (\<exists>es. live d i = Some es \<and> es_paused es)" for i
  proof (cases "live d i")
    case None
    then have "objs i = None" using p(2) by (metis domIff)
    then show ?thesis using None by simp
  next
    case (Some es)
    then show ?thesis using p(3) [OF Some] by auto
  qed
  have "count_list ?S i \<noteq> 0 \<longleftrightarrow> i \<in> set ?S" for i by (simp add: count_list_0_iff)
  then have "set (rs @ rs') = {i. share d i (ev # evs) \<noteq> [] \<and> (\<exists>es. live d i = Some es \<and> es_paused es)}"
    using p(5) IH(6) awake by (auto simp: share_Cons)
  moreover have "distinct (rs @ rs')" using p(4,5) IH(5,6) awake by auto
  moreover have "dispatch_all (ev # evs) d = Inr (rs @ rs', d')" using p(1) IH(1) by simp
  ultimately show ?case using IH(2,3) p(2) queue by (intro exI [of _ "rs @ rs'"] exI [of _ d']) simp
qed

section \<open>Properties\<close>

text \<open>
  C20. The text of a notification is there as long as it can be read: whatever objects of a class are
  made, moved, copied, assigned and destroyed in whatever order, the view of a payload is never
  one into memory that was freed; an object that was not moved from shows the channel and the
  payload of its notification, one that was shows an empty text; and each notification is freed
  once, when no object has it any more.
\<close>

theorem notification_text_lives:
  assumes "notify_run shared s"
  shows "(\<forall>i < length (notifies s).
      case pg_notify (notifies s ! i) of
        None \<Rightarrow> notify_view texts i s = Inr [] \<and> notify_length texts i s = 0
      | Some p \<Rightarrow> notify_view texts i s = Inr (snd (texts p)) \<and> notify_channel texts i s = Inr (fst (texts p)) \<and>
          notify_length texts i s = length (snd (texts p))) \<and>
    distinct (n_freed s) \<and>
    (\<forall>p \<in> set (n_issued s). p \<in> set (n_freed s) \<longleftrightarrow> (\<forall>a \<in> set (notifies s). n_ptr a \<noteq> Some p))"
proof -
  have safe: "owned_safely (as_holders s)" by (rule held_safe [OF run_held [OF notify_run_holder [OF assms]]])
  have fresh: "p \<notin> set (n_freed s)" if "a \<in> set (notifies s)" "pg_notify a = Some p \<or> n_ptr a = Some p" for a p
    using safe that by (auto simp: owned_safely_def)
  have gone: "p \<in> set (n_freed s)" if "p \<in> set (n_issued s)" "\<forall>a \<in> set (notifies s). n_ptr a \<noteq> Some p" for p
    using safe that by (simp add: owned_safely_def)
  have dist: "distinct (n_freed s)" using safe by (simp add: owned_safely_def)
  have view: "payload (notifies s ! i) = pg_notify (notifies s ! i)" if "i < length (notifies s)" for i
    using notify_run_views [OF assms] that by (simp add: views_match_def view_ok_def)
  have shown: "case pg_notify (notifies s ! i) of
        None \<Rightarrow> notify_view texts i s = Inr [] \<and> notify_length texts i s = 0
      | Some p \<Rightarrow> notify_view texts i s = Inr (snd (texts p)) \<and> notify_channel texts i s = Inr (fst (texts p)) \<and>
          notify_length texts i s = length (snd (texts p))" if "i < length (notifies s)" for i
    using view [OF that] fresh [OF nth_mem [OF that]]
    by (auto simp: notify_view_def notify_channel_def notify_length_def split: option.splits)
  show ?thesis using shown dist gone fresh by blast
qed

theorem notification_text_lives_witness:
  "\<exists>s. notify_run True s \<and> notify_view (\<lambda>_. (''jobs'', ''done'')) 1 s = Inr ''done'' \<and>
     notify_view (\<lambda>_. (''jobs'', ''done'')) 0 s = Inr [] \<and> n_freed s = []"
proof -
  let ?s1 = "notify_construct 7 no_notifies"
  let ?s2 = "notify_move_construct 0 ?s1"
  note unf = notify_construct_def notify_acquire_def no_notifies_def notify_move_construct_def Let_def notify_defs
  have "notify_run True ?s1"
    by (rule notify_run.more [OF notify_run.start notify_step.n_makes]) (simp add: no_notifies_def)
  then have run: "notify_run True ?s2"
    by (rule notify_run.more [OF _ notify_step.n_moves]) (simp add: unf)
  have "pg_notify (notifies ?s2 ! 1) = Some 7" "pg_notify (notifies ?s2 ! 0) = None" "n_freed ?s2 = []"
    "0 < length (notifies ?s2)" "1 < length (notifies ?s2)"
    by (simp_all add: unf)
  moreover have "case pg_notify (notifies ?s2 ! i) of
        None \<Rightarrow> notify_view (\<lambda>_. (''jobs'', ''done'')) i ?s2 = Inr []
      | Some p \<Rightarrow> notify_view (\<lambda>_. (''jobs'', ''done'')) i ?s2 = Inr ''done''"
    if "i < length (notifies ?s2)" for i
    using notification_text_lives [OF run, of "\<lambda>_. (''jobs'', ''done'')"] that by (force split: option.splits)
  ultimately show ?thesis using run by (intro exI [of _ ?s2]) fastforce
qed

text \<open>
  C15. A notification of the database reaches its listeners: whatever event streams came, subscribed
  and went before, the notifications libpq has at a \<open>check_notif\<close> are published without following a
  dangling pointer; every event stream is queued, behind what it had, the notifications of the
  channels it listens to, in the order they came, once per subscription; and the streams resumed
  are those that were paused and got something, each once.
\<close>

theorem notifications_reach_subscribers:
  assumes "dispatcher_run d" and "published (check_notif notifs s) = published s @ evs"
  shows "\<exists>rs d'. dispatch_all evs d = Inr (rs, d') \<and> dom (live d') = dom (live d) \<and>
    (\<forall>i es. live d i = Some es \<longrightarrow> (\<exists>es'. live d' i = Some es' \<and>
       es_queue es' = es_queue es @ concat (map (\<lambda>n.
         replicate (count_list (subscribers (registry_of d) (fst n)) i) (notif_event n)) notifs))) \<and>
    distinct rs \<and> set rs = {i. (\<exists>n \<in> set notifs. i \<in> set (subscribers (registry_of d) (fst n))) \<and>
      (\<exists>es. live d i = Some es \<and> es_paused es)}"
proof -
  have "notif_event = (\<lambda>n. new_event (fst n) (snd n))" by (simp add: fun_eq_iff notif_event_def)
  then have evs: "evs = map notif_event notifs"
    using assms(2) by (simp add: check_notif_def case_prod_unfold)
  have ch: "ev_channel (notif_event n) = fst n" for n by (simp add: notif_event_def new_event_def)
  have sh: "share d i evs =
      concat (map (\<lambda>n. replicate (count_list (subscribers (registry_of d) (fst n)) i) (notif_event n)) notifs)" for i
    by (simp add: share_def evs comp_def ch)
  have some: "share d i evs \<noteq> [] \<longleftrightarrow> (\<exists>n \<in> set notifs. i \<in> set (subscribers (registry_of d) (fst n)))" for i
    unfolding sh by (auto simp: count_list_0_iff)
  obtain rs d' where d': "dispatch_all evs d = Inr (rs, d')" "dom (live d') = dom (live d)"
    "\<forall>i es. live d i = Some es \<longrightarrow> (\<exists>es'. live d' i = Some es' \<and> es_queue es' = es_queue es @ share d i evs)"
    "distinct rs" "set rs = {i. share d i evs \<noteq> [] \<and> (\<exists>es. live d i = Some es \<and> es_paused es)}"
    using dispatch_all_spec [OF run_no_dangling [OF assms(1)], of evs] by blast
  show ?thesis using d' unfolding some unfolding sh by blast
qed

theorem notifications_reach_subscribers_witness:
  "\<exists>d d' es. dispatcher_run d \<and> dispatch_all (map notif_event [(''jobs'', ''1''), (''logs'', ''2''), (''jobs'', ''3'')]) d = Inr ([], d') \<and>
     live d' 0 = Some es \<and> es_queue es = [notif_event (''jobs'', ''1''), notif_event (''jobs'', ''3'')]"
proof -
  let ?n = "[(''jobs'', ''1''), (''logs'', ''2''), (''jobs'', ''3'')]"
  let ?start = "new_dispatcher\<lparr>live := [0 \<mapsto> new_event_stream]\<rparr>"
  let ?d = "\<lparr>registry_of = suscribe ''jobs'' 0 Map.empty, live = [0 \<mapsto> new_event_stream]\<rparr>"
  have "dispatcher_step new_dispatcher ?start" "dispatcher_step ?start ?d"
    using dispatcher_step.made [of new_dispatcher 0 ] dispatcher_step.listens [of 0 ?start "''jobs''"]
    by (simp_all add: new_dispatcher_def)
  then have run: "dispatcher_run ?d" using dispatcher_run.start dispatcher_run.more by blast
  have "published (check_notif ?n connected_session) = published connected_session @ map notif_event ?n"
    by (simp add: check_notif_def notif_event_def)
  from notifications_reach_subscribers [OF run this] obtain rs d' where d':
    "dispatch_all (map notif_event ?n) ?d = Inr (rs, d')"
    "\<forall>i es. live ?d i = Some es \<longrightarrow> (\<exists>es'. live d' i = Some es' \<and>
       es_queue es' = es_queue es @ concat (map (\<lambda>n.
         replicate (count_list (subscribers (registry_of ?d) (fst n)) i) (notif_event n)) ?n))"
    "set rs = {i. (\<exists>n \<in> set ?n. i \<in> set (subscribers (registry_of ?d) (fst n))) \<and>
      (\<exists>es. live ?d i = Some es \<and> es_paused es)}"
    by blast
  have subs: "subscribers (registry_of ?d) ''jobs'' = [0]" "subscribers (registry_of ?d) ''logs'' = []"
    by (simp_all add: subscribers_def suscribe_def map_filter_single)
  have count: "count_list (subscribers (registry_of ?d) ''jobs'') 0 = Suc 0"
    "count_list (subscribers (registry_of ?d) ''logs'') 0 = 0"
    unfolding subs by simp_all
  have "live ?d 0 = Some new_event_stream" by simp
  from mp [OF spec [OF spec [OF d'(2)]] this] obtain es where es: "live d' 0 = Some es"
    "es_queue es = es_queue new_event_stream @ concat (map (\<lambda>n.
         replicate (count_list (subscribers (registry_of ?d) (fst n)) 0) (notif_event n)) ?n)" by (elim exE conjE)
  have "es_queue es = [notif_event (''jobs'', ''1''), notif_event (''jobs'', ''3'')]"
    unfolding es(2) list.map concat.simps fst_conv count replicate.simps by (simp add: new_event_stream_def)
  moreover have "\<not> es_paused es" if "live ?d i = Some es" for i es
    using that by (auto simp: new_event_stream_def split: if_split_asm)
  then have "set rs = {}" unfolding d'(3) by blast
  then have rs: "rs = []" by simp
  ultimately show ?thesis using run d'(1) [unfolded rs] es(1)
    by (intro exI [of _ ?d] exI [of _ d'] exI [of _ es] conjI)
qed

end
