(* ===== verification/Db_Strings.thy ===== *)
theory Db_Strings
  imports Db_Ownership
begin

text \<open>
  The strings of a database result (\<open>ResultString\<close> and \<open>SharedResultString\<close> of \<open>dbresult.cc\<close>): a
  view into a \<open>PGresult\<close> beside the object that owns it. They are the objects of \<open>Db_Ownership\<close>,
  some of which are the member \<open>result_\<close> of such a string.
\<close>

section \<open>Objects and operations\<close>

text \<open>
  A string is the number of its member \<open>result_\<close> and the result its member \<open>content_\<close> looks into,
  which is \<open>None\<close> when the string is gone.
\<close>

record ResultString =
  inner :: nat
  content :: "nat option"

record ResultStrings =
  holders :: Holders
  strings :: "ResultString list"

definition no_strings :: ResultStrings where
  "no_strings = \<lparr>holders = no_holders, strings = []\<rparr>"

text \<open>\<open>result_.value_at(0, 0)\<close>: there is no view to take without a result.\<close>

definition view_first :: "nat \<Rightarrow> Holders \<Rightarrow> nat res" where
  "view_first k t = (case raw (objects t ! k) of None \<Rightarrow> Inl Undefined | Some p \<Rightarrow> Inr p)"

text \<open>
  Construction from a result: \<open>ResultString\<close> takes it over, \<open>SharedResultString\<close> copies it. So it is
  for construction from, and assignment of, another string.
\<close>

definition take_result :: "bool \<Rightarrow> nat \<Rightarrow> Holders \<Rightarrow> Holders" where
  "take_result shared i t = (if shared then copy_construct i t else move_construct i t)"

definition assign_result_to :: "bool \<Rightarrow> nat \<Rightarrow> nat \<Rightarrow> Holders \<Rightarrow> Holders" where
  "assign_result_to shared k i t = (if shared then copy_assign k i t else move_assign shared k i t)"

definition string_from_result :: "bool \<Rightarrow> nat \<Rightarrow> ResultStrings \<Rightarrow> ResultStrings res" where
  "string_from_result shared i s =
     (let t = take_result shared i (holders s); k = length (objects (holders s)) in
      bindE (view_first k t) (\<lambda>p. Inr \<lparr>holders = t, strings = strings s @ [\<lparr>inner = k, content = Some p\<rparr>]\<rparr>))"

definition string_assign_result :: "bool \<Rightarrow> nat \<Rightarrow> nat \<Rightarrow> ResultStrings \<Rightarrow> ResultStrings res" where
  "string_assign_result shared j i s =
     (let k = inner (strings s ! j); t = assign_result_to shared k i (holders s) in
      bindE (view_first k t) (\<lambda>p. Inr \<lparr>holders = t, strings = (strings s)[j := \<lparr>inner = k, content = Some p\<rparr>]\<rparr>))"

definition string_from_string :: "bool \<Rightarrow> nat \<Rightarrow> ResultStrings \<Rightarrow> ResultStrings" where
  "string_from_string shared i s =
     (let b = strings s ! i in
      \<lparr>holders = take_result shared (inner b) (holders s),
       strings = strings s @ [\<lparr>inner = length (objects (holders s)), content = content b\<rparr>]\<rparr>)"

definition string_assign_string :: "bool \<Rightarrow> nat \<Rightarrow> nat \<Rightarrow> ResultStrings \<Rightarrow> ResultStrings" where
  "string_assign_string shared j i s =
     (let a = strings s ! j; b = strings s ! i in
      \<lparr>holders = assign_result_to shared (inner a) (inner b) (holders s),
       strings = (strings s)[j := a\<lparr>content := content b\<rparr>]\<rparr>)"

definition destroy_string :: "bool \<Rightarrow> nat \<Rightarrow> ResultStrings \<Rightarrow> ResultStrings" where
  "destroy_string shared j s =
     (let a = strings s ! j in
      \<lparr>holders = destroy shared (inner a) (holders s), strings = (strings s)[j := a\<lparr>content := None\<rparr>]\<rparr>)"

text \<open>
  What a program can do: anything with its own results (\<open>own_results\<close>), as long as that leaves the
  members of the strings alone, which are private; and the operations of the strings.
\<close>

definition inside :: "ResultStrings \<Rightarrow> nat set" where
  "inside s = inner ` set (strings s)"

inductive string_step :: "bool \<Rightarrow> ResultStrings \<Rightarrow> ResultStrings \<Rightarrow> bool" for shared where
  own_results: "holder_step shared (holders s) t \<Longrightarrow> \<forall>k \<in> inside s. objects t ! k = objects (holders s) ! k \<Longrightarrow>
    string_step shared s (s\<lparr>holders := t\<rparr>)"
| from_result: "i < length (objects (holders s)) \<Longrightarrow> i \<notin> inside s \<Longrightarrow> string_from_result shared i s = Inr s' \<Longrightarrow>
    string_step shared s s'"
| assign_result: "i < length (objects (holders s)) \<Longrightarrow> i \<notin> inside s \<Longrightarrow> j < length (strings s) \<Longrightarrow>
    string_assign_result shared j i s = Inr s' \<Longrightarrow> string_step shared s s'"
| from_string: "i < length (strings s) \<Longrightarrow> string_step shared s (string_from_string shared i s)"
| assign_string: "i < length (strings s) \<Longrightarrow> j < length (strings s) \<Longrightarrow>
    string_step shared s (string_assign_string shared j i s)"
| destroy_one: "j < length (strings s) \<Longrightarrow> string_step shared s (destroy_string shared j s)"

inductive string_run :: "bool \<Rightarrow> ResultStrings \<Rightarrow> bool" for shared where
  start: "string_run shared no_strings"
| more: "string_run shared s \<Longrightarrow> string_step shared s s' \<Longrightarrow> string_run shared s'"

section \<open>The invariant\<close>

text \<open>
  Each string has a member of its own, which owns what the string looks into; a \<open>ResultString\<close> that
  was moved from owns nothing and still looks.
\<close>

definition looks :: "bool \<Rightarrow> Holders \<Rightarrow> ResultString \<Rightarrow> bool" where
  "looks shared t v \<longleftrightarrow> inner v < length (objects t) \<and>
     (content v = None \<or> own (objects t ! inner v) = content v \<or> \<not> shared \<and> own (objects t ! inner v) = None)"

definition strings_ok :: "bool \<Rightarrow> ResultStrings \<Rightarrow> bool" where
  "strings_ok shared s \<longleftrightarrow> held shared (\<lambda>_. 0) (holders s) \<and> distinct (map inner (strings s)) \<and>
     (\<forall>v \<in> set (strings s). looks shared (holders s) v)"

lemma objects_release [simp]: "objects (release shared ptr t) = objects t"
  by (simp add: release_def Let_def split: option.split)

lemma objects_take:
  "objects (take_result shared i t) =
    (if shared then objects t else (objects t)[i := null_holder]) @ [objects t ! i]"
  by (simp add: take_result_def copy_construct_def move_construct_def)

lemma objects_assign:
  "objects (assign_result_to shared k i t) =
    (if shared then (objects t)[k := objects t ! i]
     else if i = k then (objects t)[k := (objects t ! k)\<lparr>raw := None\<rparr>]
     else (objects t)[k := objects t ! i, i := null_holder])"
  by (simp add: assign_result_to_def copy_assign_def move_assign_def Let_def)

lemma objects_destroy [simp]: "objects (destroy shared i t) = (objects t)[i := null_holder]"
  by (simp add: destroy_def)

lemma null_holder_simps [simp]: "raw null_holder = None" "own null_holder = None"
  by (simp_all add: null_holder_def)

lemma robbed: "k < length xs \<Longrightarrow> own (xs[i := null_holder] ! k) = (if i = k then None else own (xs ! k))"
  by simp

lemma take_step: "i < length (objects t) \<Longrightarrow> holder_step shared t (take_result shared i t)"
  by (auto simp: take_result_def intro: holder_step.intros)

lemma assign_step:
  "i < length (objects t) \<Longrightarrow> k < length (objects t) \<Longrightarrow> holder_step shared t (assign_result_to shared k i t)"
  by (auto simp: assign_result_to_def intro: holder_step.copies_to holder_step.moves_to [of i t k False])

lemma step_grows: "holder_step shared t t' \<Longrightarrow> length (objects t) \<le> length (objects t')"
  by (induction rule: holder_step.induct)
    (auto simp: construct_def construct_null_def move_construct_def move_assign_def copy_construct_def
      copy_assign_def Let_def)

lemma held_take:
  "held shared (\<lambda>_. 0) t \<Longrightarrow> i < length (objects t) \<Longrightarrow> held shared (\<lambda>_. 0) (take_result shared i t)"
  using step_held take_step by blast

lemma held_assign:
  "held shared (\<lambda>_. 0) t \<Longrightarrow> i < length (objects t) \<Longrightarrow> k < length (objects t) \<Longrightarrow>
   held shared (\<lambda>_. 0) (assign_result_to shared k i t)"
  using step_held assign_step by blast

lemma held_destroy: "held shared (\<lambda>_. 0) t \<Longrightarrow> i < length (objects t) \<Longrightarrow> held shared (\<lambda>_. 0) (destroy shared i t)"
  using step_held holder_step.destroys by blast

text \<open>A view is taken of what the object owns.\<close>

lemma view_first_owned:
  assumes "view_first k t = Inr p" and "held shared (\<lambda>_. 0) t" and "k < length (objects t)"
  shows "own (objects t ! k) = Some p"
  using assms held_raw [OF assms(2,3)] by (simp add: view_first_def split: option.splits)

lemma looksI:
  "inner v < length (objects t) \<Longrightarrow> content v = None \<or> own (objects t ! inner v) = content v \<or>
     \<not> shared \<and> own (objects t ! inner v) = None \<Longrightarrow> looks shared t v"
  by (simp add: looks_def)

lemma strings_okD:
  assumes "strings_ok shared s" and "j < length (strings s)"
  shows "held shared (\<lambda>_. 0) (holders s)" "inner (strings s ! j) < length (objects (holders s))"
    "looks shared (holders s) (strings s ! j)"
  using assms by (auto simp: strings_ok_def looks_def)

text \<open>
  An operation on one string, at \<open>j\<close>, keeps the invariant when the members of the others stay or
  lose what they own, as an object moved from does.
\<close>

lemma strings_ok_update:
  assumes "strings_ok shared s" and "j < length (strings s)" and "held shared (\<lambda>_. 0) t"
    and "length (objects t) = length (objects (holders s))"
    and "inner v = inner (strings s ! j)" and "looks shared t v"
    and "\<And>k. k \<in> inside s \<Longrightarrow> k \<noteq> inner v \<Longrightarrow>
      own (objects t ! k) = own (objects (holders s) ! k) \<or> \<not> shared \<and> own (objects t ! k) = None"
  shows "strings_ok shared \<lparr>holders = t, strings = (strings s)[j := v]\<rparr>"
proof -
  have members: "map inner ((strings s)[j := v]) = map inner (strings s)"
    using assms(2,5) list_update_id [of "map inner (strings s)" j] by (simp add: map_update)
  have "looks shared t w" if w: "w \<in> set ((strings s)[j := v])" for w
  proof -
    obtain i where i: "i < length (strings s)" "w = (strings s)[j := v] ! i" using w by (auto simp: in_set_conv_nth)
    show ?thesis
    proof (cases "i = j")
      case False
      then have w: "w = strings s ! i" "w \<in> set (strings s)" using i by auto
      have "inner w \<noteq> inner v"
        using assms(1,2,5) i(1) False w(1) by (auto simp: strings_ok_def distinct_conv_nth)
      moreover have "looks shared (holders s) w" using assms(1) w(2) by (simp add: strings_ok_def)
      ultimately show ?thesis using assms(4) assms(7) [of "inner w"] w(2) by (auto simp: looks_def inside_def)
    qed (use assms(2,6) i in simp)
  qed
  then show ?thesis using assms(1,3) members by (simp add: strings_ok_def)
qed

lemma strings_ok_append:
  assumes "strings_ok shared s" and "held shared (\<lambda>_. 0) t" and "inner v = length (objects (holders s))"
    and "length (objects t) = Suc (length (objects (holders s)))" and "looks shared t v"
    and "\<And>k. k \<in> inside s \<Longrightarrow>
      own (objects t ! k) = own (objects (holders s) ! k) \<or> \<not> shared \<and> own (objects t ! k) = None"
  shows "strings_ok shared \<lparr>holders = t, strings = strings s @ [v]\<rparr>"
proof -
  have "inner w < length (objects (holders s))" if "w \<in> set (strings s)" for w
    using assms(1) that by (simp add: strings_ok_def looks_def)
  moreover have "looks shared t w" if "w \<in> set (strings s)" for w
    using assms(1,4) assms(6) [of "inner w"] that by (auto simp: strings_ok_def looks_def inside_def)
  ultimately show ?thesis using assms(1,2,3,5) by (force simp: strings_ok_def)
qed

lemma ok_from_result:
  assumes "strings_ok shared s" and "i < length (objects (holders s))" and "i \<notin> inside s"
    and "string_from_result shared i s = Inr s'"
  shows "strings_ok shared s'"
proof -
  let ?t = "take_result shared i (holders s)" and ?k = "length (objects (holders s))"
  have held: "held shared (\<lambda>_. 0) ?t" using assms(1,2) by (auto simp: strings_ok_def intro: held_take)
  obtain p where p: "view_first ?k ?t = Inr p"
    and s': "s' = \<lparr>holders = ?t, strings = strings s @ [\<lparr>inner = ?k, content = Some p\<rparr>]\<rparr>"
    using assms(4) by (auto simp: string_from_result_def Let_def bindE_Inr)
  have "own (objects ?t ! ?k) = Some p" by (rule view_first_owned [OF p held]) (simp add: objects_take)
  then have "looks shared ?t \<lparr>inner = ?k, content = Some p\<rparr>" by (simp add: looks_def objects_take)
  moreover have "own (objects ?t ! k) = own (objects (holders s) ! k)" if "k \<in> inside s" for k
  proof -
    have "k < ?k" "k \<noteq> i" using assms(1,3) that by (auto simp: strings_ok_def inside_def looks_def)
    then show ?thesis by (simp add: objects_take nth_append)
  qed
  ultimately show ?thesis unfolding s' using assms(1) held
    by (intro strings_ok_append) (auto simp: objects_take)
qed

lemma ok_assign_result:
  assumes "strings_ok shared s" and "i < length (objects (holders s))" and "i \<notin> inside s"
    and "j < length (strings s)" and "string_assign_result shared j i s = Inr s'"
  shows "strings_ok shared s'"
proof -
  let ?k = "inner (strings s ! j)"
  let ?t = "assign_result_to shared ?k i (holders s)"
  note j = strings_okD [OF assms(1,4)]
  have "i \<noteq> ?k" using assms(3,4) by (auto simp: inside_def)
  then have objs: "objects ?t = (if shared then (objects (holders s))[?k := objects (holders s) ! i]
      else (objects (holders s))[?k := objects (holders s) ! i, i := null_holder])" by (simp add: objects_assign)
  have held: "held shared (\<lambda>_. 0) ?t" using j(1,2) assms(2) by (simp add: held_assign)
  obtain p where p: "view_first ?k ?t = Inr p"
    and s': "s' = \<lparr>holders = ?t, strings = (strings s)[j := \<lparr>inner = ?k, content = Some p\<rparr>]\<rparr>"
    using assms(5) by (auto simp: string_assign_result_def Let_def bindE_Inr)
  have "own (objects ?t ! ?k) = Some p" by (rule view_first_owned [OF p held]) (use j(2) in \<open>simp add: objs\<close>)
  then have "looks shared ?t \<lparr>inner = ?k, content = Some p\<rparr>" using j(2) by (simp add: looks_def objs)
  moreover have "own (objects ?t ! k) = own (objects (holders s) ! k)" if "k \<in> inside s" "k \<noteq> ?k" for k
    using assms(3) that by (cases "k = i") (auto simp: objs)
  ultimately show ?thesis unfolding s' using assms(1,4) held
    by (intro strings_ok_update) (auto simp: objs)
qed

lemma ok_from_string:
  assumes "strings_ok shared s" and "i < length (strings s)"
  shows "strings_ok shared (string_from_string shared i s)"
proof -
  let ?b = "strings s ! i" and ?k = "length (objects (holders s))"
  let ?t = "take_result shared (inner ?b) (holders s)" and ?v = "\<lparr>inner = ?k, content = content ?b\<rparr>"
  note i = strings_okD [OF assms]
  have held: "held shared (\<lambda>_. 0) ?t" using i(1,2) by (simp add: held_take)
  have "looks shared ?t ?v" using i(3) by (auto simp: looks_def objects_take nth_append)
  moreover have "own (objects ?t ! k) = own (objects (holders s) ! k) \<or> \<not> shared \<and> own (objects ?t ! k) = None"
    if "k \<in> inside s" for k
    using assms(1) that by (auto simp: strings_ok_def inside_def looks_def objects_take nth_append robbed split: if_splits)
  ultimately show ?thesis unfolding string_from_string_def Let_def using assms(1) held
    by (intro strings_ok_append) (auto simp: objects_take)
qed

lemma ok_assign_string:
  assumes "strings_ok shared s" and "i < length (strings s)" and "j < length (strings s)"
  shows "strings_ok shared (string_assign_string shared j i s)"
proof -
  let ?a = "strings s ! j" and ?b = "strings s ! i"
  let ?t = "assign_result_to shared (inner ?a) (inner ?b) (holders s)"
  note i = strings_okD [OF assms(1,2)] and j = strings_okD [OF assms(1,3)]
  have held: "held shared (\<lambda>_. 0) ?t" using i(1,2) j(2) by (simp add: held_assign)
  have same: "inner ?a = inner ?b \<Longrightarrow> ?a = ?b"
    using assms by (auto simp: strings_ok_def distinct_conv_nth)
  have "looks shared ?t (?a\<lparr>content := content ?b\<rparr>)"
    using i(2,3) j(2) same by (cases "inner ?b = inner ?a") (auto simp: looks_def objects_assign)
  moreover have "own (objects ?t ! k) = own (objects (holders s) ! k) \<or> \<not> shared \<and> own (objects ?t ! k) = None"
    if "k \<in> inside s" "k \<noteq> inner ?a" for k
    using assms(1) that by (auto simp: strings_ok_def inside_def looks_def objects_assign robbed split: if_splits)
  ultimately show ?thesis unfolding string_assign_string_def Let_def using assms(1,3) held
    by (intro strings_ok_update) (auto simp: objects_assign)
qed

lemma ok_destroy_string:
  assumes "strings_ok shared s" and "j < length (strings s)"
  shows "strings_ok shared (destroy_string shared j s)"
proof -
  let ?a = "strings s ! j"
  note j = strings_okD [OF assms]
  have "held shared (\<lambda>_. 0) (destroy shared (inner ?a) (holders s))" using j(1,2) by (simp add: held_destroy)
  moreover have "looks shared (destroy shared (inner ?a) (holders s)) (?a\<lparr>content := None\<rparr>)"
    using j(2) by (simp add: looks_def)
  ultimately show ?thesis unfolding destroy_string_def Let_def using assms
    by (intro strings_ok_update) auto
qed

lemma step_strings_ok: "string_step shared s s' \<Longrightarrow> strings_ok shared s \<Longrightarrow> strings_ok shared s'"
proof (induction rule: string_step.induct)
  case (own_results s t)
  have "length (objects (holders s)) \<le> length (objects t)" using own_results(1) by (rule step_grows)
  then have "looks shared t v" if "v \<in> set (strings s)" for v
    using own_results(2,3) that by (auto simp: strings_ok_def looks_def inside_def)
  then show ?case using own_results step_held by (auto simp: strings_ok_def)
qed (blast intro: ok_from_result ok_assign_result ok_from_string ok_assign_string ok_destroy_string)+

lemma run_strings_ok: "string_run shared s \<Longrightarrow> strings_ok shared s"
proof (induction rule: string_run.induct)
  case start
  show ?case using run_held [OF holder_run.start] by (simp add: strings_ok_def no_strings_def)
next
  case (more s s')
  then show ?case using step_strings_ok by blast
qed

lemma one_result: "string_run shared (no_strings\<lparr>holders := construct 3 no_holders\<rparr>)"
proof -
  have "holder_step shared (holders no_strings) (construct 3 no_holders)"
    using holder_step.makes [of 3 no_holders shared] by (simp add: no_strings_def no_holders_def)
  then have "string_step shared no_strings (no_strings\<lparr>holders := construct 3 no_holders\<rparr>)"
    by (rule string_step.own_results) (simp add: inside_def no_strings_def)
  then show ?thesis by (rule string_run.more [OF string_run.start])
qed

section \<open>Property\<close>

text \<open>
  C17. Results are freed exactly when nobody has them, and what a string looks into is there: whatever
  objects and strings of a class are made, moved, copied, assigned (also to themselves) and destroyed
  in whatever order, no result is freed twice; the raw pointer an object reads through is null or
  one it owns that is not freed; a result that no object owns any more has been freed; and a string
  looks into a result that its own member keeps, unless it is a \<open>ResultString\<close> that was moved from.
\<close>

theorem results_outlive_views:
  assumes "string_run shared s"
  shows "distinct (cleared (holders s)) \<and>
    (\<forall>h \<in> set (objects (holders s)). \<forall>p. raw h = Some p \<or> own h = Some p \<longrightarrow>
      own h = Some p \<and> p \<notin> set (cleared (holders s))) \<and>
    (\<forall>p \<in> set (issued (holders s)). (\<forall>h \<in> set (objects (holders s)). own h \<noteq> Some p) \<longrightarrow>
      p \<in> set (cleared (holders s))) \<and>
    (\<forall>v \<in> set (strings s). \<forall>p. content v = Some p \<longrightarrow>
      own (objects (holders s) ! inner v) = Some p \<and> p \<notin> set (cleared (holders s)) \<or>
      \<not> shared \<and> own (objects (holders s) ! inner v) = None)"
proof -
  have ok: "strings_ok shared s" using assms by (rule run_strings_ok)
  then have safe: "owned_safely (holders s)" unfolding strings_ok_def by (blast intro: held_safe)
  have "own (objects (holders s) ! inner v) = Some p \<and> p \<notin> set (cleared (holders s)) \<or>
      \<not> shared \<and> own (objects (holders s) ! inner v) = None"
    if v: "v \<in> set (strings s)" and p: "content v = Some p" for v p
  proof -
    have "looks shared (holders s) v" using ok v by (simp add: strings_ok_def)
    then have "objects (holders s) ! inner v \<in> set (objects (holders s))"
      and "own (objects (holders s) ! inner v) = Some p \<or> \<not> shared \<and> own (objects (holders s) ! inner v) = None"
      using p by (auto simp: looks_def)
    then show ?thesis using safe unfolding owned_safely_def by blast
  qed
  then show ?thesis using safe unfolding owned_safely_def by blast
qed

text \<open>A \<open>SharedResultString\<close> is copied, then its result and itself are destroyed: the copy still looks.\<close>

theorem results_outlive_views_witness:
  "\<exists>s. string_run True s \<and> strings s = [\<lparr>inner = 1, content = None\<rparr>, \<lparr>inner = 2, content = Some 3\<rparr>] \<and>
     issued (holders s) = [3] \<and> 3 \<notin> set (cleared (holders s))"
proof -
  let ?s1 = "no_strings\<lparr>holders := construct 3 no_holders\<rparr>"
  let ?s2 = "\<lparr>holders = copy_construct 0 (holders ?s1), strings = [\<lparr>inner = 1, content = Some 3\<rparr>]\<rparr>"
  let ?s3 = "string_from_string True 0 ?s2"
  let ?s4 = "?s3\<lparr>holders := destroy True 0 (holders ?s3)\<rparr>"
  let ?s5 = "destroy_string True 0 ?s4"
  note unf = construct_def no_holders_def no_strings_def acquire_def copy_construct_def take_result_def
    string_from_string_def destroy_string_def inside_def Let_def
  have "string_run True ?s1" by (rule one_result)
  moreover have "string_step True ?s1 ?s2"
    by (rule string_step.from_result [of 0]) (simp_all add: unf string_from_result_def view_first_def)
  moreover have "string_step True ?s2 ?s3" by (rule string_step.from_string) simp
  moreover have "string_step True ?s3 ?s4"
    by (rule string_step.own_results, rule holder_step.destroys) (auto simp: unf)
  moreover have "string_step True ?s4 ?s5" by (rule string_step.destroy_one) (simp add: unf)
  ultimately have run: "string_run True ?s5" by (blast intro: string_run.more)
  have s5: "strings ?s5 = [\<lparr>inner = 1, content = None\<rparr>, \<lparr>inner = 2, content = Some 3\<rparr>]"
    "issued (holders ?s5) = [3]" by (simp_all add: unf destroy_def release_def)
  then have "3 \<notin> set (cleared (holders ?s5))" using results_outlive_views [OF run] by auto
  then show ?thesis using run s5 by blast
qed

text \<open>After a move the string moved from still looks into what the other one frees.\<close>

lemma moved_string_dangles:
  "\<exists>s. string_run False s \<and> content (strings s ! 0) = Some 3 \<and> 3 \<in> set (cleared (holders s))"
proof -
  let ?s1 = "no_strings\<lparr>holders := construct 3 no_holders\<rparr>"
  let ?s2 = "\<lparr>holders = move_construct 0 (holders ?s1), strings = [\<lparr>inner = 1, content = Some 3\<rparr>]\<rparr>"
  let ?s3 = "string_from_string False 0 ?s2"
  let ?s4 = "destroy_string False 1 ?s3"
  note unf = construct_def no_holders_def no_strings_def acquire_def move_construct_def take_result_def
    string_from_string_def destroy_string_def inside_def Let_def
  have "string_run False ?s1" by (rule one_result)
  moreover have "string_step False ?s1 ?s2"
    by (rule string_step.from_result [of 0]) (simp_all add: unf string_from_result_def view_first_def)
  moreover have "string_step False ?s2 ?s3" by (rule string_step.from_string) simp
  moreover have "string_step False ?s3 ?s4" by (rule string_step.destroy_one) (simp add: unf)
  ultimately have run: "string_run False ?s4" by (blast intro: string_run.more)
  have "content (strings ?s4 ! 0) = Some 3" "3 \<in> set (cleared (holders ?s4))"
    by (simp_all add: unf destroy_def release_def)
  then show ?thesis using run by blast
qed

end
