(* ===== verification/String_Helpers.thy ===== *)
theory String_Helpers
  imports Db_Session Text_Codecs
begin

text \<open>
  The arguments of a query as the application writes them (\<open>common_util.h\<close>, the templates of
  \<open>dbconnection.h\<close>): a pack of values of any types that have a text becomes the vector of strings
  the database session queues.
\<close>

section \<open>Texts\<close>

text \<open>
  What a type offers of the conversions the concepts ask for, with what each gives for the value: an
  implicit conversion to \<open>std::string\<close>, a member \<open>to_string\<close>, \<open>std::to_string\<close>, a \<open>to_string\<close>
  found by its argument, and a constructor of \<open>std::string\<close>.
\<close>

record argument =
  converted :: "string option"
  member_text :: "string option"
  std_text :: "string option"
  found_text :: "string option"
  constructed :: "string option"

definition StringConvertible :: "argument \<Rightarrow> bool" where
  "StringConvertible a \<longleftrightarrow> converted a \<noteq> None \<or> member_text a \<noteq> None \<or> std_text a \<noteq> None \<or>
     found_text a \<noteq> None \<or> constructed a \<noteq> None"

definition to_text :: "argument \<Rightarrow> string" where
  "to_text a =
     (case converted a of Some t \<Rightarrow> t
      | None \<Rightarrow> (case member_text a of Some t \<Rightarrow> t
      | None \<Rightarrow> (case std_text a of Some t \<Rightarrow> t
      | None \<Rightarrow> (case found_text a of Some t \<Rightarrow> t | None \<Rightarrow> the (constructed a)))))"

text \<open>
  The overload for strings; \<open>None\<close> is a call that does not compile. It is the better match whenever
  its constraints hold; the one for any type then neither has a constructor to call nor, having
  moved the vector to the end, an overload to go on with.
\<close>

fun add_to_vector :: "string list \<Rightarrow> argument list \<Rightarrow> string list option" where
  "add_to_vector ret [] = None"
| "add_to_vector ret (elem # rest) =
     (if list_all StringConvertible (elem # rest) then
        let ret = ret @ [to_text elem] in
        if 0 < length rest then add_to_vector ret rest else Some ret
      else None)"

text \<open>
  The overload for other types passes \<open>rest..., ret\<close> on, where no overload takes an element for the
  vector.
\<close>

fun add_any_to_vector :: "'a list \<Rightarrow> 'a list \<Rightarrow> 'a list option" where
  "add_any_to_vector ret [] = None"
| "add_any_to_vector ret (elem # rest) =
     (let ret = ret @ [elem] in if 0 < length rest then None else Some ret)"

definition make_vector :: "('a list \<Rightarrow> 'b list \<Rightarrow> 'a list option) \<Rightarrow> 'b list \<Rightarrow> 'a list option" where
  "make_vector add elems = (let ret = [] in if 0 < length elems then add ret elems else Some ret)"

section \<open>Values\<close>

text \<open>
  The types an application passes: strings and literals; views, among them the strings and rows of
  results, which convert to \<open>std::string_view\<close>; characters, truth values and integers, for which
  \<open>std::to_string\<close> takes the number; objects with a member \<open>to_string\<close>, and those with a free one, as
  a \<open>uuid\<close> has.
\<close>

datatype cpp_value =
    Text string
  | View string
  | Character char
  | Truth bool
  | Integer int
  | With_member string
  | With_function string

definition no_text :: argument where
  "no_text = \<lparr>converted = None, member_text = None, std_text = None, found_text = None, constructed = None\<rparr>"

fun argument_of :: "cpp_value \<Rightarrow> argument" where
  "argument_of (Text s) = no_text\<lparr>converted := Some s, constructed := Some s\<rparr>"
| "argument_of (View s) = no_text\<lparr>constructed := Some s\<rparr>"
| "argument_of (Character c) = no_text\<lparr>std_text := Some (decimal (schar c))\<rparr>"
| "argument_of (Truth b) = no_text\<lparr>std_text := Some (decimal (if b then 1 else 0))\<rparr>"
| "argument_of (Integer n) = no_text\<lparr>std_text := Some (decimal n)\<rparr>"
| "argument_of (With_member s) = no_text\<lparr>member_text := Some s\<rparr>"
| "argument_of (With_function s) = no_text\<lparr>found_text := Some s\<rparr>"

section \<open>Queries\<close>

text \<open>The forms of \<open>query_params\<close> and \<open>query_prepared\<close> that take the arguments themselves.\<close>

definition query_params_of ::
  "64 word \<Rightarrow> string \<Rightarrow> argument list \<Rightarrow> nat \<Rightarrow> DbSession \<Rightarrow> DbSession option" where
  "query_params_of serial command args c s =
     map_option (\<lambda>vec. send_query_params serial command vec (Coroutine c) s) (make_vector add_to_vector args)"

definition query_params_cb ::
  "64 word \<Rightarrow> string \<Rightarrow> argument list \<Rightarrow> nat \<Rightarrow> DbSession \<Rightarrow> DbSession option" where
  "query_params_cb serial command args cb s =
     map_option (\<lambda>vec. send_query_params serial command vec (Callback cb) s) (make_vector add_to_vector args)"

definition query_prepared_of ::
  "(int option \<Rightarrow> string \<Rightarrow> int) \<Rightarrow> 64 word \<Rightarrow> string \<Rightarrow> argument list \<Rightarrow> nat \<Rightarrow> nat \<Rightarrow> DbSession \<Rightarrow>
    (progress \<times> DbSession) res option" where
  "query_prepared_of open_at serial statement args c c' s =
     map_option (\<lambda>vec. query_prepared open_at serial statement vec c c' s) (make_vector add_to_vector args)"

definition query_prepared_cb ::
  "64 word \<Rightarrow> string \<Rightarrow> argument list \<Rightarrow> nat \<Rightarrow> DbSession \<Rightarrow> DbSession option" where
  "query_prepared_cb serial statement args cb s =
     map_option (\<lambda>vec. send_query_prepared serial statement vec (Callback cb) s) (make_vector add_to_vector args)"

section \<open>Facts\<close>

text \<open>The text of a value, written down without the overloads.\<close>

fun text_of :: "cpp_value \<Rightarrow> string" where
  "text_of (Text s) = s"
| "text_of (View s) = s"
| "text_of (Character c) = decimal (schar c)"
| "text_of (Truth b) = (if b then ''1'' else ''0'')"
| "text_of (Integer n) = decimal n"
| "text_of (With_member s) = s"
| "text_of (With_function s) = s"

text \<open>One step of a batch.\<close>

lemma write_batch_20:
  "write_batch files ans 20 s =
     (case queued s of
        [] \<Rightarrow> Inr (0, s)
      | q # qs \<Rightarrow>
          bindE (wire_of files (q_arg q)) (\<lambda>op.
            if ans (length (wire s)) = 0 then Inr (- 1, s)
            else if q_sync q then
              (if ans (length (wire s) + 1) = 0 then Inr (- 1, s\<lparr>wire := wire s @ [op]\<rparr>)
               else write_batch files ans 19 (dispatch_query [op, Send_sync] q qs s))
            else write_batch files ans 19 (dispatch_query [op] q qs s)))"
proof -
  have 20: "(20 :: nat) = Suc 19" by simp
  show ?thesis unfolding 20 write_batch.simps(2) by (rule refl)
qed

lemma write_batch_done: "queued s = [] \<Longrightarrow> write_batch files ans n s = Inr (0, s)"
  by (cases n) simp_all

lemma decimal_0_1 [simp]: "decimal 0 = ''0''" "decimal 1 = ''1''"
  by code_simp+

lemma argument_text [simp]: "StringConvertible (argument_of v)" "to_text (argument_of v) = text_of v"
  by (cases v; simp add: StringConvertible_def to_text_def no_text_def)+

lemma add_all: "args \<noteq> [] \<Longrightarrow> add_to_vector ret args =
    (if list_all StringConvertible args then Some (ret @ map to_text args) else None)"
  by (induction ret args rule: add_to_vector.induct) (auto simp: Let_def)

lemma make_vector_texts:
  "make_vector add_to_vector args = (if list_all StringConvertible args then Some (map to_text args) else None)"
  by (cases "args = []") (simp_all add: make_vector_def add_all)

lemma make_vector_values: "make_vector add_to_vector (map argument_of vs) = Some (map text_of vs)"
  by (simp add: make_vector_texts list_all_iff)

text \<open>For a type other than strings, at most one element compiles.\<close>

lemma make_vector_any: "make_vector add_any_to_vector elems = (if length elems \<le> 1 then Some elems else None)"
  by (cases elems) (auto simp: make_vector_def Let_def)

text \<open>
  What gets to the server: the texts of the arguments in order, each up to its first NUL, when there
  are at most 20 and libpq takes the calls.
\<close>

lemma arguments_on_wire:
  assumes "length vs \<le> 20" and "queued s = []" and "\<And>k. ans k \<noteq> 0"
  obtains s' s'' where "query_params_of serial command (map argument_of vs) c s = Some s'"
    and "write_batch files ans 20 s' = Inr (0, s'')"
    and "wire s'' = wire s @ [Send_params command (map (c_str \<circ> text_of) vs), Send_sync]"
    and "dispatched s'' = dispatched s @ [\<lparr>d_serial = serial, d_sync = True, d_handler = Coroutine c\<rparr>]"
    and "queued s'' = []"
proof -
  let ?q = "\<lparr>q_serial = serial, q_sync = True, q_arg = QueryParamArg command (map text_of vs), q_handler = Coroutine c\<rparr>"
  have "query_params_of serial command (map argument_of vs) c s = Some (enqueue ?q s)"
    by (simp add: query_params_of_def make_vector_values send_query_params_def)
  moreover have "write_batch files ans 20 (enqueue ?q s) =
      Inr (0, dispatch_query [Send_params command (map c_str (map text_of vs)), Send_sync] ?q [] (enqueue ?q s))"
    using assms by (simp add: write_batch_20 write_batch_done enqueue_def wire_of_def dispatch_query_def)
  ultimately show ?thesis using that by (simp add: dispatch_query_def enqueue_def dispatch_of_def)
qed

lemma too_many_arguments:
  assumes "20 < length vs" and "queued s = []"
    and "query_params_of serial command (map argument_of vs) c s = Some s'"
  shows "write_batch files ans 20 s' = Inl Assertion"
  using assms
  by (auto simp: query_params_of_def make_vector_values send_query_params_def write_batch_20 enqueue_def wire_of_def)

text \<open>A character is sent as its number.\<close>

lemma character_sent_as_number:
  "query_params_of serial command (map argument_of [Character (CHR ''x''), Text ''x'']) c s =
    Some (send_query_params serial command [''120'', ''x''] (Coroutine c) s)"
proof -
  have "decimal 120 = ''120''" by code_simp
  moreover have "schar (CHR ''x'') = 120" by (simp add: schar_def)
  ultimately have "map text_of [Character (CHR ''x''), Text ''x''] = [''120'', ''x'']" by simp
  then show ?thesis unfolding query_params_of_def make_vector_values by simp
qed

end
