(* ===== verification/Hexdump.thy ===== *)
theory Hexdump
  imports Prelude
begin

text \<open>
  \<open>hexdump\<close> of \<open>util.h\<close>: lines of 16 bytes with their offset, in hexadecimal and as text, where lines
  equal to the one before are left out after a single \<open>*\<close>. What is written to the file is the result.
  The loop has no bound of its own, so it is a partial function, \<open>None\<close> being that it does not end.
\<close>

section \<open>The code\<close>

definition hex_digit :: "nat \<Rightarrow> char" where
  "hex_digit n = char_of (if n < 10 then n + 48 else n + 87)"

text \<open>What \<open>%02x\<close> prints of a byte and \<open>%08lx\<close> of a number.\<close>

definition hex_byte :: "char \<Rightarrow> string" where
  "hex_byte c = [hex_digit (code c div 16), hex_digit (code c mod 16)]"

function hex_nat :: "nat \<Rightarrow> string" where
  "hex_nat n = (if n < 16 then [hex_digit n] else hex_nat (n div 16) @ [hex_digit (n mod 16)])"
  by pat_completeness auto
termination by (relation "measure id") auto

declare hex_nat.simps [simp del]

definition hex_offset :: "nat \<Rightarrow> string" where
  "hex_offset n = replicate (8 - length (hex_nat n)) (CHR ''0'') @ hex_nat n"

text \<open>The bytes from \<open>first\<close> to \<open>last\<close> are the argument.\<close>

definition hexdump8 :: "string \<Rightarrow> string" where
  "hexdump8 bytes =
     (let now = take 8 bytes in
      concat (map (\<lambda>k. hex_byte k @ '' '') now) @ concat (replicate (8 - length now) ''   '') @ '' '')"

definition printable :: "char \<Rightarrow> char" where
  "printable c = (if 0x20 \<le> code c \<and> code c \<le> 0x7e then c else CHR ''.'')"

text \<open>\<open>buf\<close> are the first \<open>buflen\<close> bytes of the array, the only ones the code looks at.\<close>

partial_function (option) hexdump_loop :: "string \<Rightarrow> nat \<Rightarrow> string \<Rightarrow> bool \<Rightarrow> string option" where
  "hexdump_loop src i buf repeated =
     (let nextlen = min 16 (length src - i) in
      if nextlen = length buf \<and> buf = take nextlen (drop i src) then
        Option.bind (hexdump_loop src (i + nextlen) buf True) (\<lambda>out.
          Some ((if \<not> repeated then [CHR ''*'', CHR 0x0A] else []) @ out))
      else if i = length src then Some (hex_offset i @ [CHR 0x0A])
      else
        let now = take 16 (drop i src) in
        Option.bind (hexdump_loop src (i + length now) now False) (\<lambda>out.
          Some (hex_offset i @ ''  '' @ hexdump8 (drop i src) @ hexdump8 (drop (i + 8) src) @ ''|'' @
            map printable now @ [CHR ''|'', CHR 0x0A] @ out)))"

definition hexdump :: "string \<Rightarrow> string option" where
  "hexdump src = (if length src = 0 then Some [] else hexdump_loop src 0 [] False)"

section \<open>What it prints\<close>

text \<open>
  The dump line by line: line \<open>k\<close> is left out when it repeats the one before, with a \<open>*\<close> when that
  one does not repeat its own; at the end comes the length.
\<close>

definition line_bytes :: "string \<Rightarrow> nat \<Rightarrow> string" where
  "line_bytes src k = take 16 (drop (16 * k) src)"

definition repeats :: "string \<Rightarrow> nat \<Rightarrow> bool" where
  "repeats src k \<longleftrightarrow> 0 < k \<and> line_bytes src k = line_bytes src (k - 1)"

definition dump_line :: "string \<Rightarrow> nat \<Rightarrow> string" where
  "dump_line src k =
     (if repeats src k then (if repeats src (k - 1) then [] else [CHR ''*'', CHR 0x0A])
      else hex_offset (16 * k) @ ''  '' @ hexdump8 (line_bytes src k) @ hexdump8 (drop 8 (line_bytes src k)) @ ''|'' @
        map printable (line_bytes src k) @ [CHR ''|'', CHR 0x0A])"

definition dump :: "string \<Rightarrow> string" where
  "dump src = concat (map (dump_line src) [0..<(length src + 15) div 16]) @ hex_offset (length src) @ [CHR 0x0A]"

lemma hexdump8_line:
  "hexdump8 (drop (16 * k) src) = hexdump8 (line_bytes src k)"
  "hexdump8 (drop (16 * k + 8) src) = hexdump8 (drop 8 (line_bytes src k))"
  by (simp_all add: hexdump8_def line_bytes_def Let_def drop_take add.commute)

text \<open>The three ways a turn of the loop goes; the test compares with the whole next line.\<close>

lemma same_line:
  "min 16 (length src - i) = length buf \<and> buf = take (min 16 (length src - i)) (drop i src) \<longleftrightarrow>
   buf = take 16 (drop i src)"
proof -
  have "take (min 16 (length src - i)) (drop i src) = take 16 (drop i src)" by (simp add: min_def)
  then show ?thesis by auto
qed

lemma loop_again:
  assumes "buf = take 16 (drop i src)"
  shows "hexdump_loop src i buf repeated = Option.bind (hexdump_loop src (i + length buf) buf True) (\<lambda>out.
    Some ((if \<not> repeated then [CHR ''*'', CHR 0x0A] else []) @ out))"
proof -
  have "min 16 (length src - i) = length buf" using assms by simp
  then show ?thesis
    by (subst hexdump_loop.simps) (unfold Let_def same_line, use assms in simp)
qed

lemma loop_end:
  assumes "buf \<noteq> []"
  shows "hexdump_loop src (length src) buf repeated = Some (hex_offset (length src) @ [CHR 0x0A])"
  using assms by (subst hexdump_loop.simps) simp

lemma loop_line:
  assumes "now = take 16 (drop i src)" and "buf \<noteq> now" and "now \<noteq> []"
  shows "hexdump_loop src i buf repeated = Option.bind (hexdump_loop src (i + length now) now False) (\<lambda>out.
    Some (hex_offset i @ ''  '' @ hexdump8 (drop i src) @ hexdump8 (drop (i + 8) src) @ ''|'' @
      map printable now @ [CHR ''|'', CHR 0x0A] @ out))"
proof -
  have "i \<noteq> length src" using assms(1,3) by auto
  then show ?thesis using assms(2) unfolding assms(1)
    by (subst hexdump_loop.simps) (unfold Let_def same_line, simp)
qed

text \<open>After \<open>k\<close> lines the loop holds the last of them, and knows whether it repeated.\<close>

lemma hexdump_loop_dump:
  assumes "src \<noteq> []" and "k \<le> (length src + 15) div 16"
  shows "hexdump_loop src (min (16 * k) (length src)) (if k = 0 then [] else line_bytes src (k - 1)) (repeats src (k - 1)) =
    Some (concat (map (dump_line src) [k..<(length src + 15) div 16]) @ hex_offset (length src) @ [CHR 0x0A])"
  using assms(2)
proof (induction "(length src + 15) div 16 - k" arbitrary: k)
  case 0
  let ?L = "length src"
  have "0 < ?L" using assms(1) by simp
  moreover have "k = (?L + 15) div 16" using 0 by linarith
  ultimately have k: "k = (?L + 15) div 16" "0 < k" "?L \<le> 16 * k" "16 * (k - 1) < ?L" by presburger+
  then have "line_bytes src (k - 1) \<noteq> []" by (simp add: line_bytes_def)
  moreover have "min (16 * k) ?L = ?L" using k(3) by simp
  ultimately show ?case using loop_end k(1,2) by simp
next
  case (Suc m)
  let ?L = "length src" and ?now = "line_bytes src k" and ?n = "(length src + 15) div 16"
  define buf where "buf = (if k = 0 then [] else line_bytes src (k - 1))"
  have lt: "k < ?n" using Suc(2) by linarith
  then have i: "16 * k < ?L" "min (16 * k) ?L = 16 * k" by auto
  have now: "?now = take 16 (drop (16 * k) src)" "?now \<noteq> []" using i by (simp_all add: line_bytes_def)
  have rep: "buf = ?now \<longleftrightarrow> repeats src k" using now(2) by (auto simp: repeats_def buf_def)
  have next_i: "min (16 * (k + 1)) ?L = 16 * k + length ?now" using i by (simp add: line_bytes_def)
  have IH: "hexdump_loop src (16 * k + length ?now) ?now (repeats src k) =
      Some (concat (map (dump_line src) [k + 1..<?n]) @ hex_offset ?L @ [CHR 0x0A])"
    using Suc(1) [of "k + 1"] Suc(2) lt unfolding next_i by simp
  have range: "[k..<?n] = k # [k + 1..<?n]" using lt by (simp add: upt_conv_Cons)
  show ?case unfolding i(2) buf_def [symmetric] range
  proof (cases "repeats src k")
    case True
    then have "buf = ?now" using rep by blast
    then show "hexdump_loop src (16 * k) buf (repeats src (k - 1)) =
        Some (concat (map (dump_line src) (k # [k + 1..<?n])) @ hex_offset ?L @ [CHR 0x0A])"
      using True IH loop_again [OF now(1)] by (simp add: dump_line_def)
  next
    case False
    then have "buf \<noteq> ?now" using rep by blast
    then show "hexdump_loop src (16 * k) buf (repeats src (k - 1)) =
        Some (concat (map (dump_line src) (k # [k + 1..<?n])) @ hex_offset ?L @ [CHR 0x0A])"
      using False IH loop_line [OF now(1) _ now(2)] by (simp add: dump_line_def hexdump8_line)
  qed
qed

text \<open>
  The dump of any bytes ends, and is the one described: every line, its offset and its text, runs of
  equal lines as one \<open>*\<close>, and the length. Of no bytes nothing is printed.
\<close>

theorem hexdump_prints: "hexdump src = Some (if src = [] then [] else dump src)"
  using hexdump_loop_dump [of src 0] by (simp add: hexdump_def dump_def repeats_def)

text \<open>A line of 16 bytes is 78 characters wide: the text starts in the same column, also when it is short.\<close>

lemma length_hexdump8: "length (hexdump8 bytes) = 25"
proof -
  have "length (concat (map (\<lambda>k. hex_byte k @ '' '') bs)) = 3 * length bs" for bs
    by (induction bs) (simp_all add: hex_byte_def)
  moreover have "length (concat (replicate n ''   '')) = 3 * n" for n by (induction n) simp_all
  ultimately show ?thesis by (simp add: hexdump8_def Let_def)
qed

end
