(* ===== verification/Request_Access.thy ===== *)
theory Request_Access
  imports Streams Cookies_Mime
begin

text \<open>
  What a handler reads of its request beside the body and the parameters of the route
  (\<open>httprequest.cc\<close>): the headers as they were received, the target, and the cookies.
\<close>

definition request_header :: "string \<Rightarrow> Stream \<Rightarrow> string option" where
  "request_header name st = get_header name (st_headers st)"

definition request_path :: "Stream \<Rightarrow> string" where
  "request_path st = st_path st"

definition request_query :: "Stream \<Rightarrow> string" where
  "request_query st = st_query st"

definition request_cookie :: "string \<Rightarrow> Stream \<Rightarrow> string option res" where
  "request_cookie key st =
     (case request_header ''cookie'' st of None \<Rightarrow> Inr None | Some cookies \<Rightarrow> get_cookie cookies key)"

text \<open>The cookies of a request are those of the first field of that name.\<close>

lemma request_cookie_received:
  assumes "st_headers st = fst (add_headers hs no_headers)"
  shows "request_cookie key st =
    (case find_header ''cookie'' (ordinary hs) of None \<Rightarrow> Inr None | Some cookies \<Rightarrow> get_cookie cookies key)"
proof -
  have "\<not> streq_l ''cookie'' ''expect''" "\<not> streq_l ''cookie'' ''if-modified-since''" by code_simp+
  then have "get_header ''cookie'' (st_headers st) = find_header ''cookie'' (ordinary hs)"
    using assms get_header_searches [of "''cookie''" hs] by simp
  then show ?thesis by (simp add: request_cookie_def request_header_def)
qed

text \<open>
  A client of HTTP/2 may send each cookie in a field of its own. The ones after the first are not found.
\<close>

lemma split_cookies_lost:
  assumes "rbytes n = ''cookie''" and "rbytes v1 = ''a=1''" and "rbytes v2 = ''b=2''"
    and "st_headers st = fst (add_headers [(n, v1), (n, v2)] no_headers)"
  shows "request_cookie ''a'' st = Inr (Some ''1'')" "request_cookie ''b'' st = Inr None"
proof -
  have "lookup_header ''cookie'' \<notin> kept_apart" by code_simp
  then have "ordinary [(n, v1), (n, v2)] = [(n, v1), (n, v2)]" by (simp add: ordinary_def kind_def assms(1))
  moreover have "streq_l ''cookie'' ''cookie''" by code_simp
  ultimately have "find_header ''cookie'' (ordinary [(n, v1), (n, v2)]) = Some ''a=1''"
    using assms(1,2) by (simp add: find_header.simps)
  moreover have "get_cookie ''a=1'' ''a'' = Inr (Some ''1'')" "get_cookie ''a=1'' ''b'' = Inr None" by code_simp+
  ultimately show "request_cookie ''a'' st = Inr (Some ''1'')" "request_cookie ''b'' st = Inr None"
    using request_cookie_received [OF assms(4)] by simp_all
qed

end
