(* ===== verification/Resources.thy ===== *)
theory Resources
  imports Prelude
begin

text \<open>
  What the connections of a worker hold outside the program's memory (\<open>httpsession.cc\<close>, \<open>worker.cc\<close>):
  a socket, a TLS object, after the handshake a session of nghttp2, and watchers started in the event
  loop. The operations are those that take and release them, in the order of the code; a descriptor
  number may be given out again once it is closed.

  \<open>waiting\<close> are the descriptors in the worker's queue. Using what was released is \<open>Undefined\<close>, and so is
  closing a descriptor that a watcher still waits for, which libev has to be told of before.
\<close>

section \<open>The resources\<close>

datatype watcher = Settings_timer | Read_io | Write_io | Stream_timer int

record Connection =
  socket_fd :: int
  ssl_object :: nat
  h2_session :: "nat option"
  stream_ids :: "int list"

record Resources =
  fds :: "int set"
  nodelay :: "int set"
  ssls :: "nat set"
  made_ssl :: nat
  h2s :: "nat set"
  made_h2 :: nat
  active :: "(watcher \<times> int) set"
  waiting :: "int list"
  connections :: "Connection list"

definition no_resources :: Resources where
  "no_resources = \<lparr>fds = {}, nodelay = {}, ssls = {}, made_ssl = 0, h2s = {}, made_h2 = 0, active = {},
     waiting = [], connections = []\<rparr>"

definition close_fd :: "int \<Rightarrow> Resources \<Rightarrow> Resources res" where
  "close_fd fd s =
     (if fd \<notin> fds s \<or> (Read_io, fd) \<in> active s \<or> (Write_io, fd) \<in> active s then Inl Undefined
      else Inr (s\<lparr>fds := fds s - {fd}, nodelay := nodelay s - {fd}\<rparr>))"

definition shutdown_fd :: "int \<Rightarrow> Resources \<Rightarrow> Resources res" where
  "shutdown_fd fd s = (if fd \<notin> fds s then Inl Undefined else Inr s)"

definition SSL_free :: "nat \<Rightarrow> Resources \<Rightarrow> Resources res" where
  "SSL_free i s = (if i \<notin> ssls s then Inl Undefined else Inr (s\<lparr>ssls := ssls s - {i}\<rparr>))"

definition SSL_shutdown :: "nat \<Rightarrow> int \<Rightarrow> Resources \<Rightarrow> Resources res" where
  "SSL_shutdown i fd s = (if i \<notin> ssls s \<or> fd \<notin> fds s then Inl Undefined else Inr s)"

definition nghttp2_session_del :: "nat \<Rightarrow> Resources \<Rightarrow> Resources res" where
  "nghttp2_session_del h s = (if h \<notin> h2s s then Inl Undefined else Inr (s\<lparr>h2s := h2s s - {h}\<rparr>))"

section \<open>Taking them\<close>

text \<open>The answer of \<open>setsockopt\<close> is an argument, and so are those of \<open>SSL_new\<close> (null or not) and \<open>SSL_set_fd\<close>.\<close>

definition make_socket_nodelay :: "int \<Rightarrow> int \<Rightarrow> Resources \<Rightarrow> int \<times> Resources" where
  "make_socket_nodelay answer fd s =
     (if answer = - 1 then (- 1, s) else (0, s\<lparr>nodelay := nodelay s \<union> ({fd} \<inter> fds s)\<rparr>))"

definition create_ssl_session :: "bool \<Rightarrow> int \<Rightarrow> Resources \<Rightarrow> (nat option \<times> Resources) res" where
  "create_ssl_session ssl_new set_fd s =
     (if \<not> ssl_new then Inr (None, s)
      else
        let ssl = made_ssl s; s = s\<lparr>ssls := insert ssl (ssls s), made_ssl := made_ssl s + 1\<rparr> in
        if set_fd = 0 then bindE (SSL_free ssl s) (\<lambda>s. Inr (None, s)) else Inr (Some ssl, s))"

text \<open>The constructor starts the watcher for reading.\<close>

definition new_connection :: "int \<Rightarrow> nat \<Rightarrow> Resources \<Rightarrow> Resources" where
  "new_connection fd ssl s =
     s\<lparr>active := insert (Read_io, fd) (active s),
       connections := \<lparr>socket_fd = fd, ssl_object = ssl, h2_session = None, stream_ids = []\<rparr> # connections s\<rparr>"

definition accept_fd :: "int \<Rightarrow> bool \<Rightarrow> int \<Rightarrow> int \<Rightarrow> Resources \<Rightarrow> Resources res" where
  "accept_fd answer ssl_new set_fd fd s =
     (let (_, s) = make_socket_nodelay answer fd s in
      bindE (create_ssl_session ssl_new set_fd s) (\<lambda>(ssl, s).
        case ssl of Some i \<Rightarrow> Inr (new_connection fd i s) | None \<Rightarrow> close_fd fd s))"

text \<open>
  \<open>connection_made\<close> gets the session of nghttp2; it is called once, the handshake having replaced
  itself as what to do on reading and writing. \<open>answer\<close> is what \<open>nghttp2_session_server_new\<close> gives.
\<close>

definition update_connection :: "nat \<Rightarrow> (Connection \<Rightarrow> Connection) \<Rightarrow> Resources \<Rightarrow> Resources" where
  "update_connection k f s = s\<lparr>connections := (connections s)[k := f (connections s ! k)]\<rparr>"

definition make_h2 :: "int \<Rightarrow> nat \<Rightarrow> Resources \<Rightarrow> Resources" where
  "make_h2 answer k s =
     (if answer \<noteq> 0 then s
      else update_connection k (h2_session_update (\<lambda>_. Some (made_h2 s)))
        (s\<lparr>h2s := insert (made_h2 s) (h2s s), made_h2 := made_h2 s + 1\<rparr>))"

text \<open>\<open>ev_io_start\<close>, \<open>ev_timer_start\<close> and \<open>ev_timer_again\<close>; \<open>ev_io_stop\<close> and \<open>ev_timer_stop\<close>.\<close>

definition start_watcher :: "watcher \<Rightarrow> nat \<Rightarrow> Resources \<Rightarrow> Resources" where
  "start_watcher w k s = s\<lparr>active := insert (w, socket_fd (connections s ! k)) (active s)\<rparr>"

definition stop_watcher :: "watcher \<Rightarrow> int \<Rightarrow> Resources \<Rightarrow> Resources" where
  "stop_watcher w fd s = s\<lparr>active := active s - {(w, fd)}\<rparr>"

definition open_stream :: "int \<Rightarrow> nat \<Rightarrow> Resources \<Rightarrow> Resources" where
  "open_stream i k s = update_connection k (stream_ids_update (\<lambda>is. i # is)) s"

section \<open>Releasing them\<close>

text \<open>The timers of a stream stand for its two, which its destructor stops.\<close>

definition destroy_stream :: "int \<Rightarrow> int \<Rightarrow> Resources \<Rightarrow> Resources" where
  "destroy_stream fd i s = stop_watcher (Stream_timer i) fd s"

definition close_stream :: "int \<Rightarrow> nat \<Rightarrow> Resources \<Rightarrow> Resources" where
  "close_stream i k s =
     update_connection k (stream_ids_update (\<lambda>is. removeAll i is)) (destroy_stream (socket_fd (connections s ! k)) i s)"

text \<open>
  The destructor of a connection, and then its members in the reverse of their order, the streams
  before the TLS object.
\<close>

definition destroy_connection :: "Connection \<Rightarrow> Resources \<Rightarrow> Resources res" where
  "destroy_connection c s =
     (let fd = socket_fd c;
          s = stop_watcher Settings_timer fd s;
          s = stop_watcher Read_io fd s;
          s = stop_watcher Write_io fd s in
      bindE (case h2_session c of None \<Rightarrow> Inr s | Some h \<Rightarrow> nghttp2_session_del h s) (\<lambda>s.
      bindE (SSL_shutdown (ssl_object c) fd s) (\<lambda>s.
      bindE (shutdown_fd fd s) (\<lambda>s.
      bindE (close_fd fd s) (\<lambda>s.
      let s = fold (destroy_stream fd) (stream_ids c) s in SSL_free (ssl_object c) s)))))"

definition remove_connection :: "nat \<Rightarrow> Resources \<Rightarrow> Resources res" where
  "remove_connection k s =
     bindE (destroy_connection (connections s ! k) s) (\<lambda>s.
       Inr (s\<lparr>connections := take k (connections s) @ drop (Suc k) (connections s)\<rparr>))"

text \<open>\<open>sessions_.clear()\<close>, when the worker is destroyed.\<close>

fun clear_connections :: "Connection list \<Rightarrow> Resources \<Rightarrow> Resources res" where
  "clear_connections [] s = Inr (s\<lparr>connections := []\<rparr>)"
| "clear_connections (c # cs) s = bindE (destroy_connection c s) (clear_connections cs)"

text \<open>
  What happens to a worker: a descriptor the main thread accepts gets into the queue and is taken
  from it; connections use watchers, get their session of nghttp2 and streams, and end.
\<close>

inductive resource_step :: "Resources \<Rightarrow> Resources res \<Rightarrow> bool" where
  accepted: "fd \<notin> fds s \<Longrightarrow> resource_step s (Inr (s\<lparr>fds := insert fd (fds s), waiting := waiting s @ [fd]\<rparr>))"
| taken: "waiting s = fd # rest \<Longrightarrow> resource_step s (accept_fd answer ssl_new set_fd fd (s\<lparr>waiting := rest\<rparr>))"
| handshaken: "k < length (connections s) \<Longrightarrow> h2_session (connections s ! k) = None \<Longrightarrow>
    resource_step s (Inr (make_h2 answer k s))"
| starts: "k < length (connections s) \<Longrightarrow>
    w \<in> {Settings_timer, Read_io, Write_io} \<union> Stream_timer ` set (stream_ids (connections s ! k)) \<Longrightarrow>
    resource_step s (Inr (start_watcher w k s))"
| stops: "k < length (connections s) \<Longrightarrow> resource_step s (Inr (stop_watcher w (socket_fd (connections s ! k)) s))"
| opens: "k < length (connections s) \<Longrightarrow> resource_step s (Inr (open_stream i k s))"
| closes: "k < length (connections s) \<Longrightarrow> resource_step s (Inr (close_stream i k s))"
| ends: "k < length (connections s) \<Longrightarrow> resource_step s (remove_connection k s)"

inductive resource_run :: "Resources res \<Rightarrow> bool" where
  start: "resource_run (Inr no_resources)"
| more: "resource_run (Inr s) \<Longrightarrow> resource_step s r \<Longrightarrow> resource_run r"

section \<open>The invariant\<close>

definition h2_of :: "Connection \<Rightarrow> nat list" where
  "h2_of c = (case h2_session c of None \<Rightarrow> [] | Some h \<Rightarrow> [h])"

definition watchers_of :: "Connection \<Rightarrow> (watcher \<times> int) set" where
  "watchers_of c = ({Settings_timer, Read_io, Write_io} \<union> Stream_timer ` set (stream_ids c)) \<times> {socket_fd c}"

text \<open>A set of resources that is held name by name, each once.\<close>

definition exact :: "'a set \<Rightarrow> 'a list \<Rightarrow> bool" where
  "exact X names \<longleftrightarrow> X = set names \<and> distinct names"

lemma exact_remove: "exact X (as @ bs @ cs) \<Longrightarrow> exact (X - set bs) (as @ cs)"
  by (auto simp: exact_def)

lemma exact_add: "exact X (as @ cs) \<Longrightarrow> b \<notin> X \<Longrightarrow> exact (insert b X) (as @ b # cs)"
  by (auto simp: exact_def)

lemma exact_mem: "exact X (as @ bs @ cs) \<Longrightarrow> set bs \<subseteq> X"
  by (auto simp: exact_def)

text \<open>Everything taken is in the queue or held by one connection, and no other watcher is started.\<close>

definition watched :: "Resources \<Rightarrow> Connection list \<Rightarrow> bool" where
  "watched s cs \<longleftrightarrow> active s \<subseteq> (\<Union>c \<in> set cs. watchers_of c)"

definition held_by :: "Connection list \<Rightarrow> Resources \<Rightarrow> bool" where
  "held_by cs s \<longleftrightarrow>
     exact (fds s) (waiting s @ map socket_fd cs) \<and> exact (ssls s) (map ssl_object cs) \<and>
     exact (h2s s) (concat (map h2_of cs)) \<and> (\<forall>i \<in> ssls s. i < made_ssl s) \<and> (\<forall>h \<in> h2s s. h < made_h2 s) \<and>
     watched s cs"

abbreviation owned :: "Resources \<Rightarrow> bool" where
  "owned s \<equiv> held_by (connections s) s"

lemma h2_of_simps [simp]: "h2_session c = None \<Longrightarrow> h2_of c = []" "h2_session c = Some h \<Longrightarrow> h2_of c = [h]"
  by (simp_all add: h2_of_def)

lemma fold_destroy_stream:
  "fold (destroy_stream fd) is s = s\<lparr>active := active s - Stream_timer ` set is \<times> {fd}\<rparr>"
proof (induction "is" arbitrary: s)
  case (Cons i "is")
  have "active s - {(Stream_timer i, fd)} - Stream_timer ` set is \<times> {fd} =
    active s - insert (Stream_timer i, fd) (Stream_timer ` set is \<times> {fd})" by auto
  then show ?case using Cons by (simp add: destroy_stream_def stop_watcher_def)
qed simp

text \<open>The destructor in one step, for a connection that has what it names.\<close>

lemma destroy_connection_eq:
  assumes "socket_fd c \<in> fds s" and "ssl_object c \<in> ssls s" and "set (h2_of c) \<subseteq> h2s s"
  shows "destroy_connection c s = Inr (s\<lparr>fds := fds s - {socket_fd c}, nodelay := nodelay s - {socket_fd c},
    ssls := ssls s - {ssl_object c}, h2s := h2s s - set (h2_of c), active := active s - watchers_of c\<rparr>)"
proof -
  have sets: "active s - {(Settings_timer, fd)} - {(Read_io, fd)} - {(Write_io, fd)} - T \<times> {fd} =
      active s - ({Settings_timer, Read_io, Write_io} \<union> T) \<times> {fd}" for fd T by auto
  show ?thesis
    using assms unfolding destroy_connection_def Let_def fold_destroy_stream watchers_of_def
    by (cases "h2_session c")
      (simp_all add: stop_watcher_def nghttp2_session_del_def SSL_shutdown_def shutdown_fd_def close_fd_def
        SSL_free_def sets)
qed

lemma held_by_destroy:
  assumes "held_by (xs @ c # ys) s"
  obtains s' where "destroy_connection c s = Inr s'" and "held_by (xs @ ys) s'"
    and "waiting s' = waiting s" and "connections s' = connections s"
proof -
  let ?s' = "s\<lparr>fds := fds s - {socket_fd c}, nodelay := nodelay s - {socket_fd c},
    ssls := ssls s - {ssl_object c}, h2s := h2s s - set (h2_of c), active := active s - watchers_of c\<rparr>"
  have fd: "exact (fds s) ((waiting s @ map socket_fd xs) @ [socket_fd c] @ map socket_fd ys)"
    and ssl: "exact (ssls s) (map ssl_object xs @ [ssl_object c] @ map ssl_object ys)"
    and h2: "exact (h2s s) (concat (map h2_of xs) @ h2_of c @ concat (map h2_of ys))"
    using assms by (simp_all add: held_by_def)
  have "destroy_connection c s = Inr ?s'"
    using exact_mem [OF fd] exact_mem [OF ssl] exact_mem [OF h2] by (intro destroy_connection_eq) simp_all
  moreover have "watched ?s' (xs @ ys)" using assms by (auto simp: held_by_def watched_def)
  then have "held_by (xs @ ys) ?s'"
    using assms exact_remove [OF fd] exact_remove [OF ssl] exact_remove [OF h2] by (simp add: held_by_def)
  ultimately show ?thesis using that by simp
qed

lemma split_at: "k < length cs \<Longrightarrow> cs = take k cs @ cs ! k # drop (Suc k) cs"
  by (rule id_take_nth_drop)

lemma owned_remove:
  assumes "owned s" and "k < length (connections s)"
  obtains s' where "remove_connection k s = Inr s'" and "owned s'"
proof -
  let ?xs = "take k (connections s)" and ?ys = "drop (Suc k) (connections s)"
  have "held_by (?xs @ connections s ! k # ?ys) s" using assms split_at [OF assms(2)] by simp
  then obtain s' where "destroy_connection (connections s ! k) s = Inr s'" "held_by (?xs @ ?ys) s'"
    "connections s' = connections s" by (rule held_by_destroy)
  moreover from this(2) have "held_by (?xs @ ?ys) (s'\<lparr>connections := ?xs @ ?ys\<rparr>)"
    by (simp add: held_by_def watched_def)
  ultimately show ?thesis using that by (simp add: remove_connection_def)
qed

lemma held_by_clear: "held_by cs s \<Longrightarrow>
    \<exists>s'. clear_connections cs s = Inr s' \<and> held_by [] s' \<and> waiting s' = waiting s"
proof (induction cs arbitrary: s)
  case Nil
  then show ?case by (simp add: held_by_def watched_def)
next
  case (Cons c cs)
  have "held_by ([] @ c # cs) s" using Cons.prems by simp
  then obtain s' where "destroy_connection c s = Inr s'" "held_by ([] @ cs) s'" "waiting s' = waiting s"
    by (rule held_by_destroy)
  then show ?case using Cons.IH [of s'] by simp
qed

text \<open>A change of one connection that keeps what it holds.\<close>

lemma owned_change:
  assumes "owned s" and "k < length (connections s)"
    and "socket_fd (f (connections s ! k)) = socket_fd (connections s ! k)"
    and "ssl_object (f (connections s ! k)) = ssl_object (connections s ! k)"
    and "h2_of (f (connections s ! k)) = h2_of (connections s ! k)"
    and "A \<subseteq> active s" and "A \<inter> watchers_of (connections s ! k) \<subseteq> watchers_of (f (connections s ! k))"
  shows "owned (update_connection k f (s\<lparr>active := A\<rparr>))"
proof -
  let ?xs = "take k (connections s)" and ?c = "connections s ! k" and ?ys = "drop (Suc k) (connections s)"
  have old: "held_by (?xs @ ?c # ?ys) s" using assms(1) split_at [OF assms(2)] by simp
  have new: "(connections s)[k := f ?c] = ?xs @ f ?c # ?ys" using assms(2) by (simp add: upd_conv_take_nth_drop)
  have "A \<subseteq> (\<Union>c \<in> set (?xs @ f ?c # ?ys). watchers_of c)"
  proof
    fix x assume x: "x \<in> A"
    then have "x \<in> (\<Union>c \<in> set (?xs @ ?c # ?ys). watchers_of c)"
      using old assms(6) unfolding held_by_def watched_def by blast
    then consider "x \<in> watchers_of ?c" | c where "c \<in> set ?xs \<union> set ?ys" "x \<in> watchers_of c" by auto
    then show "x \<in> (\<Union>c \<in> set (?xs @ f ?c # ?ys). watchers_of c)"
    proof cases
      case 1
      then have "x \<in> watchers_of (f ?c)" using x assms(7) by blast
      then show ?thesis by simp
    qed auto
  qed
  then have "held_by (?xs @ f ?c # ?ys) (s\<lparr>active := A, connections := ?xs @ f ?c # ?ys\<rparr>)"
    using old assms(3-5) by (simp add: held_by_def watched_def)
  then show ?thesis using new by (simp add: update_connection_def)
qed

lemma waiting_unwatched:
  assumes "owned s" and "fd \<in> set (waiting s)"
  shows "(w, fd) \<notin> active s" "fd \<in> fds s"
proof -
  have fds: "exact (fds s) (waiting s @ map socket_fd (connections s))" and "watched s (connections s)"
    using assms(1) by (simp_all add: held_by_def)
  moreover have "fd \<noteq> socket_fd c" if "c \<in> set (connections s)" for c
    using fds assms(2) that by (auto simp: exact_def)
  ultimately show "(w, fd) \<notin> active s" by (force simp: watched_def watchers_of_def)
  show "fd \<in> fds s" using fds assms(2) by (simp add: exact_def)
qed

lemma owned_accept:
  assumes "owned s" and "waiting s = fd # rest"
  obtains s' where "accept_fd answer ssl_new set_fd fd (s\<lparr>waiting := rest\<rparr>) = Inr s'" and "owned s'"
proof -
  have fds: "exact (fds s) ([] @ [fd] @ (rest @ map socket_fd (connections s)))"
    and ssl: "exact (ssls s) ([] @ map ssl_object (connections s))"
    and fresh: "made_ssl s \<notin> ssls s" and below: "\<forall>i \<in> ssls s. i < made_ssl s"
    using assms by (auto simp: held_by_def)
  note closed = exact_remove [OF fds]
  obtain nd where nd: "snd (make_socket_nodelay answer fd (s\<lparr>waiting := rest\<rparr>)) = s\<lparr>waiting := rest, nodelay := nd\<rparr>"
  proof
    show "snd (make_socket_nodelay answer fd (s\<lparr>waiting := rest\<rparr>)) = s\<lparr>waiting := rest,
        nodelay := if answer = - 1 then nodelay s else nodelay s \<union> ({fd} \<inter> fds s)\<rparr>"
      by (cases s) (simp add: make_socket_nodelay_def)
  qed
  define t where "t = s\<lparr>waiting := rest, nodelay := nd\<rparr>"
  note free = waiting_unwatched [OF assms(1), of fd, unfolded assms(2), simplified]
  have start: "accept_fd answer ssl_new set_fd fd (s\<lparr>waiting := rest\<rparr>) =
      bindE (create_ssl_session ssl_new set_fd t) (\<lambda>(ssl, s).
        case ssl of Some i \<Rightarrow> Inr (new_connection fd i s) | None \<Rightarrow> close_fd fd s)"
    using nd by (simp add: accept_fd_def t_def case_prod_unfold)
  have close: "close_fd fd (t\<lparr>made_ssl := n\<rparr>) = Inr (t\<lparr>made_ssl := n, fds := fds s - {fd}, nodelay := nd - {fd}\<rparr>)" for n
    using free by (simp add: close_fd_def t_def)
  have owned_close: "owned (t\<lparr>made_ssl := n, fds := fds s - {fd}, nodelay := nd - {fd}\<rparr>)" if "made_ssl s \<le> n" for n
    using assms(1) closed below that by (auto simp: held_by_def watched_def t_def)
  consider "\<not> ssl_new" | "ssl_new" "set_fd = 0" | "ssl_new" "set_fd \<noteq> 0" by blast
  then show ?thesis
  proof cases
    case 1
    then show ?thesis
      using that start close [of "made_ssl s"] owned_close [of "made_ssl s"] by (simp add: create_ssl_session_def t_def)
  next
    case 2
    then have "create_ssl_session ssl_new set_fd t = Inr (None, t\<lparr>made_ssl := made_ssl s + 1\<rparr>)"
      using fresh by (simp add: create_ssl_session_def Let_def SSL_free_def t_def)
    then show ?thesis using that start close [of "made_ssl s + 1"] owned_close [of "made_ssl s + 1"] by simp
  next
    case 3
    let ?u = "t\<lparr>ssls := insert (made_ssl s) (ssls s), made_ssl := made_ssl s + 1\<rparr>"
    let ?c = "\<lparr>socket_fd = fd, ssl_object = made_ssl s, h2_session = None, stream_ids = []\<rparr>"
    have "exact (fds s) (rest @ map socket_fd (?c # connections s))" using fds by (auto simp: exact_def)
    moreover have "exact (insert (made_ssl s) (ssls s)) (map ssl_object (?c # connections s))"
      using exact_add [OF ssl fresh] by simp
    moreover have "watched (new_connection fd (made_ssl s) ?u) (?c # connections s)"
      using assms(1) by (auto simp: held_by_def watched_def new_connection_def t_def watchers_of_def)
    ultimately have "owned (new_connection fd (made_ssl s) ?u)"
      using assms(1) by (simp add: held_by_def new_connection_def t_def less_SucI)
    moreover have "create_ssl_session ssl_new set_fd t = Inr (Some (made_ssl s), ?u)"
      using 3 by (simp add: create_ssl_session_def Let_def t_def)
    ultimately show ?thesis using that start by simp
  qed
qed

lemma owned_make_h2:
  assumes "owned s" and "k < length (connections s)" and "h2_session (connections s ! k) = None"
  shows "owned (make_h2 answer k s)"
proof (cases "answer = 0")
  case True
  let ?xs = "take k (connections s)" and ?c = "connections s ! k" and ?ys = "drop (Suc k) (connections s)"
  let ?d = "?c\<lparr>h2_session := Some (made_h2 s)\<rparr>"
  have old: "held_by (?xs @ ?c # ?ys) s" using assms(1) split_at [OF assms(2)] by simp
  have h2: "exact (h2s s) (concat (map h2_of ?xs) @ concat (map h2_of ?ys))" and fresh: "made_h2 s \<notin> h2s s"
    using old assms(3) by (auto simp: held_by_def)
  have same: "watchers_of ?d = watchers_of ?c" by (simp add: watchers_of_def)
  have "held_by (?xs @ ?d # ?ys) (s\<lparr>h2s := insert (made_h2 s) (h2s s), made_h2 := made_h2 s + 1,
      connections := ?xs @ ?d # ?ys\<rparr>)"
    using old exact_add [OF h2 fresh] by (simp add: held_by_def watched_def same less_SucI)
  moreover have "(connections s)[k := ?d] = ?xs @ ?d # ?ys" using assms(2) by (simp add: upd_conv_take_nth_drop)
  ultimately show ?thesis using True by (simp add: make_h2_def update_connection_def)
qed (use assms in \<open>simp add: make_h2_def\<close>)

lemma owned_watchers:
  assumes "owned s" and "A \<subseteq> (\<Union>c \<in> set (connections s). watchers_of c)"
  shows "owned (s\<lparr>active := A\<rparr>)"
  using assms by (simp add: held_by_def watched_def)

lemma owned_watched: "owned s \<Longrightarrow> active s \<subseteq> (\<Union>c \<in> set (connections s). watchers_of c)"
  by (simp add: held_by_def watched_def)

lemma step_owned:
  assumes "resource_step s r" and "owned s"
  shows "\<exists>s'. r = Inr s' \<and> owned s'"
  using assms
proof cases
  case (accepted fd)
  have fds: "exact (fds s) (waiting s @ map socket_fd (connections s))" using assms(2) by (simp add: held_by_def)
  show ?thesis using accepted assms(2) exact_add [OF fds accepted(2)] by (simp add: held_by_def watched_def)
next
  case (taken fd rest answer ssl_new set_fd)
  then show ?thesis using owned_accept [OF assms(2)] by metis
next
  case (handshaken k answer)
  then show ?thesis using owned_make_h2 assms(2) by blast
next
  case (starts k w)
  have "(w, socket_fd (connections s ! k)) \<in> watchers_of (connections s ! k)"
    using starts(3) by (auto simp: watchers_of_def)
  moreover have "connections s ! k \<in> set (connections s)" using starts(2) by simp
  ultimately have "insert (w, socket_fd (connections s ! k)) (active s) \<subseteq> (\<Union>c \<in> set (connections s). watchers_of c)"
    using owned_watched [OF assms(2)] by blast
  from owned_watchers [OF assms(2) this] show ?thesis using starts(1) by (simp add: start_watcher_def)
next
  case (stops k w)
  have "active s - {(w, socket_fd (connections s ! k))} \<subseteq> (\<Union>c \<in> set (connections s). watchers_of c)"
    using owned_watched [OF assms(2)] by blast
  from owned_watchers [OF assms(2) this] show ?thesis using stops(1) by (simp add: stop_watcher_def)
next
  case (opens k i)
  have "owned (update_connection k (stream_ids_update (\<lambda>is. i # is)) (s\<lparr>active := active s\<rparr>))"
    by (rule owned_change [OF assms(2) opens(2)]) (auto simp: h2_of_def watchers_of_def)
  then show ?thesis using opens(1) by (simp add: open_stream_def)
next
  case (closes k i)
  have "owned (update_connection k (stream_ids_update (\<lambda>is. removeAll i is))
      (s\<lparr>active := active s - {(Stream_timer i, socket_fd (connections s ! k))}\<rparr>))"
    by (rule owned_change [OF assms(2) closes(2)]) (auto simp: h2_of_def watchers_of_def)
  then show ?thesis using closes(1) by (simp add: close_stream_def destroy_stream_def stop_watcher_def)
next
  case (ends k)
  then show ?thesis using owned_remove [OF assms(2)] by metis
qed

lemma run_owned: "resource_run r \<Longrightarrow> \<exists>s. r = Inr s \<and> owned s"
proof (induction rule: resource_run.induct)
  case start
  show ?case by (simp add: no_resources_def held_by_def exact_def watched_def)
next
  case (more s r)
  then show ?case using step_owned by blast
qed

section \<open>Property\<close>

text \<open>
  C28. A worker leaks nothing a connection took and uses nothing it released: however connections are
  accepted, refused by TLS, used and ended, no descriptor is closed twice, or while a watcher waits
  for it, no TLS object or session of nghttp2 is freed twice, and at any time those open are those of
  the connections there are, with the descriptors still queued. When the worker is destroyed then,
  its connections release everything; what is left open are the descriptors in the queue.
\<close>

theorem connections_release:
  assumes "resource_run r"
  shows "\<exists>s s'. r = Inr s \<and> fds s = set (waiting s) \<union> socket_fd ` set (connections s) \<and>
    ssls s = ssl_object ` set (connections s) \<and> h2s s = {h. \<exists>c \<in> set (connections s). h2_session c = Some h} \<and>
    snd ` active s \<subseteq> socket_fd ` set (connections s) \<and>
    clear_connections (connections s) s = Inr s' \<and>
    fds s' = set (waiting s) \<and> ssls s' = {} \<and> h2s s' = {} \<and> active s' = {}"
proof -
  obtain s where s: "r = Inr s" "owned s" using run_owned [OF assms] by blast
  obtain s' where s': "clear_connections (connections s) s = Inr s'" "held_by [] s'" "waiting s' = waiting s"
    using held_by_clear [OF s(2)] by blast
  have "h2s s = {h. \<exists>c \<in> set (connections s). h2_session c = Some h}"
    using s(2) by (auto simp: held_by_def exact_def h2_of_def split: option.splits)
  moreover have "snd ` active s \<subseteq> socket_fd ` set (connections s)"
    using owned_watched [OF s(2)] by (fastforce simp: watchers_of_def)
  moreover have "fds s = set (waiting s) \<union> socket_fd ` set (connections s)" "ssls s = ssl_object ` set (connections s)"
    using s(2) by (simp_all add: held_by_def exact_def)
  moreover have "fds s' = set (waiting s)" "ssls s' = {}" "h2s s' = {}" "active s' = {}"
    using s'(2,3) by (simp_all add: held_by_def exact_def watched_def)
  ultimately show ?thesis using s(1) s'(1) by blast
qed

text \<open>One connection after its handshake, and one descriptor in the queue.\<close>

theorem connections_release_witness:
  "\<exists>s s'. resource_run (Inr s) \<and> fds s = {5, 6} \<and> h2s s = {0} \<and> clear_connections (connections s) s = Inr s' \<and>
     fds s' = {6} \<and> active s' = {}"
proof -
  let ?s1 = "no_resources\<lparr>fds := {5}, waiting := [5]\<rparr>"
  let ?c = "\<lparr>socket_fd = 5, ssl_object = 0, h2_session = None, stream_ids = []\<rparr>"
  let ?s2 = "?s1\<lparr>waiting := [], nodelay := {5}, ssls := {0}, made_ssl := 1, active := {(Read_io, 5)}, connections := [?c]\<rparr>"
  let ?s3 = "make_h2 0 0 ?s2"
  let ?s4 = "?s3\<lparr>fds := insert 6 (fds ?s3), waiting := waiting ?s3 @ [6]\<rparr>"
  have 1: "resource_run (Inr ?s1)"
    using resource_run.more [OF resource_run.start resource_step.accepted [of 5]] by (simp add: no_resources_def)
  have "accept_fd 0 True 1 5 (?s1\<lparr>waiting := []\<rparr>) = Inr ?s2"
    by (simp add: accept_fd_def make_socket_nodelay_def create_ssl_session_def new_connection_def no_resources_def)
  then have "resource_step ?s1 (Inr ?s2)" using resource_step.taken [of ?s1 5 "[]" 0 True 1] by simp
  from resource_run.more [OF 1 this] have 2: "resource_run (Inr ?s2)" .
  have 3: "resource_run (Inr ?s3)" by (rule resource_run.more [OF 2 resource_step.handshaken]) simp_all
  have s3: "fds ?s3 = {5}" "waiting ?s3 = []" "h2s ?s3 = {0}"
    by (simp_all add: make_h2_def update_connection_def no_resources_def)
  then have 4: "resource_run (Inr ?s4)" by (intro resource_run.more [OF 3 resource_step.accepted]) simp
  obtain s' where "clear_connections (connections ?s4) ?s4 = Inr s'" "fds s' = set (waiting ?s4)" "active s' = {}"
    using connections_release [OF 4] by auto
  moreover have "fds ?s4 = {5, 6}" "h2s ?s4 = {0}" "waiting ?s4 = [6]" using s3 by auto
  ultimately show ?thesis using 4 by (metis empty_set list.simps(15))
qed

end
