(* ===== verification/Coroutines.thy ===== *)
theory Coroutines
  imports Prelude
begin

text \<open>
  The coroutines handlers and database calls are written as (\<open>task.h\<close>, \<open>awaitabletask.h\<close>,
  \<open>coro.h\<close>): their frames, promises and awaitables, run by a machine with the native stack.

  A body is a \<open>prog\<close>. A frame has a number, its handle; one that was destroyed is no longer in the
  map. The stack holds what runs and, below it, the functions that will be returned to. What the
  outside does with a handle it was given is \<open>answer\<close>.
\<close>

section \<open>Bodies, frames and the machine\<close>

text \<open>
  \<open>co_return v\<close>; \<open>co_return keep_value{}\<close>, which is also what an exception that leaves the body comes
  to, as \<open>unhandled_exception\<close> does nothing; \<open>co_await this_coro()\<close>; handing the handle out (to the
  queue of the database or to the request); \<open>co_await std::suspend_always{}\<close>; \<open>co_await\<close> on the call
  of another coroutine; and a call whose task is dropped at the end of the statement.
\<close>

datatype 'v prog =
    Co_return 'v
  | Keep_value
  | This_coro "'v prog"
  | Give "'v prog"
  | Suspend "'v prog"
  | Await "'v prog" "'v \<Rightarrow> 'v prog"
  | Drop "'v prog" "'v prog"

text \<open>Where a frame is; a frame that awaits holds the \<open>Awaitable\<close> that owns the task awaited.\<close>

datatype 'v point = Running | At_suspend "'v prog" | At_await nat "'v \<Rightarrow> 'v prog" | At_final

record 'v Frame =
  point :: "'v point"
  continuation :: "nat option"
  promise_value :: "'v option"

datatype 'v activation =
    Exec nat "'v prog"
  | Called nat nat "'v \<Rightarrow> 'v prog"
  | Dropping nat nat "'v prog"
  | Resuming nat

record 'v Machine =
  stack :: "'v activation list"
  frames :: "nat \<rightharpoonup> 'v Frame"
  next_frame :: nat
  destroyed :: "nat list"
  handles_given :: "nat list"

text \<open>The call of a coroutine: \<open>initial_suspend\<close> never suspends, so its body is entered.\<close>

definition new_frame :: "'v Frame" where
  "new_frame = \<lparr>point = Running, continuation = None, promise_value = None\<rparr>"

lemma new_frame_simps [simp]: "point new_frame = Running" "continuation new_frame = None" "promise_value new_frame = None"
  by (simp_all add: new_frame_def)

definition call_coroutine :: "'v prog \<Rightarrow> 'v Machine \<Rightarrow> 'v Machine" where
  "call_coroutine p m = m\<lparr>stack := Exec (next_frame m) p # stack m, frames := (frames m)(next_frame m \<mapsto> new_frame),
     next_frame := next_frame m + 1\<rparr>"

definition start_task :: "'v prog \<Rightarrow> 'v Machine" where
  "start_task p = call_coroutine p \<lparr>stack = [], frames = Map.empty, next_frame = 0, destroyed = [], handles_given = []\<rparr>"

definition set_frame :: "nat \<Rightarrow> 'v Frame \<Rightarrow> 'v Machine \<Rightarrow> 'v Machine" where
  "set_frame h fr m = m\<lparr>frames := (frames m)(h \<mapsto> fr)\<rparr>"

text \<open>
  \<open>handle.destroy()\<close>: the locals of a suspended frame are destroyed with it, so also the task it
  awaits. The number bounds the length of such a chain.
\<close>

definition free_frame :: "nat \<Rightarrow> 'v Machine \<Rightarrow> 'v Machine res" where
  "free_frame h m =
     (case frames m h of
        None \<Rightarrow> Inl Undefined
      | Some _ \<Rightarrow> Inr (m\<lparr>frames := (frames m)(h := None), destroyed := destroyed m @ [h]\<rparr>))"

fun destroy_frame :: "nat \<Rightarrow> nat \<Rightarrow> 'v Machine \<Rightarrow> 'v Machine res" where
  "destroy_frame 0 h m = Inl Unfinished"
| "destroy_frame (Suc n) h m =
     (case frames m h of
        None \<Rightarrow> Inl Undefined
      | Some fr \<Rightarrow>
          (case point fr of
             Running \<Rightarrow> Inl Undefined
           | At_await c k \<Rightarrow> bindE (destroy_frame n c m) (free_frame h)
           | _ \<Rightarrow> free_frame h m))"

definition destroy_handle :: "nat \<Rightarrow> 'v Machine \<Rightarrow> 'v Machine res" where
  "destroy_handle h m = destroy_frame (next_frame m) h m"

text \<open>
  \<open>await_resume\<close> and the end of the \<open>co_await\<close> expression: the value is moved out of the promise and
  the \<open>Awaitable\<close> destroys the task.
\<close>

definition await_resume :: "nat \<Rightarrow> nat \<Rightarrow> ('v \<Rightarrow> 'v prog) \<Rightarrow> 'v Machine \<Rightarrow> 'v Machine res" where
  "await_resume h c k m =
     (case frames m c of
        None \<Rightarrow> Inl Undefined
      | Some fr \<Rightarrow>
          (case promise_value fr of
             None \<Rightarrow> Inl Assertion
           | Some v \<Rightarrow> bindE (destroy_handle c m) (\<lambda>m. Inr (m\<lparr>stack := Exec h (k v) # stack m\<rparr>))))"

text \<open>\<open>handle.resume()\<close>.\<close>

definition resume_handle :: "nat \<Rightarrow> 'v Machine \<Rightarrow> 'v Machine res" where
  "resume_handle h m =
     (case frames m h of
        None \<Rightarrow> Inl Undefined
      | Some fr \<Rightarrow>
          let m' = set_frame h (fr\<lparr>point := Running\<rparr>) m in
          (case point fr of
             At_suspend p \<Rightarrow> Inr (m'\<lparr>stack := Exec h p # stack m'\<rparr>)
           | At_await c k \<Rightarrow> await_resume h c k m'
           | _ \<Rightarrow> Inl Undefined))"

text \<open>\<open>final_suspend\<close>: \<open>SuspendAndContinue\<close> resumes the continuation, when there is one.\<close>

definition final_suspend :: "nat \<Rightarrow> 'v option \<Rightarrow> 'v Machine \<Rightarrow> 'v Machine res" where
  "final_suspend h v m =
     (case frames m h of
        None \<Rightarrow> Inl Undefined
      | Some fr \<Rightarrow>
          let m = set_frame h (fr\<lparr>point := At_final, promise_value := v\<rparr>) m in
          (case continuation fr of
             None \<Rightarrow> Inr m
           | Some g \<Rightarrow> resume_handle g (m\<lparr>stack := Resuming h # stack m\<rparr>)))"

section \<open>Running\<close>

text \<open>
  One step. \<open>this_coro()\<close> resumes the coroutine from within its own \<open>await_suspend\<close>, which therefore
  stays on the stack. When a call has returned, \<open>await_ready\<close> asks whether the task is done;
  if not, \<open>await_suspend\<close> makes the caller its continuation and the caller is suspended.
\<close>

definition exec :: "nat \<Rightarrow> 'v prog \<Rightarrow> 'v Machine \<Rightarrow> 'v Machine res" where
  "exec h p m =
     (case frames m h of
        None \<Rightarrow> Inl Undefined
      | Some fr \<Rightarrow>
          (case p of
             Co_return v \<Rightarrow> final_suspend h (Some v) m
           | Keep_value \<Rightarrow> final_suspend h (promise_value fr) m
           | This_coro p \<Rightarrow> Inr (m\<lparr>stack := Exec h p # Resuming h # stack m\<rparr>)
           | Give p \<Rightarrow> Inr (m\<lparr>stack := Exec h p # stack m, handles_given := handles_given m @ [h]\<rparr>)
           | Suspend p \<Rightarrow> Inr (set_frame h (fr\<lparr>point := At_suspend p\<rparr>) m)
           | Await c k \<Rightarrow> Inr (call_coroutine c (m\<lparr>stack := Called h (next_frame m) k # stack m\<rparr>))
           | Drop c p \<Rightarrow> Inr (call_coroutine c (m\<lparr>stack := Dropping h (next_frame m) p # stack m\<rparr>))))"

definition called :: "nat \<Rightarrow> nat \<Rightarrow> ('v \<Rightarrow> 'v prog) \<Rightarrow> 'v Machine \<Rightarrow> 'v Machine res" where
  "called h c k m =
     (case (frames m h, frames m c) of
        (Some fr, Some task) \<Rightarrow>
          (case point task of
             At_final \<Rightarrow> await_resume h c k m
           | _ \<Rightarrow> Inr (set_frame h (fr\<lparr>point := At_await c k\<rparr>) (set_frame c (task\<lparr>continuation := Some h\<rparr>) m)))
      | _ \<Rightarrow> Inl Undefined)"

definition machine_step :: "'v Machine \<Rightarrow> 'v Machine res" where
  "machine_step m =
     (case stack m of
        [] \<Rightarrow> Inr m
      | a # as \<Rightarrow>
          let m = m\<lparr>stack := as\<rparr> in
          (case a of
             Exec h p \<Rightarrow> exec h p m
           | Called h c k \<Rightarrow> called h c k m
           | Dropping h c p \<Rightarrow> bindE (destroy_handle c m) (\<lambda>m. Inr (m\<lparr>stack := Exec h p # stack m\<rparr>))
           | Resuming h \<Rightarrow> Inr m))"

primrec machine_steps :: "nat \<Rightarrow> 'v Machine \<Rightarrow> 'v Machine res" where
  "machine_steps 0 m = Inr m"
| "machine_steps (Suc n) m = bindE (machine_step m) (machine_steps n)"

text \<open>
  The outside has a result for a handle: \<open>promise().value.emplace\<close>, and \<open>resume\<close> when not done.
\<close>

definition answer :: "nat \<Rightarrow> 'v \<Rightarrow> 'v Machine \<Rightarrow> 'v Machine res" where
  "answer h v m =
     (case frames m h of
        None \<Rightarrow> Inl Undefined
      | Some fr \<Rightarrow>
          let m = set_frame h (fr\<lparr>promise_value := Some v\<rparr>) m in
          if point fr = At_final then Inr m else resume_handle h m)"

text \<open>The coroutine \<open>Connection::query\<close> and its like.\<close>

definition ask :: "'v prog" where
  "ask = This_coro (Give (Suspend Keep_value))"

section \<open>Direct meaning\<close>

text \<open>
  A coroutine as the function it is written like: run until it ends, fails the assertion that an awaited
  task has a value, or waits for the outside. What waits is the chain of the awaiting coroutines.
\<close>

datatype 'v rest = Waits "'v prog" "'v option" | Awaits "'v rest" "'v \<Rightarrow> 'v prog" "'v option"

datatype 'v outcome = Fails | Ends "'v option" | Stops "'v rest"

primrec direct :: "'v prog \<Rightarrow> 'v option \<Rightarrow> 'v outcome" where
  "direct (Co_return v) mv = Ends (Some v)"
| "direct Keep_value mv = Ends mv"
| "direct (This_coro p) mv = direct p mv"
| "direct (Give p) mv = direct p mv"
| "direct (Suspend p) mv = Stops (Waits p mv)"
| "direct (Await c k) mv =
     (case direct c None of
        Fails \<Rightarrow> Fails
      | Ends None \<Rightarrow> Fails
      | Ends (Some v) \<Rightarrow> direct (k v) mv
      | Stops r \<Rightarrow> Stops (Awaits r k mv))"
| "direct (Drop c p) mv = (if direct c None = Fails then Fails else direct p mv)"

primrec feed :: "'v \<Rightarrow> 'v rest \<Rightarrow> 'v outcome" where
  "feed v (Waits p mv) = direct p (Some v)"
| "feed v (Awaits r k mv) =
     (case feed v r of
        Fails \<Rightarrow> Fails
      | Ends None \<Rightarrow> Fails
      | Ends (Some w) \<Rightarrow> direct (k w) mv
      | Stops r' \<Rightarrow> Stops (Awaits r' k mv))"

primrec feeds :: "'v list \<Rightarrow> 'v outcome \<Rightarrow> 'v outcome" where
  "feeds [] x = x"
| "feeds (v # vs) x = (case x of Stops r \<Rightarrow> feeds vs (feed v r) | _ \<Rightarrow> x)"

text \<open>A chain of suspended frames stands for what waits; each but the first is continued by the one before.\<close>

fun chain :: "(nat \<rightharpoonup> 'v Frame) \<Rightarrow> nat list \<Rightarrow> 'v rest \<Rightarrow> bool" where
  "chain F [h] (Waits p mv) \<longleftrightarrow> (\<exists>fr. F h = Some fr \<and> point fr = At_suspend p \<and> promise_value fr = mv)"
| "chain F (h # c # hs) (Awaits r k mv) \<longleftrightarrow>
     (\<exists>fr. F h = Some fr \<and> point fr = At_await c k \<and> promise_value fr = mv) \<and>
     (\<exists>fr. F c = Some fr \<and> continuation fr = Some h) \<and> chain F (c # hs) r"
| "chain F hs r \<longleftrightarrow> False"

lemma chain_cong: "(\<And>x. x \<in> set hs \<Longrightarrow> F x = G x) \<Longrightarrow> chain F hs r = chain G hs r"
  by (induction F hs r rule: chain.induct) auto

lemma chain_recontinue:
  assumes "chain F (h # hs) r" and "h \<notin> set hs" and "F h = Some fr"
  shows "chain (F(h \<mapsto> fr\<lparr>continuation := g\<rparr>)) (h # hs) r"
proof (cases hs)
  case Nil
  then show ?thesis using assms by (cases r) auto
next
  case (Cons c cs)
  have "chain (F(h \<mapsto> fr\<lparr>continuation := g\<rparr>)) (c # cs) q = chain F (c # cs) q" for q
    using assms(2) Cons by (intro chain_cong) auto
  then show ?thesis using assms Cons by (cases r) auto
qed

lemma chain_suspended:
  "chain F (h # hs) r \<Longrightarrow> \<exists>fr. F h = Some fr \<and> point fr \<noteq> Running \<and> point fr \<noteq> At_final"
  by (cases "(F, h # hs, r)" rule: chain.cases) auto

lemma chain_nonempty: "chain F hs r \<Longrightarrow> hs \<noteq> []"
  by (cases "(F, hs, r)" rule: chain.cases) auto

lemma chain_destroy:
  "chain (frames m) hs r \<Longrightarrow> distinct hs \<Longrightarrow> length hs \<le> n \<Longrightarrow>
   destroy_frame n (hd hs) m = Inr (m\<lparr>frames := (\<lambda>x. if x \<in> set hs then None else frames m x),
     destroyed := destroyed m @ rev hs\<rparr>)"
proof (induction "frames m" hs r arbitrary: n rule: chain.induct)
  case (1 h p mv)
  then show ?case by (cases n) (auto simp: free_frame_def fun_upd_def)
next
  case (2 h c hs r k mv)
  obtain n' where n: "n = Suc n'" "length (c # hs) \<le> n'" using "2.prems"(3) by (cases n) auto
  have "destroy_frame n' c m = Inr (m\<lparr>frames := (\<lambda>x. if x \<in> set (c # hs) then None else frames m x),
      destroyed := destroyed m @ rev (c # hs)\<rparr>)"
    using "2.hyps" [of n'] "2.prems"(1,2) n(2) by simp
  moreover have "h \<noteq> c" "h \<notin> set hs" using "2.prems"(2) by auto
  ultimately show ?case using "2.prems"(1) n(1) by (auto simp: free_frame_def fun_eq_iff)
qed simp_all

section \<open>What the machine does is what it means\<close>

lemma machine_steps_add: "machine_steps (n + k) m = bindE (machine_steps n m) (machine_steps k)"
proof (induction n arbitrary: m)
  case (Suc n)
  then show ?case by (cases "machine_step m") simp_all
qed simp

lemma machine_steps_none [simp]: "machine_steps 0 = Inr"
  by (simp add: fun_eq_iff)

lemma bindE_return [simp]: "bindE x Inr = x"
  by (cases x) simp_all

lemma steps_idle: "stack m = [] \<Longrightarrow> machine_steps n m = Inr m"
  by (induction n) (simp_all add: machine_step_def)

text \<open>Functions to be returned to that have nothing left to do.\<close>

lemma steps_return: "stack m = map Resuming rs @ st \<Longrightarrow> machine_steps (length rs) m = Inr (m\<lparr>stack := st\<rparr>)"
  by (induction rs arbitrary: m) (simp_all add: machine_step_def)

definition bounded_frames :: "'v Machine \<Rightarrow> bool" where
  "bounded_frames m \<longleftrightarrow> (\<forall>x fr. frames m x = Some fr \<longrightarrow> x < next_frame m)"

text \<open>
  A run from a machine: \<open>n\<close> steps, and then it is what the last argument says. The frame of the
  coroutine that runs is \<open>h\<close>, below it on the stack is \<open>st\<close>.
\<close>

fun meets :: "nat \<Rightarrow> 'v Frame \<Rightarrow> 'v activation list \<Rightarrow> (nat \<rightharpoonup> 'v Frame) \<Rightarrow> nat \<Rightarrow> 'v outcome \<Rightarrow> 'v Machine res \<Rightarrow> bool" where
  "meets h fr st F nxt Fails x \<longleftrightarrow> x = Inl Assertion"
| "meets h fr st F nxt (Ends w) x \<longleftrightarrow>
     (\<exists>rs m. x = final_suspend h w m \<and> stack m = map Resuming rs @ st \<and> frames m = F \<and> nxt \<le> next_frame m)"
| "meets h fr st F nxt (Stops r) x \<longleftrightarrow>
     (\<exists>hs m. x = Inr m \<and> stack m = st \<and> chain (frames m) (h # hs) r \<and>
        continuation (the (frames m h)) = continuation fr \<and> distinct hs \<and> set hs \<subseteq> {nxt..<next_frame m} \<and>
        nxt \<le> next_frame m \<and> (\<forall>x. x \<notin> set (h # hs) \<longrightarrow> frames m x = F x))"

text \<open>The same for a coroutine just called: nothing continues it, so its end returns to the caller.\<close>

fun returns :: "nat \<Rightarrow> 'v activation list \<Rightarrow> (nat \<rightharpoonup> 'v Frame) \<Rightarrow> 'v outcome \<Rightarrow> 'v Machine res \<Rightarrow> bool" where
  "returns h st F Fails x \<longleftrightarrow> x = Inl Assertion"
| "returns h st F (Ends w) x \<longleftrightarrow>
     (\<exists>m. x = Inr m \<and> stack m = st \<and> h < next_frame m \<and>
        frames m = F(h \<mapsto> \<lparr>point = At_final, continuation = None, promise_value = w\<rparr>))"
| "returns h st F (Stops r) x \<longleftrightarrow>
     (\<exists>hs m. x = Inr m \<and> stack m = st \<and> chain (frames m) (h # hs) r \<and> continuation (the (frames m h)) = None \<and>
        distinct (h # hs) \<and> set hs \<subseteq> {h<..<next_frame m} \<and> h < next_frame m \<and>
        (\<forall>x. x \<notin> set (h # hs) \<longrightarrow> frames m x = F x))"

lemma meets_returns:
  assumes "meets h new_frame st (F(h \<mapsto> new_frame)) (h + 1) y (machine_steps i m)"
  shows "\<exists>i. returns h st F y (machine_steps i m)"
proof (cases y)
  case Fails
  then show ?thesis using assms by auto
next
  case (Ends w)
  then obtain rs m1 where m1: "machine_steps i m = final_suspend h w m1" "stack m1 = map Resuming rs @ st"
    "frames m1 = F(h \<mapsto> new_frame)" "h < next_frame m1" using assms by auto
  let ?m = "set_frame h \<lparr>point = At_final, continuation = None, promise_value = w\<rparr> m1"
  have "machine_steps i m = Inr ?m"
    using m1(1,3) by (simp add: final_suspend_def new_frame_def)
  moreover have "machine_steps (length rs) ?m = Inr (?m\<lparr>stack := st\<rparr>)"
    using m1(2) by (intro steps_return) (simp add: set_frame_def)
  ultimately have "machine_steps (i + length rs) m = Inr (?m\<lparr>stack := st\<rparr>)" by (simp add: machine_steps_add)
  then show ?thesis using Ends m1(3,4) by (intro exI [of _ "i + length rs"]) (simp add: set_frame_def)
next
  case (Stops r)
  then obtain hs m1 where m1: "machine_steps i m = Inr m1" "stack m1 = st" "chain (frames m1) (h # hs) r"
    "continuation (the (frames m1 h)) = None" "distinct hs" "set hs \<subseteq> {h + 1..<next_frame m1}" "h + 1 \<le> next_frame m1"
    "\<forall>x. x \<notin> set (h # hs) \<longrightarrow> frames m1 x = (F(h \<mapsto> new_frame)) x"
    using assms by (auto simp: new_frame_def)
  then have "returns h st F y (machine_steps i m)" unfolding Stops
    by (auto simp: Suc_le_eq intro!: exI [of _ hs] exI [of _ m1])
  then show ?thesis by blast
qed

text \<open>Popping what has nothing to do, and taking a step before.\<close>

lemma meets_returned:
  assumes "meets h fr (map Resuming rs @ st) F nxt y (machine_steps n m)"
  shows "\<exists>n. meets h fr st F nxt y (machine_steps n m)"
proof (cases y)
  case Fails
  then show ?thesis using assms by auto
next
  case (Ends w)
  then obtain rs' m1 where "machine_steps n m = final_suspend h w m1" "stack m1 = map Resuming (rs' @ rs) @ st"
    "frames m1 = F" "nxt \<le> next_frame m1" using assms by auto
  then have "meets h fr st F nxt y (machine_steps n m)" unfolding Ends meets.simps by blast
  then show ?thesis by blast
next
  case (Stops r)
  then obtain hs m1 where m1: "machine_steps n m = Inr m1" "stack m1 = map Resuming rs @ st" "chain (frames m1) (h # hs) r"
    "continuation (the (frames m1 h)) = continuation fr" "distinct hs" "set hs \<subseteq> {nxt..<next_frame m1}" "nxt \<le> next_frame m1"
    "\<forall>x. x \<notin> set (h # hs) \<longrightarrow> frames m1 x = F x"
    using assms unfolding Stops meets.simps by blast
  have "machine_steps (n + length rs) m = Inr (m1\<lparr>stack := st\<rparr>)"
    using m1(1) steps_return [OF m1(2)] by (simp add: machine_steps_add)
  then show ?thesis unfolding Stops using m1(3-8)
    by (intro exI [of _ "n + length rs"]) (auto intro!: exI [of _ hs])
qed

lemma meets_later:
  assumes "machine_steps i m = Inr m'" and "meets h fr st F nxt y (machine_steps n m')"
  shows "\<exists>n. meets h fr st F nxt y (machine_steps n m)"
proof -
  have "machine_steps (i + n) m = machine_steps n m'" using assms(1) by (simp add: machine_steps_add)
  then show ?thesis using assms(2) by (intro exI [of _ "i + n"]) simp
qed

text \<open>What \<open>called\<close> does when the call has returned.\<close>

lemma called_ended:
  assumes "stack m = Called h n k # st" and "frames m = F(n \<mapsto> \<lparr>point = At_final, continuation = None, promise_value = w\<rparr>)"
    and "n < next_frame m" and "F n = None" and "F h = Some fr"
  shows "case w of None \<Rightarrow> machine_step m = Inl Assertion
    | Some v \<Rightarrow> \<exists>m'. machine_step m = Inr m' \<and> stack m' = Exec h (k v) # st \<and> frames m' = F \<and> next_frame m' = next_frame m"
proof -
  obtain j where j: "next_frame m = Suc j" using assms(3) by (cases "next_frame m") auto
  have "h \<noteq> n" using assms(4,5) by auto
  then show ?thesis using assms j
    by (auto simp: machine_step_def called_def await_resume_def destroy_handle_def free_frame_def split: option.splits)
qed

lemma called_stopped:
  assumes "stack m = Called h n k # st" and "chain (frames m) (n # hs) r" and "frames m h = Some fr" and "distinct (h # n # hs)"
  shows "\<exists>m'. machine_step m = Inr m' \<and> stack m' = st \<and> chain (frames m') (h # n # hs) (Awaits r k (promise_value fr)) \<and>
    continuation (the (frames m' h)) = continuation fr \<and> next_frame m' = next_frame m \<and>
    (\<forall>x. x \<notin> {h, n} \<longrightarrow> frames m' x = frames m x)"
proof -
  obtain t where t: "frames m n = Some t" "point t \<noteq> At_final" using chain_suspended [OF assms(2)] by blast
  let ?m = "set_frame h (fr\<lparr>point := At_await n k\<rparr>) (set_frame n (t\<lparr>continuation := Some h\<rparr>) (m\<lparr>stack := st\<rparr>))"
  have "machine_step m = Inr ?m"
    using assms(1,3) t by (cases "point t") (simp_all add: machine_step_def called_def)
  moreover have "chain ((frames m)(n \<mapsto> t\<lparr>continuation := Some h\<rparr>)) (n # hs) r"
    using chain_recontinue [OF assms(2) _ t(1)] assms(4) by simp
  moreover have "chain (frames ?m) (n # hs) r = chain ((frames m)(n \<mapsto> t\<lparr>continuation := Some h\<rparr>)) (n # hs) r"
    by (rule chain_cong) (use assms(4) in \<open>auto simp: set_frame_def\<close>)
  ultimately show ?thesis using assms(4) by (intro exI [of _ ?m]) (auto simp: set_frame_def)
qed

lemma meets_less:
  assumes "meets h fr st F nxt y x" and "nxt' \<le> nxt"
  shows "meets h fr st F nxt' y x"
proof (cases y)
  case (Ends w)
  then show ?thesis using assms order_trans [of nxt' nxt] unfolding Ends meets.simps by blast
next
  case (Stops r)
  then obtain hs m where m: "x = Inr m" "stack m = st" "chain (frames m) (h # hs) r"
    "continuation (the (frames m h)) = continuation fr" "distinct hs" "set hs \<subseteq> {nxt..<next_frame m}" "nxt \<le> next_frame m"
    "\<forall>x. x \<notin> set (h # hs) \<longrightarrow> frames m x = F x" using assms(1) unfolding Stops meets.simps by blast
  have "set hs \<subseteq> {nxt'..<next_frame m}" "nxt' \<le> next_frame m" using m(6,7) assms(2) by auto
  then show ?thesis unfolding Stops meets.simps using m(1-5,8) by blast
qed (use assms in simp)

text \<open>The induction hypothesis about a body.\<close>

definition runs_directly :: "'v prog \<Rightarrow> bool" where
  "runs_directly p \<longleftrightarrow> (\<forall>m h st fr. stack m = Exec h p # st \<longrightarrow> frames m h = Some fr \<longrightarrow> point fr = Running \<longrightarrow>
     bounded_frames m \<longrightarrow> (\<exists>n. meets h fr st (frames m) (next_frame m) (direct p (promise_value fr)) (machine_steps n m)))"

lemma runs_directlyD:
  "runs_directly p \<Longrightarrow> stack m = Exec h p # st \<Longrightarrow> frames m h = Some fr \<Longrightarrow> point fr = Running \<Longrightarrow> bounded_frames m \<Longrightarrow>
   \<exists>n. meets h fr st (frames m) (next_frame m) (direct p (promise_value fr)) (machine_steps n m)"
  by (simp add: runs_directly_def)

lemma call_returns:
  assumes "runs_directly c" and "bounded_frames m"
  shows "\<exists>i. returns (next_frame m) (stack m) (frames m) (direct c None) (machine_steps i (call_coroutine c m))"
proof -
  let ?m = "call_coroutine c m"
  have "bounded_frames ?m" using assms(2) by (auto simp: bounded_frames_def call_coroutine_def less_Suc_eq)
  then have "\<exists>n. meets (next_frame m) new_frame (stack m) ((frames m)(next_frame m \<mapsto> new_frame)) (next_frame m + 1)
       (direct c None) (machine_steps n ?m)"
    using runs_directlyD [OF assms(1), of ?m "next_frame m" "stack m" new_frame] by (simp add: call_coroutine_def)
  then show ?thesis using meets_returns by blast
qed

lemma bounded_free: "bounded_frames m \<Longrightarrow> frames m (next_frame m) = None"
  by (cases "frames m (next_frame m)") (auto simp: bounded_frames_def)

text \<open>After a call, the rest of the caller.\<close>

lemma meets_after:
  assumes "runs_directly p" and "machine_steps i m = Inr m'" and "stack m' = Exec h p # st" and "frames m' = frames m"
    and "next_frame m \<le> next_frame m'" and "frames m h = Some fr" and "point fr = Running" and "bounded_frames m"
  shows "\<exists>n. meets h fr st (frames m) (next_frame m) (direct p (promise_value fr)) (machine_steps n m)"
proof -
  have "bounded_frames m'" using assms(4,5,8) by (fastforce simp: bounded_frames_def)
  from runs_directlyD [OF assms(1,3) _ assms(7) this] assms(4,6)
  obtain n where "meets h fr st (frames m) (next_frame m') (direct p (promise_value fr)) (machine_steps n m')" by auto
  from meets_later [OF assms(2) meets_less [OF this assms(5)]] show ?thesis .
qed

lemma await_meets:
  assumes "runs_directly c" and "\<And>v. runs_directly (k v)"
    and m: "stack m = Exec h (Await c k) # st" "frames m h = Some fr" "point fr = Running" "bounded_frames m"
  shows "\<exists>n. meets h fr st (frames m) (next_frame m) (direct (Await c k) (promise_value fr)) (machine_steps n m)"
proof -
  let ?n = "next_frame m"
  let ?c = "m\<lparr>stack := Called h ?n k # st\<rparr>"
  have 1: "machine_steps 1 m = Inr (call_coroutine c ?c)" using m by (simp add: machine_step_def exec_def)
  have lt: "h < ?n" using m(2,4) by (simp add: bounded_frames_def)
  have "bounded_frames ?c" using m(4) by (simp add: bounded_frames_def)
  from call_returns [OF assms(1) this] obtain i where
    ret: "returns ?n (Called h ?n k # st) (frames m) (direct c None) (machine_steps i (call_coroutine c ?c))" by auto
  have more: "machine_steps (1 + i + j) m = bindE (machine_steps i (call_coroutine c ?c)) (machine_steps j)" for j
    unfolding machine_steps_add 1 by simp
  show ?thesis
  proof (cases "direct c None")
    case Fails
    then show ?thesis using ret more [of 0] by (intro exI [of _ "1 + i + 0"]) (simp only: returns.simps direct.simps meets.simps bindE.simps outcome.case)
  next
    case (Ends w)
    then obtain m1 where m1: "machine_steps i (call_coroutine c ?c) = Inr m1" "stack m1 = Called h ?n k # st" "?n < next_frame m1"
      "frames m1 = (frames m)(?n \<mapsto> \<lparr>point = At_final, continuation = None, promise_value = w\<rparr>)" using ret by auto
    note after = called_ended [OF m1(2,4,3) bounded_free [OF m(4)] m(2)]
    have steps: "machine_steps (1 + i + 1) m = machine_step m1" using more [of 1] m1(1) by simp
    show ?thesis
    proof (cases w)
      case None
      then have "machine_steps (1 + i + 1) m = Inl Assertion" using steps after by simp
      then show ?thesis using Ends None by (intro exI [of _ "1 + i + 1"]) (simp only: direct.simps meets.simps outcome.case option.case)
    next
      case (Some v)
      then obtain m2 where m2: "machine_step m1 = Inr m2" "stack m2 = Exec h (k v) # st" "frames m2 = frames m"
        "next_frame m2 = next_frame m1" using after by auto
      have "machine_steps (1 + i + 1) m = Inr m2" using steps m2(1) by simp
      from meets_after [OF assms(2) this m2(2,3) _ m(2-4)] m1(3) m2(4) Ends Some show ?thesis by simp
    qed
  next
    case (Stops r)
    then obtain hs m1 where m1: "machine_steps i (call_coroutine c ?c) = Inr m1" "stack m1 = Called h ?n k # st"
      "chain (frames m1) (?n # hs) r" "distinct (?n # hs)" "set hs \<subseteq> {?n<..<next_frame m1}" "?n < next_frame m1"
      "\<forall>x. x \<notin> set (?n # hs) \<longrightarrow> frames m1 x = frames m x" using ret by auto
    have "h \<notin> set (?n # hs)" using m1(5) lt by auto
    then have "frames m1 h = Some fr" "distinct (h # ?n # hs)" using m1(4,7) m(2) by auto
    from called_stopped [OF m1(2,3) this] obtain m2 where m2: "machine_step m1 = Inr m2" "stack m2 = st"
      "chain (frames m2) (h # ?n # hs) (Awaits r k (promise_value fr))"
      "continuation (the (frames m2 h)) = continuation fr" "next_frame m2 = next_frame m1"
      "\<forall>x. x \<notin> {h, ?n} \<longrightarrow> frames m2 x = frames m1 x" by blast
    have e: "machine_steps (1 + i + 1) m = Inr m2" using more [of 1] m1(1) m2(1) by simp
    have f: "set (?n # hs) \<subseteq> {?n..<next_frame m2}" "?n \<le> next_frame m2" using m1(5,6) m2(5) by auto
    have g: "\<forall>x. x \<notin> set (h # ?n # hs) \<longrightarrow> frames m2 x = frames m x" using m1(7) m2(6) by simp
    have "meets h fr st (frames m) ?n (Stops (Awaits r k (promise_value fr))) (machine_steps (1 + i + 1) m)"
      unfolding meets.simps
      by (intro exI [of _ "?n # hs"] exI [of _ m2] conjI e m2(2-4) f g m1(4))
    then show ?thesis using Stops by (intro exI [of _ "1 + i + 1"]) (simp only: direct.simps outcome.case)
  qed
qed

text \<open>A call whose task is dropped: the whole chain that waits is destroyed.\<close>

lemma dropped:
  assumes "stack m = Dropping h n p # st" and "chain (frames m) (n # hs) r" and "distinct (n # hs)"
    and "set (n # hs) \<subseteq> {..<next_frame m}" and "\<forall>x. x \<notin> set (n # hs) \<longrightarrow> frames m x = F x"
    and "\<forall>x \<in> set (n # hs). F x = None"
  shows "\<exists>m'. machine_step m = Inr m' \<and> stack m' = Exec h p # st \<and> frames m' = F \<and> next_frame m' = next_frame m"
proof -
  have "card (set (n # hs)) \<le> card {..<next_frame m}" using assms(4) by (intro card_mono) auto
  then have "length (n # hs) \<le> next_frame m" using distinct_card [OF assms(3)] by simp
  have "chain (frames (m\<lparr>stack := st\<rparr>)) (n # hs) r" using assms(2) by simp
  note d = chain_destroy [OF this assms(3) \<open>length (n # hs) \<le> next_frame m\<close>]
  have "(\<lambda>x. if x \<in> set (n # hs) then None else frames (m\<lparr>stack := st\<rparr>) x) = F"
    using assms(5,6) by (auto simp: fun_eq_iff)
  then show ?thesis using assms(1) d by (simp add: machine_step_def destroy_handle_def)
qed

lemma dropped_ended:
  assumes "stack m = Dropping h n p # st" and "frames m = F(n \<mapsto> \<lparr>point = At_final, continuation = None, promise_value = w\<rparr>)"
    and "n < next_frame m" and "F n = None"
  shows "\<exists>m'. machine_step m = Inr m' \<and> stack m' = Exec h p # st \<and> frames m' = F \<and> next_frame m' = next_frame m"
proof -
  obtain j where j: "next_frame m = Suc j" using assms(3) by (cases "next_frame m") auto
  then show ?thesis using assms by (auto simp: machine_step_def destroy_handle_def free_frame_def)
qed

lemma drop_meets:
  assumes "runs_directly c" and "runs_directly p"
    and m: "stack m = Exec h (Drop c p) # st" "frames m h = Some fr" "point fr = Running" "bounded_frames m"
  shows "\<exists>n. meets h fr st (frames m) (next_frame m) (direct (Drop c p) (promise_value fr)) (machine_steps n m)"
proof -
  let ?n = "next_frame m"
  let ?c = "m\<lparr>stack := Dropping h ?n p # st\<rparr>"
  have 1: "machine_steps 1 m = Inr (call_coroutine c ?c)" using m by (simp add: machine_step_def exec_def)
  have "bounded_frames ?c" using m(4) by (simp add: bounded_frames_def)
  from call_returns [OF assms(1) this] obtain i where
    ret: "returns ?n (Dropping h ?n p # st) (frames m) (direct c None) (machine_steps i (call_coroutine c ?c))" by auto
  have more: "machine_steps (1 + i + j) m = bindE (machine_steps i (call_coroutine c ?c)) (machine_steps j)" for j
    unfolding machine_steps_add 1 by simp
  show ?thesis
  proof (cases "direct c None")
    case Fails
    then show ?thesis using ret more [of 0] by (intro exI [of _ "1 + i + 0"]) (simp only: returns.simps direct.simps meets.simps bindE.simps if_True refl)
  next
    case (Ends w)
    then obtain m1 where m1: "machine_steps i (call_coroutine c ?c) = Inr m1" "stack m1 = Dropping h ?n p # st" "?n < next_frame m1"
      "frames m1 = (frames m)(?n \<mapsto> \<lparr>point = At_final, continuation = None, promise_value = w\<rparr>)" using ret by auto
    from dropped_ended [OF m1(2,4,3) bounded_free [OF m(4)]] obtain m2 where
      m2: "machine_step m1 = Inr m2" "stack m2 = Exec h p # st" "frames m2 = frames m" "next_frame m2 = next_frame m1" by blast
    have "machine_steps (1 + i + 1) m = Inr m2" using more [of 1] m1(1) m2(1) by simp
    from meets_after [OF assms(2) this m2(2,3) _ m(2-4)] m1(3) m2(4) Ends show ?thesis by simp
  next
    case (Stops r)
    then obtain hs m1 where m1: "machine_steps i (call_coroutine c ?c) = Inr m1" "stack m1 = Dropping h ?n p # st"
      "chain (frames m1) (?n # hs) r" "distinct (?n # hs)" "set hs \<subseteq> {?n<..<next_frame m1}" "?n < next_frame m1"
      "\<forall>x. x \<notin> set (?n # hs) \<longrightarrow> frames m1 x = frames m x" using ret by auto
    have "set (?n # hs) \<subseteq> {..<next_frame m1}" using m1(5,6) by auto
    moreover have "\<forall>x \<in> set (?n # hs). frames m x = None"
      using m1(5) m(4) by (fastforce simp: bounded_frames_def)
    ultimately obtain m2 where
      m2: "machine_step m1 = Inr m2" "stack m2 = Exec h p # st" "frames m2 = frames m" "next_frame m2 = next_frame m1"
      using dropped [OF m1(2-4) _ m1(7)] by blast
    have "machine_steps (1 + i + 1) m = Inr m2" using more [of 1] m1(1) m2(1) by simp
    from meets_after [OF assms(2) this m2(2,3) _ m(2-4)] m1(6) m2(4) Stops show ?thesis by simp
  qed
qed

lemma simple_meets:
  assumes m: "stack m = Exec h p # st" "frames m h = Some fr" "point fr = Running" "bounded_frames m"
  shows "p = Co_return v \<Longrightarrow> meets h fr st (frames m) (next_frame m) (Ends (Some v)) (machine_steps 1 m)"
    and "p = Keep_value \<Longrightarrow> meets h fr st (frames m) (next_frame m) (Ends (promise_value fr)) (machine_steps 1 m)"
    and "p = Suspend q \<Longrightarrow> meets h fr st (frames m) (next_frame m) (Stops (Waits q (promise_value fr))) (machine_steps 1 m)"
proof -
  show "p = Co_return v \<Longrightarrow> meets h fr st (frames m) (next_frame m) (Ends (Some v)) (machine_steps 1 m)"
    "p = Keep_value \<Longrightarrow> meets h fr st (frames m) (next_frame m) (Ends (promise_value fr)) (machine_steps 1 m)"
    unfolding meets.simps using m
    by (intro exI [of _ "[]"] exI [of _ "m\<lparr>stack := st\<rparr>"], simp add: machine_step_def exec_def)+
  assume "p = Suspend q"
  then show "meets h fr st (frames m) (next_frame m) (Stops (Waits q (promise_value fr))) (machine_steps 1 m)"
    unfolding meets.simps using m
    by (intro exI [of _ "[]"] exI [of _ "set_frame h (fr\<lparr>point := At_suspend q\<rparr>) (m\<lparr>stack := st\<rparr>)"])
      (simp add: machine_step_def exec_def set_frame_def)
qed

lemma all_run_directly: "runs_directly p"
proof (induction p)
  case (Co_return v)
  show ?case unfolding runs_directly_def using simple_meets(1) by (metis direct.simps(1))
next
  case Keep_value
  show ?case unfolding runs_directly_def using simple_meets(2) by (metis direct.simps(2))
next
  case (This_coro p)
  show ?case unfolding runs_directly_def
  proof (intro allI impI)
    fix m :: "'a Machine" and h st fr
    assume m: "stack m = Exec h (This_coro p) # st" "frames m h = Some fr" "point fr = Running" "bounded_frames m"
    let ?m = "m\<lparr>stack := Exec h p # map Resuming [h] @ st\<rparr>"
    have 1: "machine_steps 1 m = Inr ?m" using m by (simp add: machine_step_def exec_def)
    have "bounded_frames ?m" using m(4) by (simp add: bounded_frames_def)
    from runs_directlyD [OF This_coro _ _ m(3) this, of h "map Resuming [h] @ st"] m(2)
    obtain n where "meets h fr (map Resuming [h] @ st) (frames m) (next_frame m) (direct p (promise_value fr)) (machine_steps n ?m)"
      by auto
    then show "\<exists>n. meets h fr st (frames m) (next_frame m) (direct (This_coro p) (promise_value fr)) (machine_steps n m)"
      using meets_returned meets_later [OF 1] by (metis direct.simps(3))
  qed
next
  case (Give p)
  show ?case unfolding runs_directly_def
  proof (intro allI impI)
    fix m :: "'a Machine" and h st fr
    assume m: "stack m = Exec h (Give p) # st" "frames m h = Some fr" "point fr = Running" "bounded_frames m"
    let ?m = "m\<lparr>stack := Exec h p # st, handles_given := handles_given m @ [h]\<rparr>"
    have "machine_steps 1 m = Inr ?m" using m by (simp add: machine_step_def exec_def)
    from meets_after [OF Give this _ _ _ m(2-4)]
    show "\<exists>n. meets h fr st (frames m) (next_frame m) (direct (Give p) (promise_value fr)) (machine_steps n m)" by simp
  qed
next
  case (Suspend p)
  show ?case unfolding runs_directly_def using simple_meets(3) by (metis direct.simps(5))
next
  case (Await c k)
  show ?case unfolding runs_directly_def by (intro allI impI await_meets) (use Await in auto)
next
  case (Drop c p)
  show ?case unfolding runs_directly_def by (intro allI impI drop_meets) (use Drop in auto)
qed

section \<open>What happens when the outside answers\<close>

lemma meets_cong: "continuation fr = continuation fr' \<Longrightarrow> meets h fr st F nxt y x = meets h fr' st F nxt y x"
  by (cases y) simp_all

lemma resume_after_final:
  assumes "stack m = map Resuming rs @ st" and "frames m c = Some frc" and "continuation frc = Some h"
    and "frames m h = Some fr" and "point fr = At_await c k" and "h \<noteq> c" and "bounded_frames m"
  shows "case w of None \<Rightarrow> final_suspend c w m = Inl Assertion
    | Some v \<Rightarrow> \<exists>m'. final_suspend c w m = Inr m' \<and> stack m' = Exec h (k v) # map Resuming (c # rs) @ st \<and>
        frames m' = (frames m)(c := None, h \<mapsto> fr\<lparr>point := Running\<rparr>) \<and> next_frame m' = next_frame m"
proof -
  have "c < next_frame m" using assms(2,7) by (simp add: bounded_frames_def)
  then obtain j where j: "next_frame m = Suc j" by (cases "next_frame m") auto
  then show ?thesis using assms
    by (auto simp: final_suspend_def resume_handle_def set_frame_def await_resume_def destroy_handle_def free_frame_def
        fun_upd_twist split: option.splits)
qed

lemma answer_leaf:
  assumes "frames m h = Some fr" and "point fr = At_suspend p"
  shows "answer h v m = Inr (m\<lparr>stack := Exec h p # stack m,
    frames := (frames m)(h \<mapsto> fr\<lparr>promise_value := Some v, point := Running\<rparr>)\<rparr>)"
  using assms by (simp add: answer_def resume_handle_def set_frame_def)

text \<open>The frames that are left when all of the chain but its first has gone.\<close>

definition left_of :: "nat \<Rightarrow> nat list \<Rightarrow> 'v Frame \<Rightarrow> (nat \<rightharpoonup> 'v Frame) \<Rightarrow> (nat \<rightharpoonup> 'v Frame) \<Rightarrow> bool" where
  "left_of h hs fr G F \<longleftrightarrow> (\<exists>fr'. F h = Some fr' \<and> continuation fr' = continuation fr) \<and>
     (\<forall>x. x \<noteq> h \<longrightarrow> F x = (if x \<in> set hs then None else G x))"

text \<open>After an answer the chain may have kept some of its frames \<open>hs\<close>.\<close>

fun replies ::
  "nat \<Rightarrow> nat list \<Rightarrow> 'v Frame \<Rightarrow> 'v activation list \<Rightarrow> (nat \<rightharpoonup> 'v Frame) \<Rightarrow> nat \<Rightarrow> 'v outcome \<Rightarrow> 'v Machine res \<Rightarrow> bool"
where
  "replies h hs fr st F nxt Fails x \<longleftrightarrow> x = Inl Assertion"
| "replies h hs fr st F nxt (Ends w) x \<longleftrightarrow>
     (\<exists>rs m. x = final_suspend h w m \<and> stack m = map Resuming rs @ st \<and> frames m = F \<and> nxt \<le> next_frame m)"
| "replies h hs fr st F nxt (Stops r) x \<longleftrightarrow>
     (\<exists>hs' m. x = Inr m \<and> stack m = st \<and> chain (frames m) (h # hs') r \<and>
        continuation (the (frames m h)) = continuation fr \<and> distinct hs' \<and> h \<notin> set hs' \<and>
        set hs' \<subseteq> set hs \<union> {nxt..<next_frame m} \<and>
        nxt \<le> next_frame m \<and> (\<forall>x. x \<notin> set (h # hs') \<longrightarrow> frames m x = F x))"

lemma meets_replies:
  assumes "meets h fr st F nxt y x" and "h < nxt"
  shows "replies h hs fr st F nxt y x"
proof (cases y)
  case (Stops r)
  then obtain hs' m where m: "x = Inr m" "stack m = st" "chain (frames m) (h # hs') r"
    "continuation (the (frames m h)) = continuation fr" "distinct hs'" "set hs' \<subseteq> {nxt..<next_frame m}" "nxt \<le> next_frame m"
    "\<forall>x. x \<notin> set (h # hs') \<longrightarrow> frames m x = F x" using assms(1) unfolding Stops meets.simps by blast
  have "h \<notin> set hs'" "set hs' \<subseteq> set hs \<union> {nxt..<next_frame m}" using m(6) assms(2) by auto
  then show ?thesis unfolding Stops replies.simps using m(1-5,7,8) by blast
qed (use assms in simp_all)

lemma answer_meets:
  assumes "chain (frames m) (h # hs) r" and "distinct (h # hs)" and "bounded_frames m" and "frames m h = Some fr"
  shows "\<exists>n F. left_of h hs fr (frames m) F \<and>
    replies h hs fr (stack m) F (next_frame m) (feed v r) (bindE (answer (last (h # hs)) v m) (machine_steps n))"
  using assms
proof (induction r arbitrary: h hs fr)
  case (Waits p mv)
  have hs: "hs = []" using Waits.prems(1) by (cases hs) auto
  then have p: "point fr = At_suspend p" using Waits.prems(1,4) by simp
  let ?fr = "fr\<lparr>promise_value := Some v, point := Running\<rparr>"
  let ?m = "m\<lparr>stack := Exec h p # stack m, frames := (frames m)(h \<mapsto> ?fr)\<rparr>"
  have "bounded_frames ?m" using Waits.prems(3,4) by (auto simp: bounded_frames_def)
  from runs_directlyD [OF all_run_directly, of ?m h p "stack m" ?fr] this obtain n where
    n: "meets h ?fr (stack m) ((frames m)(h \<mapsto> ?fr)) (next_frame m) (direct p (Some v)) (machine_steps n ?m)" by auto
  have "meets h fr (stack m) ((frames m)(h \<mapsto> ?fr)) (next_frame m) (feed v (Waits p mv)) (machine_steps n ?m)"
    using n meets_cong [of fr ?fr] by simp
  moreover have "h < next_frame m" using Waits.prems(3,4) by (simp add: bounded_frames_def)
  ultimately have "replies h hs fr (stack m) ((frames m)(h \<mapsto> ?fr)) (next_frame m) (feed v (Waits p mv)) (machine_steps n ?m)"
    by (rule meets_replies)
  moreover have "bindE (answer (last (h # hs)) v m) (machine_steps n) = machine_steps n ?m"
    using answer_leaf [OF Waits.prems(4) p] hs by simp
  moreover have "left_of h hs fr (frames m) ((frames m)(h \<mapsto> ?fr))" by (simp add: left_of_def hs)
  ultimately show ?case by metis
next
  case (Awaits r k mv)
  obtain c cs where hs: "hs = c # cs" using Awaits.prems(1) by (cases hs) auto
  obtain frc where c: "frames m c = Some frc" "continuation frc = Some h" "chain (frames m) (c # cs) r"
    and h: "point fr = At_await c k" "promise_value fr = mv"
    using Awaits.prems(1,4) hs by auto
  have dist: "distinct (c # cs)" "h \<noteq> c" "h \<notin> set cs" using Awaits.prems(2) hs by auto
  have lt: "h < next_frame m" using Awaits.prems(3,4) by (simp add: bounded_frames_def)
  let ?a = "answer (last (h # hs)) v m"
  from Awaits.IH [OF c(3) dist(1) Awaits.prems(3) c(1)] hs obtain n F where
    F: "left_of c cs frc (frames m) F" and
    n: "replies c cs frc (stack m) F (next_frame m) (feed v r) (bindE ?a (machine_steps n))" by auto
  obtain frc' where Fc: "F c = Some frc'" "continuation frc' = Some h" using F c(2) by (auto simp: left_of_def)
  have Fh: "F h = Some fr" using F dist Awaits.prems(4) by (simp add: left_of_def)
  have more: "bindE ?a (machine_steps (n + j)) = bindE (bindE ?a (machine_steps n)) (machine_steps j)" for j
    by (cases ?a) (simp_all add: machine_steps_add)
  have left: "left_of h hs fr (frames m) (F(c := None, h \<mapsto> fr\<lparr>point := Running\<rparr>))"
    using F hs dist by (auto simp: left_of_def)
  show ?case
  proof (cases "feed v r")
    case Fails
    then have "replies h hs fr (stack m) (F(c := None, h \<mapsto> fr\<lparr>point := Running\<rparr>)) (next_frame m) (feed v (Awaits r k mv))
        (bindE ?a (machine_steps n))" using n by simp
    then show ?thesis using left by blast
  next
    case (Ends w)
    then obtain rs m1 where m1: "bindE ?a (machine_steps n) = final_suspend c w m1" "stack m1 = map Resuming rs @ stack m"
      "frames m1 = F" "next_frame m \<le> next_frame m1" using n by auto
    have bF: "bounded_frames m1"
      unfolding bounded_frames_def m1(3)
    proof (intro allI impI)
      fix x fr1 assume x: "F x = Some fr1"
      then have "frames m x \<noteq> None" using F c(1) by (cases "x = c") (auto simp: left_of_def split: if_splits)
      then show "x < next_frame m1" using Awaits.prems(3) m1(4) by (fastforce simp: bounded_frames_def)
    qed
    note after = resume_after_final [OF m1(2) _ Fc(2) _ h(1) dist(2) bF, of w] m1(3)
    show ?thesis
    proof (cases w)
      case None
      then have "replies h hs fr (stack m) (F(c := None, h \<mapsto> fr\<lparr>point := Running\<rparr>)) (next_frame m) (feed v (Awaits r k mv))
          (bindE ?a (machine_steps n))" using m1(1,3) after Ends Fc(1) Fh by simp
      then show ?thesis using left by blast
    next
      case (Some u)
      then obtain m2 where m2: "bindE ?a (machine_steps n) = Inr m2"
        "stack m2 = Exec h (k u) # map Resuming (c # rs) @ stack m"
        "frames m2 = F(c := None, h \<mapsto> fr\<lparr>point := Running\<rparr>)" "next_frame m2 = next_frame m1"
        using m1(1,3) after Fc(1) Fh by auto
      have "bounded_frames m2" using bF m1(3) m2(3,4) lt m1(4) by (fastforce simp: bounded_frames_def split: if_splits)
      from runs_directlyD [OF all_run_directly m2(2) _ _ this, of "fr\<lparr>point := Running\<rparr>"] m2(3) h(2)
      obtain j where "meets h (fr\<lparr>point := Running\<rparr>) (map Resuming (c # rs) @ stack m) (frames m2) (next_frame m2)
          (direct (k u) mv) (machine_steps j m2)" by auto
      from meets_returned [OF this] obtain j where
        "meets h (fr\<lparr>point := Running\<rparr>) (stack m) (frames m2) (next_frame m2) (direct (k u) mv) (machine_steps j m2)" ..
      then have "meets h fr (stack m) (frames m2) (next_frame m2) (direct (k u) mv) (machine_steps j m2)"
        using meets_cong [of fr "fr\<lparr>point := Running\<rparr>"] by simp
      then have "meets h fr (stack m) (frames m2) (next_frame m) (direct (k u) mv) (machine_steps j m2)"
        using meets_less m1(4) m2(4) by metis
      then have "meets h fr (stack m) (frames m2) (next_frame m) (feed v (Awaits r k mv)) (bindE ?a (machine_steps (n + j)))"
        unfolding more m2(1) using Ends Some by simp
      then have "replies h hs fr (stack m) (frames m2) (next_frame m) (feed v (Awaits r k mv)) (bindE ?a (machine_steps (n + j)))"
        using lt by (rule meets_replies)
      then show ?thesis using left m2(3) by metis
    qed
  next
    case (Stops r')
    then obtain cs' m1 where m1: "bindE ?a (machine_steps n) = Inr m1" "stack m1 = stack m" "chain (frames m1) (c # cs') r'"
      "continuation (the (frames m1 c)) = continuation frc" "distinct cs'" "c \<notin> set cs'"
      "set cs' \<subseteq> set cs \<union> {next_frame m..<next_frame m1}"
      "next_frame m \<le> next_frame m1" "\<forall>x. x \<notin> set (c # cs') \<longrightarrow> frames m1 x = F x"
      using n unfolding Stops replies.simps by blast
    have h1: "h \<notin> set (c # cs')" using m1(7) lt dist by auto
    then have fh: "frames m1 h = Some fr" using m1(9) Fh by simp
    obtain t where t: "frames m1 c = Some t" "continuation t = Some h"
      using chain_suspended [OF m1(3)] m1(4) c(2) by auto
    have e: "chain (frames m1) (h # c # cs') (Awaits r' k mv)" using fh t h m1(3) by simp
    have f: "continuation (the (frames m1 h)) = continuation fr" "distinct (c # cs')" using fh m1(5,6) by simp_all
    have g: "set (c # cs') \<subseteq> set hs \<union> {next_frame m..<next_frame m1}" using m1(7) hs by auto
    have i: "\<forall>x. x \<notin> set (h # c # cs') \<longrightarrow> frames m1 x = (F(c := None, h \<mapsto> fr\<lparr>point := Running\<rparr>)) x" using m1(9) by simp
    have "replies h hs fr (stack m) (F(c := None, h \<mapsto> fr\<lparr>point := Running\<rparr>)) (next_frame m) (Stops (Awaits r' k mv))
        (bindE ?a (machine_steps n))"
      unfolding replies.simps
      by (intro exI [of _ "c # cs'"] exI [of _ m1] conjI m1(1,2,8) e f g i h1)
    moreover have fd: "feed v (Awaits r k mv) = Stops (Awaits r' k mv)" using Stops by simp
    ultimately show ?thesis unfolding fd using left by blast
  qed
qed

section \<open>No frame is lost or destroyed twice\<close>

definition accounted :: "'v Machine \<Rightarrow> bool" where
  "accounted m \<longleftrightarrow> distinct (destroyed m) \<and> set (destroyed m) \<inter> dom (frames m) = {} \<and>
     set (destroyed m) \<union> dom (frames m) = {..<next_frame m}"

lemma accounted_upd [simp]:
  "accounted (m\<lparr>stack := st\<rparr>) = accounted m" "accounted (m\<lparr>handles_given := hs\<rparr>) = accounted m"
  by (simp_all add: accounted_def)

lemma accounted_set: "accounted m \<Longrightarrow> frames m h = Some fr \<Longrightarrow> accounted (set_frame h fr' m)"
  by (auto simp: accounted_def set_frame_def)

lemma accounted_call: "accounted m \<Longrightarrow> accounted (call_coroutine p m)"
  by (auto simp: accounted_def call_coroutine_def)

lemma accounted_free:
  assumes "accounted m" and "free_frame h m = Inr m'"
  shows "accounted m'"
proof -
  obtain fr where fr: "frames m h = Some fr"
    and m': "m' = m\<lparr>frames := (frames m)(h := None), destroyed := destroyed m @ [h]\<rparr>"
    using assms(2) by (auto simp: free_frame_def split: option.splits)
  have "h \<in> dom (frames m)" using fr by blast
  then have "h \<notin> set (destroyed m)" "set (destroyed m @ [h]) \<union> (dom (frames m) - {h}) = {..<next_frame m}"
    using assms(1) by (auto simp: accounted_def)
  moreover have "dom ((frames m)(h := None)) = dom (frames m) - {h}" by simp
  ultimately show ?thesis using assms(1) unfolding m' accounted_def by auto
qed

lemma accounted_destroy: "destroy_frame n h m = Inr m' \<Longrightarrow> accounted m \<Longrightarrow> accounted m'"
proof (induction n h m arbitrary: m' rule: destroy_frame.induct)
  case (2 n h m)
  then obtain fr where fr: "frames m h = Some fr" by (auto split: option.splits)
  show ?case
  proof (cases "point fr")
    case (At_await c k)
    then obtain x where "destroy_frame n c m = Inr x" "free_frame h x = Inr m'"
      using "2.prems"(1) fr by (auto simp: fault_simps)
    then show ?thesis using "2.IH" [OF fr At_await] "2.prems"(2) accounted_free by blast
  qed (use 2 fr accounted_free in auto)
qed simp

lemma accounted_await: "await_resume h c k m = Inr m' \<Longrightarrow> accounted m \<Longrightarrow> accounted m'"
  by (auto simp: await_resume_def destroy_handle_def fault_simps split: option.splits dest: accounted_destroy)

lemma accounted_resume: "resume_handle h m = Inr m' \<Longrightarrow> accounted m \<Longrightarrow> accounted m'"
  by (auto simp: resume_handle_def Let_def split: option.splits point.splits dest: accounted_set accounted_await)

lemma accounted_final:
  assumes "final_suspend h w m = Inr m'" and "accounted m"
  shows "accounted m'"
proof -
  obtain fr where fr: "frames m h = Some fr" using assms(1) by (auto simp: final_suspend_def split: option.splits)
  have "accounted (set_frame h (fr\<lparr>point := At_final, promise_value := w\<rparr>) m)" using accounted_set [OF assms(2) fr] .
  then show ?thesis using assms(1) fr
    by (auto simp: final_suspend_def Let_def split: option.splits dest!: accounted_resume)
qed

lemma accounted_exec: "exec h p m = Inr m' \<Longrightarrow> accounted m \<Longrightarrow> accounted m'"
  by (auto simp: exec_def split: option.splits prog.splits dest: accounted_final accounted_set intro!: accounted_call)

lemma accounted_called: "called h c k m = Inr m' \<Longrightarrow> accounted m \<Longrightarrow> accounted m'"
  by (auto simp: called_def set_frame_def split: option.splits point.splits if_split_asm dest: accounted_await)
    (auto simp: accounted_def)

lemma accounted_step: "machine_step m = Inr m' \<Longrightarrow> accounted m \<Longrightarrow> accounted m'"
  by (auto simp: machine_step_def Let_def destroy_handle_def fault_simps split: list.splits activation.splits
      dest: accounted_exec accounted_called accounted_destroy)

lemma accounted_steps: "machine_steps n m = Inr m' \<Longrightarrow> accounted m \<Longrightarrow> accounted m'"
proof (induction n arbitrary: m)
  case (Suc n)
  then show ?case by (auto simp: fault_simps dest: accounted_step)
qed simp

lemma accounted_answer: "answer h v m = Inr m' \<Longrightarrow> accounted m \<Longrightarrow> accounted m'"
  by (auto simp: answer_def Let_def split: option.splits if_splits dest: accounted_set accounted_resume)

section \<open>A task from its call to its end\<close>

text \<open>
  The frames that wait for the outside, and the run of a task that is given one answer after the
  other, each to the frame that waits.
\<close>

definition suspended_at :: "'v Machine \<Rightarrow> nat list" where
  "suspended_at m = filter (\<lambda>h. case frames m h of
     Some fr \<Rightarrow> (case point fr of At_suspend p \<Rightarrow> True | _ \<Rightarrow> False) | None \<Rightarrow> False) [0..<next_frame m]"

primrec play :: "nat \<Rightarrow> 'v list \<Rightarrow> 'v Machine \<Rightarrow> 'v Machine res" where
  "play n [] m = machine_steps n m"
| "play n (v # vs) m =
     bindE (machine_steps n m) (\<lambda>m.
       case suspended_at m of [] \<Rightarrow> Inr m | h # _ \<Rightarrow> bindE (answer h v m) (play n vs))"

definition waiting :: "nat list \<Rightarrow> 'v rest \<Rightarrow> 'v Machine \<Rightarrow> bool" where
  "waiting hs r m \<longleftrightarrow> stack m = [] \<and> chain (frames m) (0 # hs) r \<and> distinct (0 # hs) \<and> dom (frames m) = set (0 # hs) \<and>
     continuation (the (frames m 0)) = None \<and> accounted m"

fun agrees :: "'v outcome \<Rightarrow> 'v Machine res \<Rightarrow> bool" where
  "agrees Fails x \<longleftrightarrow> x = Inl Assertion"
| "agrees (Ends w) x \<longleftrightarrow> (\<exists>m. x = Inr m \<and> stack m = [] \<and> accounted m \<and>
     frames m = [0 \<mapsto> \<lparr>point = At_final, continuation = None, promise_value = w\<rparr>])"
| "agrees (Stops r) x \<longleftrightarrow> (\<exists>m hs. x = Inr m \<and> waiting hs r m)"

lemma accounted_bounded: "accounted m \<Longrightarrow> bounded_frames m"
  by (auto simp: accounted_def bounded_frames_def)

lemma final_agrees:
  assumes "final_suspend 0 w m = x" and "stack m = map Resuming rs" and "frames m 0 = Some fr" and "continuation fr = None"
    and "\<And>y. y \<noteq> 0 \<Longrightarrow> frames m y = None" and "\<And>m'. x = Inr m' \<Longrightarrow> accounted m'"
  shows "\<exists>n. agrees (Ends w) (bindE x (machine_steps n))"
proof -
  let ?m = "set_frame 0 (fr\<lparr>point := At_final, promise_value := w\<rparr>) m"
  have x: "x = Inr ?m" using assms(1,3,4) by (simp add: final_suspend_def)
  have "bindE x (machine_steps (length rs)) = Inr (?m\<lparr>stack := []\<rparr>)"
    using x assms(2) steps_return [of ?m rs "[]"] by (simp add: set_frame_def)
  moreover have "fr\<lparr>point := At_final, promise_value := w\<rparr> = \<lparr>point = At_final, continuation = None, promise_value = w\<rparr>"
    using assms(4) by simp
  then have "frames ?m = [0 \<mapsto> \<lparr>point = At_final, continuation = None, promise_value = w\<rparr>]"
    using assms(5) by (auto simp: set_frame_def fun_eq_iff)
  moreover have "accounted ?m" using assms(6) x by blast
  ultimately show ?thesis by (intro exI [of _ "length rs"]) simp
qed

lemma bind_steps: "bindE (bindE x (machine_steps i)) (machine_steps j) = bindE x (machine_steps (i + j))"
  by (cases x) (simp_all add: machine_steps_add)

lemma chain_dom: "chain F hs r \<Longrightarrow> set hs \<subseteq> dom F"
  by (induction F hs r rule: chain.induct) auto

lemma chain_waiting:
  assumes "stack m = []" and "chain (frames m) (0 # hs) r" and "continuation (the (frames m 0)) = None" and "distinct (0 # hs)"
    and "\<And>x. x \<notin> set (0 # hs) \<Longrightarrow> frames m x = None" and "accounted m"
  shows "agrees (Stops r) (Inr m)"
proof -
  have "dom (frames m) \<subseteq> set (0 # hs)" using assms(5) by (metis domIff subsetI)
  then have "dom (frames m) = set (0 # hs)" using chain_dom [OF assms(2)] by (rule equalityI)
  then have "waiting hs r m" unfolding waiting_def using assms by (intro conjI)
  then show ?thesis unfolding agrees.simps by (intro exI [of _ m] exI [of _ hs] conjI refl)
qed

lemma start_agrees: "\<exists>n. agrees (direct p None) (machine_steps n (start_task p))"
proof -
  let ?m = "start_task p"
  have fr: "frames ?m = [0 \<mapsto> new_frame]" "stack ?m = [Exec 0 p]" "next_frame ?m = 1"
    by (simp_all add: start_task_def call_coroutine_def)
  have acc: "accounted ?m" by (auto simp: accounted_def start_task_def call_coroutine_def)
  have "frames ?m 0 = Some new_frame" using fr(1) by simp
  from runs_directlyD [OF all_run_directly fr(2) this _ accounted_bounded [OF acc]] obtain n where
    n: "meets 0 new_frame [] [0 \<mapsto> new_frame] 1 (direct p None) (machine_steps n ?m)" using fr by auto
  show ?thesis
  proof (cases "direct p None")
    case Fails
    then show ?thesis using n by auto
  next
    case (Ends w)
    then obtain rs m1 where m1: "machine_steps n ?m = final_suspend 0 w m1" "stack m1 = map Resuming rs"
      "frames m1 = [0 \<mapsto> new_frame]" using n by auto
    have "accounted m'" if "final_suspend 0 w m1 = Inr m'" for m'
      using accounted_steps [OF _ acc, of n m'] that m1(1) by simp
    then obtain j where "agrees (Ends w) (bindE (machine_steps n ?m) (machine_steps j))"
      using final_agrees [of w m1 "machine_steps n ?m" rs new_frame] m1 by auto
    then show ?thesis unfolding Ends by (metis machine_steps_add)
  next
    case (Stops r)
    then obtain hs m1 where m1: "machine_steps n ?m = Inr m1" "stack m1 = []" "chain (frames m1) (0 # hs) r"
      "continuation (the (frames m1 0)) = None" "distinct hs" "set hs \<subseteq> {1..<next_frame m1}"
      "\<forall>x. x \<notin> set (0 # hs) \<longrightarrow> frames m1 x = [0 \<mapsto> new_frame] x" using n by auto
    have "0 \<notin> set hs" using m1(6) by auto
    then have "agrees (Stops r) (Inr m1)"
      using chain_waiting [OF m1(2-4)] m1(5,7) accounted_steps [OF m1(1) acc] by simp
    then show ?thesis unfolding Stops m1(1) [symmetric] by blast
  qed
qed

lemma answer_agrees:
  assumes "waiting hs r m"
  shows "\<exists>n. agrees (feed v r) (bindE (answer (last (0 # hs)) v m) (machine_steps n))"
proof -
  let ?a = "answer (last (0 # hs)) v m"
  have w: "stack m = []" "chain (frames m) (0 # hs) r" "distinct (0 # hs)" "dom (frames m) = set (0 # hs)"
    "continuation (the (frames m 0)) = None" "accounted m" using assms by (auto simp: waiting_def)
  have "0 \<in> dom (frames m)" using w(4) by simp
  then obtain fr where fr: "frames m 0 = Some fr" "continuation fr = None" using w(5) by auto
  from answer_meets [OF w(2,3) accounted_bounded [OF w(6)] fr(1)] obtain n F where
    F: "left_of 0 hs fr (frames m) F" and
    n: "replies 0 hs fr [] F (next_frame m) (feed v r) (bindE ?a (machine_steps n))" using w(1) by metis
  have out: "frames m x = None" if "x \<notin> set (0 # hs)" for x using that w(4) by blast
  then have rest: "F x = None" if "x \<noteq> 0" for x using F that by (auto simp: left_of_def)
  have acc: "accounted m'" if b: "bindE ?a (machine_steps n) = Inr m'" for m'
  proof -
    obtain x where "?a = Inr x" "machine_steps n x = Inr m'" using b unfolding bindE_Inr by blast
    then show ?thesis using accounted_answer [OF _ w(6)] accounted_steps by blast
  qed
  show ?thesis
  proof (cases "feed v r")
    case Fails
    then show ?thesis using n by auto
  next
    case (Ends w)
    then obtain rs m1 where m1: "bindE ?a (machine_steps n) = final_suspend 0 w m1" "stack m1 = map Resuming rs"
      "frames m1 = F" using n by auto
    obtain fr' where fr': "F 0 = Some fr'" "continuation fr' = None" using F fr(2) by (auto simp: left_of_def)
    have "\<exists>j. agrees (Ends w) (bindE (bindE ?a (machine_steps n)) (machine_steps j))"
      using final_agrees [OF m1(1) [symmetric] m1(2), of fr'] m1(3) fr' rest acc by auto
    then show ?thesis unfolding Ends bind_steps by blast
  next
    case (Stops r')
    then obtain hs' m1 where m1: "bindE ?a (machine_steps n) = Inr m1" "stack m1 = []" "chain (frames m1) (0 # hs') r'"
      "continuation (the (frames m1 0)) = continuation fr" "distinct hs'" "0 \<notin> set hs'"
      "\<forall>x. x \<notin> set (0 # hs') \<longrightarrow> frames m1 x = F x" using n unfolding Stops replies.simps by blast
    have "agrees (Stops r') (Inr m1)"
      using chain_waiting [OF m1(2,3)] m1(4-7) fr(2) rest acc [OF m1(1)] by simp
    then show ?thesis unfolding Stops m1(1) [symmetric] by blast
  qed
qed

text \<open>Whatever the number of steps beyond what is enough.\<close>

lemma agrees_more:
  assumes "agrees y (bindE x (machine_steps n))"
  shows "bindE x (machine_steps (n + k)) = bindE x (machine_steps n)"
proof -
  have "bindE x (machine_steps (n + k)) = bindE (bindE x (machine_steps n)) (machine_steps k)" by (simp add: bind_steps)
  moreover have "\<And>m. bindE x (machine_steps n) = Inr m \<Longrightarrow> y \<noteq> Fails \<Longrightarrow> stack m = []"
    using assms by (cases y) (auto simp: waiting_def)
  then have "bindE (bindE x (machine_steps n)) (machine_steps k) = bindE x (machine_steps n)"
    using assms steps_idle by (cases y) fastforce+
  ultimately show ?thesis by simp
qed

lemma chain_leaf: "chain F hs r \<Longrightarrow> distinct hs \<Longrightarrow>
   h \<in> set hs \<Longrightarrow> (case F h of Some fr \<Rightarrow> (case point fr of At_suspend p \<Rightarrow> True | _ \<Rightarrow> False) | None \<Rightarrow> False) \<longleftrightarrow> h = last hs"
proof (induction F hs r rule: chain.induct)
  case (2 F h' c hs r k mv)
  have "h' \<noteq> last (c # hs)" using "2.prems"(2) last_in_set [of "c # hs"] by (metis distinct.simps(2) list.distinct(1))
  then show ?case using 2 by (cases "h = h'") auto
qed auto

lemma filter_single: "x < n \<Longrightarrow> (\<And>y. y < n \<Longrightarrow> P y \<longleftrightarrow> y = x) \<Longrightarrow> filter P [0..<n] = [x]"
proof (induction n)
  case (Suc n)
  show ?case
  proof (cases "x = n")
    case True
    then have "filter P [0..<n] = []" using Suc.prems(2) by (auto simp: filter_empty_conv)
    then show ?thesis using True Suc.prems(2) by simp
  qed (use Suc in auto)
qed simp

lemma waiting_leaf:
  assumes "waiting hs r m"
  shows "suspended_at m = [last (0 # hs)]"
  unfolding suspended_at_def
proof (rule filter_single)
  have w: "chain (frames m) (0 # hs) r" "distinct (0 # hs)" "dom (frames m) = set (0 # hs)" "accounted m"
    using assms by (auto simp: waiting_def)
  have "last (0 # hs) \<in> dom (frames m)" unfolding w(3) by (rule last_in_set) simp
  then show "last (0 # hs) < next_frame m" using accounted_bounded [OF w(4)] by (auto simp: bounded_frames_def)
  fix y
  show "(case frames m y of Some fr \<Rightarrow> (case point fr of At_suspend p \<Rightarrow> True | _ \<Rightarrow> False) | None \<Rightarrow> False) \<longleftrightarrow> y = last (0 # hs)"
  proof (cases "y \<in> set (0 # hs)")
    case False
    then have "frames m y = None" using w(3) by blast
    moreover have "y \<noteq> last (0 # hs)" using False last_in_set by blast
    ultimately show ?thesis by simp
  qed (rule chain_leaf [OF w(1,2)])
qed

lemma ended_leaf: "frames m = [0 \<mapsto> \<lparr>point = At_final, continuation = None, promise_value = w\<rparr>] \<Longrightarrow> suspended_at m = []"
  by (simp add: suspended_at_def filter_empty_conv)

lemma play_agrees:
  "agrees y (bindE x (machine_steps n0)) \<Longrightarrow> \<exists>N. \<forall>n. agrees (feeds vs y) (bindE x (play (N + n) vs))"
proof (induction vs arbitrary: x y n0)
  case Nil
  then show ?case using agrees_more [OF Nil] by (intro exI [of _ n0]) simp
next
  case (Cons v vs)
  show ?case
  proof (cases y)
    case Fails
    then have e: "bindE x (machine_steps (n0 + n)) = Inl Assertion" for n using Cons.prems agrees_more [OF Cons.prems] by simp
    have "bindE x (play (n0 + n) (v # vs)) = Inl Assertion" for n using e [of n] by (cases x) auto
    then show ?thesis using Fails by (intro exI [of _ n0] allI) (simp only: feeds.simps outcome.case agrees.simps)
  next
    case (Ends w)
    then obtain m where m: "bindE x (machine_steps n0) = Inr m" "stack m = []" "suspended_at m = []"
      using Cons.prems ended_leaf by auto
    have "bindE x (play (n0 + n) (v # vs)) = Inr m" for n
      using agrees_more [OF Cons.prems, of n] m by (cases x) (auto simp: fault_simps)
    moreover have "agrees (feeds (v # vs) y) (Inr m)" using Ends Cons.prems m(1) by simp
    ultimately show ?thesis by metis
  next
    case (Stops r)
    then obtain m hs where m: "bindE x (machine_steps n0) = Inr m" "waiting hs r m" using Cons.prems by auto
    from answer_agrees [OF m(2)] obtain n1 where
      "agrees (feed v r) (bindE (answer (last (0 # hs)) v m) (machine_steps n1))" by blast
    from Cons.IH [OF this] obtain N where
      N: "\<And>n. agrees (feeds vs (feed v r)) (bindE (answer (last (0 # hs)) v m) (play (N + n) vs))" by blast
    have "bindE x (play (n0 + N + n) (v # vs)) = bindE (answer (last (0 # hs)) v m) (play (n0 + N + n) vs)" for n
      using agrees_more [OF Cons.prems, of "N + n"] m(1) waiting_leaf [OF m(2)] by (cases x) (auto simp: add.assoc)
    moreover have "N + (n0 + n) = n0 + N + n" for n by simp
    ultimately have "agrees (feeds vs (feed v r)) (bindE x (play (n0 + N + n) (v # vs)))" for n
      using N [of "n0 + n"] by metis
    moreover have "feeds (v # vs) y = feeds vs (feed v r)" using Stops by simp
    ultimately show ?thesis by metis
  qed
qed

section \<open>Properties\<close>

text \<open>
  C16. Coroutines compute what the code that is written as if it were sequential means: a task that
  is called and whose coroutines are given answers one after the other, through any depth of
  \<open>co_await\<close>, ends with the value of its direct meaning, or waits where that waits, or fails the
  assertion that an awaited task has a value where that fails. It never touches a destroyed frame,
  nothing stays on the native stack, and every frame but those still waiting, and the task's
  own, has been destroyed, once. All of this for any number of steps that is large enough.
\<close>

theorem coroutines_run_directly:
  "\<exists>N. \<forall>n. case feeds vs (direct p None) of
      Fails \<Rightarrow> play (N + n) vs (start_task p) = Inl Assertion
    | Ends w \<Rightarrow> (\<exists>m. play (N + n) vs (start_task p) = Inr m \<and> stack m = [] \<and>
        frames m = [0 \<mapsto> \<lparr>point = At_final, continuation = None, promise_value = w\<rparr>] \<and>
        distinct (destroyed m) \<and> set (destroyed m) = {0<..<next_frame m})
    | Stops r \<Rightarrow> (\<exists>m hs. play (N + n) vs (start_task p) = Inr m \<and> stack m = [] \<and>
        chain (frames m) (0 # hs) r \<and> dom (frames m) = set (0 # hs) \<and>
        distinct (destroyed m) \<and> set (destroyed m) = {..<next_frame m} - set (0 # hs))"
proof -
  obtain n0 where "agrees (direct p None) (bindE (Inr (start_task p)) (machine_steps n0))"
    using start_agrees [of p] by auto
  from play_agrees [OF this] obtain N where
    N: "\<And>n. agrees (feeds vs (direct p None)) (play (N + n) vs (start_task p))" by fastforce
  have gone: "distinct (destroyed m) \<and> set (destroyed m) = {..<next_frame m} - dom (frames m)" if "accounted m" for m :: "'a Machine"
    using that by (auto simp: accounted_def)
  have "case feeds vs (direct p None) of
      Fails \<Rightarrow> play (N + n) vs (start_task p) = Inl Assertion
    | Ends w \<Rightarrow> (\<exists>m. play (N + n) vs (start_task p) = Inr m \<and> stack m = [] \<and>
        frames m = [0 \<mapsto> \<lparr>point = At_final, continuation = None, promise_value = w\<rparr>] \<and>
        distinct (destroyed m) \<and> set (destroyed m) = {0<..<next_frame m})
    | Stops r \<Rightarrow> (\<exists>m hs. play (N + n) vs (start_task p) = Inr m \<and> stack m = [] \<and>
        chain (frames m) (0 # hs) r \<and> dom (frames m) = set (0 # hs) \<and>
        distinct (destroyed m) \<and> set (destroyed m) = {..<next_frame m} - set (0 # hs))" for n
  proof (cases "feeds vs (direct p None)")
    case Fails
    then show ?thesis using N [of n] by simp
  next
    case (Ends w)
    then obtain m where m: "play (N + n) vs (start_task p) = Inr m" "stack m = []" "accounted m"
      "frames m = [0 \<mapsto> \<lparr>point = At_final, continuation = None, promise_value = w\<rparr>]" using N [of n] by auto
    have "{..<next_frame m} - dom (frames m) = {0<..<next_frame m}" unfolding m(4) by auto
    then show ?thesis using Ends m gone [OF m(3)] by auto
  next
    case (Stops r)
    then obtain m hs where m: "play (N + n) vs (start_task p) = Inr m" "waiting hs r m" using N [of n] by auto
    then have w: "stack m = []" "chain (frames m) (0 # hs) r" "dom (frames m) = set (0 # hs)" "accounted m"
      by (auto simp: waiting_def)
    have "set (destroyed m) = {..<next_frame m} - set (0 # hs)" "distinct (destroyed m)"
      using gone [OF w(4)] unfolding w(3) by blast+
    then show ?thesis unfolding Stops outcome.case using m(1) w(1-3)
      by (intro exI [of _ m] exI [of _ hs] conjI)
  qed
  then show ?thesis by (intro exI [of _ N] allI)
qed

text \<open>A handler that asks two queries and answers with both, and one that asks and does not wait.\<close>

lemma two_queries: "feeds [''a'', ''b''] (direct (Await ask (\<lambda>x. Await ask (\<lambda>y. Co_return (x @ y)))) None) = Ends (Some ''ab'')"
  by (simp add: ask_def)


end
