(* ===== verification/Task_Objects.thy ===== *)
theory Task_Objects
  imports Coroutines "HOL-Library.Multiset"
begin

text \<open>
  The objects \<open>Task\<close> and \<open>AwaitableTask\<close> (\<open>task.h\<close>, \<open>awaitabletask.h\<close>): a handle that is moved,
  assigned and destroyed with the frame, and the calls on it.

  The first part follows the handles alone: frames are numbered as they are made, and an object that
  was destroyed stays in the list without one. The second part is about the machine of \<open>Coroutines\<close>.
\<close>

section \<open>Who owns a frame\<close>

record Tasks =
  handles :: "nat option list"
  frames_made :: nat
  frames_destroyed :: "nat list"

definition no_tasks :: Tasks where
  "no_tasks = \<lparr>handles = [], frames_made = 0, frames_destroyed = []\<rparr>"

text \<open>\<open>if (handle_) handle_.destroy()\<close>.\<close>

definition destroy_if :: "nat option \<Rightarrow> Tasks \<Rightarrow> Tasks" where
  "destroy_if handle s = (case handle of None \<Rightarrow> s | Some h \<Rightarrow> s\<lparr>frames_destroyed := frames_destroyed s @ [h]\<rparr>)"

definition task_empty :: "Tasks \<Rightarrow> Tasks" where
  "task_empty s = s\<lparr>handles := handles s @ [None]\<rparr>"

text \<open>A coroutine is called: \<open>get_return_object\<close> makes the task of its new frame.\<close>

definition get_return_object :: "Tasks \<Rightarrow> Tasks" where
  "get_return_object s = s\<lparr>handles := handles s @ [Some (frames_made s)], frames_made := frames_made s + 1\<rparr>"

definition task_move :: "nat \<Rightarrow> Tasks \<Rightarrow> Tasks" where
  "task_move i s = s\<lparr>handles := (handles s)[i := None] @ [handles s ! i]\<rparr>"

text \<open>A task assigned to itself destroys its frame and is empty.\<close>

definition task_assign :: "nat \<Rightarrow> nat \<Rightarrow> Tasks \<Rightarrow> Tasks" where
  "task_assign j i s =
     (let s = destroy_if (handles s ! j) s;
          s = s\<lparr>handles := (handles s)[j := handles s ! i]\<rparr>
      in s\<lparr>handles := (handles s)[i := None]\<rparr>)"

definition task_destroy :: "nat \<Rightarrow> Tasks \<Rightarrow> Tasks" where
  "task_destroy i s = (destroy_if (handles s ! i) s)\<lparr>handles := (handles s)[i := None]\<rparr>"

inductive task_step :: "Tasks \<Rightarrow> Tasks \<Rightarrow> bool" where
  t_empty: "task_step s (task_empty s)"
| t_called: "task_step s (get_return_object s)"
| t_moved: "i < length (handles s) \<Longrightarrow> task_step s (task_move i s)"
| t_assigned: "i < length (handles s) \<Longrightarrow> j < length (handles s) \<Longrightarrow> task_step s (task_assign j i s)"
| t_destroyed: "i < length (handles s) \<Longrightarrow> task_step s (task_destroy i s)"

inductive task_run :: "Tasks \<Rightarrow> bool" where
  start: "task_run no_tasks"
| more: "task_run s \<Longrightarrow> task_step s s' \<Longrightarrow> task_run s'"

text \<open>The frames in the objects, each as often as objects have it.\<close>

definition owned :: "nat option list \<Rightarrow> nat multiset" where
  "owned hs = image_mset the (filter_mset (\<lambda>h. h \<noteq> None) (mset hs))"

definition of_handle :: "nat option \<Rightarrow> nat multiset" where
  "of_handle h = (case h of None \<Rightarrow> {#} | Some x \<Rightarrow> {#x#})"

lemma of_handle_simps [simp]: "of_handle None = {#}" "of_handle (Some x) = {#x#}"
  by (simp_all add: of_handle_def)

lemma owned_append: "owned (hs @ [h]) = owned hs + of_handle h"
  by (cases h) (simp_all add: owned_def)

lemma owned_update:
  assumes "i < length hs"
  shows "owned (hs[i := h]) + of_handle (hs ! i) = owned hs + of_handle h"
proof -
  have split: "owned (xs @ x # ys) = owned (xs @ ys) + of_handle x" for xs ys x
    by (cases x) (simp_all add: owned_def)
  let ?xs = "take i hs" and ?ys = "drop (Suc i) hs"
  have "owned hs = owned (?xs @ hs ! i # ?ys)" using id_take_nth_drop [OF assms] by (rule arg_cong)
  moreover have "owned (hs[i := h]) = owned (?xs @ h # ?ys)" using upd_conv_take_nth_drop [OF assms] by (rule arg_cong)
  ultimately show ?thesis unfolding split by simp
qed

lemma destroy_if_simps [simp]:
  "handles (destroy_if h s) = handles s" "frames_made (destroy_if h s) = frames_made s"
  "mset (frames_destroyed (destroy_if h s)) = mset (frames_destroyed s) + of_handle h"
  by (simp_all add: destroy_if_def split: option.split)

text \<open>Each frame made is owned by one object or was destroyed once.\<close>

definition one_owner :: "Tasks \<Rightarrow> bool" where
  "one_owner s \<longleftrightarrow> owned (handles s) + mset (frames_destroyed s) = mset [0..<frames_made s]"

lemma task_step_owner: "task_step s s' \<Longrightarrow> one_owner s \<Longrightarrow> one_owner s'"
proof (induction rule: task_step.induct)
  case (t_moved i s)
  then show ?case using owned_update [OF t_moved(1), of None]
    by (simp add: one_owner_def task_move_def owned_append)
next
  case (t_assigned i s j)
  let ?hs = "(handles s)[j := handles s ! i]"
  have 1: "owned ?hs + of_handle (handles s ! j) = owned (handles s) + of_handle (handles s ! i)"
    using owned_update [OF t_assigned(2)] by simp
  have "?hs ! i = handles s ! i" using t_assigned(1) by (cases "i = j") simp_all
  then have "owned (?hs[i := None]) + of_handle (handles s ! i) = owned ?hs"
    using owned_update [of i ?hs None] t_assigned(1) by simp
  from 1 [folded this] have "(owned (?hs[i := None]) + of_handle (handles s ! j)) + of_handle (handles s ! i) =
      owned (handles s) + of_handle (handles s ! i)"
    by (simp only: ac_simps)
  then have "owned (?hs[i := None]) + of_handle (handles s ! j) = owned (handles s)" by (rule add_right_imp_eq)
  then show ?case using t_assigned(3) by (simp add: one_owner_def task_assign_def Let_def add.assoc add.commute)
next
  case (t_destroyed i s)
  have "owned ((handles s)[i := None]) + of_handle (handles s ! i) = owned (handles s)"
    using owned_update [OF t_destroyed(1), of None] by simp
  with t_destroyed(2) have "owned ((handles s)[i := None]) + of_handle (handles s ! i) + mset (frames_destroyed s) =
      mset [0..<frames_made s]" by (simp add: one_owner_def)
  then show ?case by (simp add: one_owner_def task_destroy_def ac_simps)
qed (simp_all add: one_owner_def task_empty_def get_return_object_def owned_append)

lemma task_run_owner: "task_run s \<Longrightarrow> one_owner s"
proof (induction rule: task_run.induct)
  case (more s s')
  then show ?case using task_step_owner by blast
qed (simp add: one_owner_def no_tasks_def owned_def)

section \<open>Calls on a task\<close>

text \<open>
  On the machine: \<open>done\<close>, \<open>resume\<close>, \<open>set_result\<close> and \<open>get_result\<close> with their assertions.
  \<open>Task::done\<close> has none, and is undefined on an empty task.
\<close>

definition handle_done :: "nat \<Rightarrow> 'v Machine \<Rightarrow> bool res" where
  "handle_done h m = (case frames m h of None \<Rightarrow> Inl Undefined | Some fr \<Rightarrow> Inr (case point fr of At_final \<Rightarrow> True | _ \<Rightarrow> False))"

definition task_done :: "nat option \<Rightarrow> 'v Machine \<Rightarrow> bool res" where
  "task_done handle m = (case handle of None \<Rightarrow> Inl Undefined | Some h \<Rightarrow> handle_done h m)"

definition awaitable_done :: "nat option \<Rightarrow> 'v Machine \<Rightarrow> bool res" where
  "awaitable_done handle m = (case handle of None \<Rightarrow> Inl Assertion | Some h \<Rightarrow> handle_done h m)"

definition unfinished :: "nat option \<Rightarrow> 'v Machine \<Rightarrow> nat res" where
  "unfinished handle m =
     (case handle of
        None \<Rightarrow> Inl Assertion
      | Some h \<Rightarrow> bindE (handle_done h m) (\<lambda>d. if d then Inl Assertion else Inr h))"

definition task_resume :: "nat option \<Rightarrow> 'v Machine \<Rightarrow> 'v Machine res" where
  "task_resume handle m = bindE (unfinished handle m) (\<lambda>h. resume_handle h m)"

definition task_set_result :: "'v \<Rightarrow> nat option \<Rightarrow> 'v Machine \<Rightarrow> 'v Machine res" where
  "task_set_result v handle m =
     bindE (unfinished handle m) (\<lambda>h.
       case frames m h of
         None \<Rightarrow> Inl Undefined
       | Some fr \<Rightarrow> Inr (set_frame h (fr\<lparr>promise_value := Some v\<rparr>) m))"

text \<open>A \<open>Task\<close> holds a plain value; one that was never set is read uninitialised.\<close>

definition task_get_result :: "nat option \<Rightarrow> 'v Machine \<Rightarrow> 'v res" where
  "task_get_result handle m =
     (case handle of
        None \<Rightarrow> Inl Assertion
      | Some h \<Rightarrow>
          bindE (handle_done h m) (\<lambda>d.
            if \<not> d then Inl Assertion
            else (case frames m h of
                    None \<Rightarrow> Inl Undefined
                  | Some fr \<Rightarrow> (case promise_value fr of None \<Rightarrow> Inl Undefined | Some v \<Rightarrow> Inr v))))"

text \<open>Giving a task its result and resuming it is what the database does with a handle.\<close>

lemma set_and_resume:
  assumes "handle_done h m = Inr False"
  shows "bindE (task_set_result v (Some h) m) (task_resume (Some h)) = answer h v m"
proof -
  obtain fr where fr: "frames m h = Some fr" "point fr \<noteq> At_final"
    using assms by (auto simp: handle_done_def split: option.splits point.splits)
  then show ?thesis
    by (cases "point fr") (auto simp: task_set_result_def task_resume_def unfinished_def handle_done_def answer_def set_frame_def)
qed

section \<open>Property\<close>

text \<open>
  C21. Coroutine frames have one owner: whatever tasks are made by calls, moved, assigned (also to
  themselves) and destroyed in whatever order, no frame is destroyed twice, no object has the handle
  of a frame that is gone, no two have the same, and a frame no object has is destroyed.
\<close>

theorem tasks_own_frames:
  assumes "task_run s"
  shows "distinct (frames_destroyed s) \<and>
    (\<forall>i < length (handles s). \<forall>h. handles s ! i = Some h \<longrightarrow> h \<notin> set (frames_destroyed s) \<and>
       (\<forall>j < length (handles s). handles s ! j = Some h \<longrightarrow> j = i)) \<and>
    (\<forall>h < frames_made s. Some h \<notin> set (handles s) \<longrightarrow> h \<in> set (frames_destroyed s))"
proof -
  have own: "owned (handles s) + mset (frames_destroyed s) = mset [0..<frames_made s]"
    using task_run_owner [OF assms] by (simp add: one_owner_def)
  have cnt: "count (owned (handles s)) h + count (mset (frames_destroyed s)) h = (if h < frames_made s then 1 else 0)" for h
    using arg_cong [OF own, of "\<lambda>M. count M h"] by (simp add: count_mset_set')
  have "count (mset (frames_destroyed s)) h \<le> (if h < frames_made s then 1 else 0)" for h using cnt [of h] by linarith
  then have "count (mset (frames_destroyed s)) h = (if h \<in> set (frames_destroyed s) then 1 else 0)" for h
    using count_eq_zero_iff [of "mset (frames_destroyed s)" h]
    by (metis One_nat_def le_0_eq le_SucE set_mset_mset)
  then have dist: "distinct (frames_destroyed s)" by (simp add: distinct_count_atmost_1)
  have split: "owned (handles s) = add_mset h (owned ((handles s)[i := None]))"
    if "i < length (handles s)" "handles s ! i = Some h" for i h
    using owned_update [OF that(1), of None] that(2) by simp
  have live: "h \<notin> set (frames_destroyed s)" if "i < length (handles s)" "handles s ! i = Some h" for i h
    using cnt [of h] split [OF that] by (auto simp: not_in_iff split: if_splits)
  have once: "j = i" if i: "i < length (handles s)" "handles s ! i = Some h" and j: "j < length (handles s)" "handles s ! j = Some h" for i j h
  proof (rule ccontr)
    assume "j \<noteq> i"
    then have "(handles s)[i := None] ! j = Some h" using j(2) by simp
    then have "owned ((handles s)[i := None]) = add_mset h (owned ((handles s)[i := None, j := None]))"
      using owned_update [of j "(handles s)[i := None]" None] j(1) by simp
    then have "2 \<le> count (owned (handles s)) h" using split [OF i] by simp
    then show False using cnt [of h] by (simp split: if_splits)
  qed
  have "h \<in> set (frames_destroyed s)" if "h < frames_made s" "Some h \<notin> set (handles s)" for h
  proof -
    have "h \<notin># owned (handles s)" using that(2) by (auto simp: owned_def)
    then have "count (mset (frames_destroyed s)) h \<noteq> 0" using cnt [of h] that(1) by (simp add: not_in_iff)
    then show ?thesis by (metis count_eq_zero_iff set_mset_mset)
  qed
  then show ?thesis using dist live once by blast
qed

theorem tasks_own_frames_witness:
  "\<exists>s. task_run s \<and> handles s = [Some 1, None] \<and> frames_destroyed s = [0] \<and> distinct (frames_destroyed s)"
proof -
  let ?s1 = "get_return_object no_tasks"
  let ?s2 = "get_return_object ?s1"
  let ?s3 = "task_assign 0 1 ?s2"
  have "task_run ?s1" by (rule task_run.more [OF task_run.start task_step.t_called])
  then have "task_run ?s2" by (rule task_run.more [OF _ task_step.t_called])
  then have run: "task_run ?s3"
    by (rule task_run.more [OF _ task_step.t_assigned]) (simp_all add: get_return_object_def no_tasks_def)
  have "handles ?s3 = [Some 1, None]" "frames_destroyed ?s3 = [0]"
    by (simp_all add: get_return_object_def no_tasks_def task_assign_def destroy_if_def)
  then show ?thesis using run tasks_own_frames [OF run] by blast
qed

end
