(* ===== verification/Workers.thy ===== *)
theory Workers
  imports Http_Date Db_Session "HOL-Library.Multiset"
begin

text \<open>
  The threads (\<open>server.cc\<close>, \<open>worker.cc\<close>): the main thread listens, accepts connections and deals
  them to the workers in turn, over a queue and a wake-up; a worker makes sessions of them. Also
  the worker's cached date and its database session.

  A session is named by its descriptor. \<open>emplacing\<close> and \<open>draining\<close> are where the two threads are:
  between \<open>emplace\<close> and \<open>ev_async_send\<close>, and inside \<open>async_acceptcb\<close>. \<open>given\<close>, \<open>taken\<close> and
  \<open>ended\<close> are history.
\<close>

section \<open>Listening\<close>

text \<open>One address and what the calls on it answer; the log of sockets opened and closed.\<close>

record Address =
  a_socket :: int
  a_setsockopt :: int
  a_bind :: int
  a_listen :: int

datatype socket_op = Opened int | Closed int

fun listen_on :: "Address list \<Rightarrow> (int \<times> int option) \<times> socket_op list" where
  "listen_on [] = ((- 1, None), [])"
| "listen_on (a # as) =
     (let fd = a_socket a in
      if fd = - 1 then listen_on as
      else if a_setsockopt a = - 1 then
        (let (r, ops) = listen_on as in (r, Opened fd # Closed fd # ops))
      else if a_bind a = 0 \<and> a_listen a = 0 then ((0, Some fd), [Opened fd])
      else (let (r, ops) = listen_on as in (r, Opened fd # Closed fd # ops)))"

text \<open>When \<open>getaddrinfo\<close> fails its list is freed though it was never set.\<close>

definition start_listen :: "int \<Rightarrow> Address list \<Rightarrow> ((int \<times> int option) \<times> socket_op list) res" where
  "start_listen getaddrinfo addresses =
     (if getaddrinfo \<noteq> 0 then Inl Undefined else Inr (listen_on addresses))"

section \<open>Workers\<close>

record Worker =
  queued_fds :: "int list"
  signalled :: bool
  emplacing :: bool
  draining :: bool
  sessions :: "int list"
  closed_fds :: "int list"
  given :: "int list"
  taken :: "int list"
  ended :: "int list"

definition new_worker :: Worker where
  "new_worker = \<lparr>queued_fds = [], signalled = False, emplacing = False, draining = False, sessions = [],
     closed_fds = [], given = [], taken = [], ended = []\<rparr>"

text \<open>\<open>add_connection\<close> is two steps of the main thread.\<close>

definition emplace_fd :: "int \<Rightarrow> Worker \<Rightarrow> Worker" where
  "emplace_fd fd w = w\<lparr>queued_fds := queued_fds w @ [fd], given := given w @ [fd], emplacing := True\<rparr>"

definition async_send :: "Worker \<Rightarrow> Worker" where
  "async_send w = w\<lparr>emplacing := False, signalled := True\<rparr>"

definition add_connection :: "int \<Rightarrow> Worker \<Rightarrow> Worker" where
  "add_connection fd w = async_send (emplace_fd fd w)"

text \<open>\<open>ssl_ok\<close> is whether \<open>create_ssl_session\<close> gives a session for the descriptor.\<close>

definition accept_connection :: "(int \<Rightarrow> bool) \<Rightarrow> int \<Rightarrow> Worker \<Rightarrow> Worker" where
  "accept_connection ssl_ok fd w =
     (if ssl_ok fd then w\<lparr>sessions := fd # sessions w\<rparr> else w\<lparr>closed_fds := fd # closed_fds w\<rparr>)"

definition try_dequeue :: "(int \<Rightarrow> bool) \<Rightarrow> int \<Rightarrow> int list \<Rightarrow> Worker \<Rightarrow> Worker" where
  "try_dequeue ssl_ok fd fds w = accept_connection ssl_ok fd (w\<lparr>queued_fds := fds, taken := taken w @ [fd]\<rparr>)"

definition remove_session :: "int \<Rightarrow> Worker \<Rightarrow> Worker" where
  "remove_session fd w = w\<lparr>sessions := remove1 fd (sessions w), ended := fd # ended w\<rparr>"

text \<open>
  The interleavings of the two threads: the main one in \<open>add_connection\<close>, the worker woken into
  \<open>async_acceptcb\<close> (the loop clears the signal first), taking descriptors until there is none, and
  ending sessions between callbacks.
\<close>

inductive worker_step :: "Worker \<Rightarrow> Worker \<Rightarrow> bool" where
  emplaces: "\<not> emplacing w \<Longrightarrow> worker_step w (emplace_fd fd w)"
| signals: "emplacing w \<Longrightarrow> worker_step w (async_send w)"
| wakes: "signalled w \<Longrightarrow> \<not> draining w \<Longrightarrow> worker_step w (w\<lparr>signalled := False, draining := True\<rparr>)"
| takes: "draining w \<Longrightarrow> queued_fds w = fd # fds \<Longrightarrow> worker_step w (try_dequeue ssl_ok fd fds w)"
| returns: "draining w \<Longrightarrow> queued_fds w = [] \<Longrightarrow> worker_step w (w\<lparr>draining := False\<rparr>)"
| ends: "\<not> draining w \<Longrightarrow> fd \<in> set (sessions w) \<Longrightarrow> worker_step w (remove_session fd w)"

inductive worker_run :: "Worker \<Rightarrow> bool" where
  start: "worker_run new_worker"
| more: "worker_run w \<Longrightarrow> worker_step w w' \<Longrightarrow> worker_run w'"

section \<open>Dealing connections out\<close>

record Server =
  workers :: "Worker list"
  next_worker :: nat
  num_threads :: nat

definition new_server :: "nat \<Rightarrow> Server" where
  "new_server n = \<lparr>workers = replicate n new_worker, next_worker = 0, num_threads = n\<rparr>"

text \<open>The script is what \<open>accept4\<close> answers, -1 being the end of it or an error.\<close>

fun acceptcb :: "int list \<Rightarrow> Server \<Rightarrow> Server res" where
  "acceptcb [] s = Inl Unfinished"
| "acceptcb (fd # fds) s =
     (if fd = - 1 then Inr s
      else if next_worker s < length (workers s) \<and> num_threads s \<noteq> 0 then
        acceptcb fds (s\<lparr>
          workers := (workers s)[next_worker s := add_connection fd (workers s ! next_worker s)],
          next_worker := (next_worker s + 1) mod num_threads s\<rparr>)
      else Inl Undefined)"

fun accept_rounds :: "int list list \<Rightarrow> Server \<Rightarrow> Server res" where
  "accept_rounds [] s = Inr s"
| "accept_rounds (fds # rounds) s = bindE (acceptcb fds s) (accept_rounds rounds)"

section \<open>The date and the database of a worker\<close>

record DateCache =
  cached_date :: string
  cache_time :: int

definition get_cached_date :: "(int \<Rightarrow> tm option) \<Rightarrow> int \<Rightarrow> DateCache \<Rightarrow> (string \<times> DateCache) res" where
  "get_cached_date gmtime now cache =
     (if now \<ge> cache_time cache then
        bindE (http_date gmtime now) (\<lambda>mem. let cache = cache\<lparr>cached_date := mem\<rparr> in Inr (cached_date cache, cache))
      else Inr (cached_date cache, cache))"

text \<open>\<open>Session::create\<close>, and the worker's cancellation when there is no session.\<close>

record DbWorker =
  dbsession :: "DbSession option"
  started :: bool
  broken :: bool

definition create_db_session :: "bool \<Rightarrow> bool \<Rightarrow> int option \<Rightarrow> polling list \<Rightarrow> int \<Rightarrow> int \<Rightarrow> int \<Rightarrow> DbSession option res" where
  "create_db_session conn bad dir ps sock nonblocking pipeline =
     (if \<not> conn then Inr None
      else if bad then Inr None
      else bindE (new_db_session dir ps sock nonblocking pipeline) (\<lambda>s. Inr (Some s)))"

definition start_db_session :: "DbSession option \<Rightarrow> DbWorker \<Rightarrow> DbWorker" where
  "start_db_session created w =
     (let w = w\<lparr>dbsession := created\<rparr> in
      if created = None then (if started w then w\<lparr>broken := True\<rparr> else w) else w)"

text \<open>\<open>read_cb\<close> and \<open>write_cb\<close>: what \<open>on_read\<close> or \<open>on_write\<close> returned, with the session it left.\<close>

definition db_callback :: "int \<times> DbSession \<Rightarrow> DbSession option \<Rightarrow> DbWorker \<Rightarrow> DbWorker" where
  "db_callback result created w =
     (let (rv, s) = result; w = w\<lparr>dbsession := Some s\<rparr> in
      if rv = - 1 then start_db_session created w else w)"

section \<open>Facts\<close>

lemma accept_frame [simp]:
  "queued_fds (accept_connection ok fd w) = queued_fds w" "given (accept_connection ok fd w) = given w"
  "taken (accept_connection ok fd w) = taken w" "ended (accept_connection ok fd w) = ended w"
  "signalled (accept_connection ok fd w) = signalled w" "draining (accept_connection ok fd w) = draining w"
  "emplacing (accept_connection ok fd w) = emplacing w"
  by (simp_all add: accept_connection_def)

definition worker_ok :: "Worker \<Rightarrow> bool" where
  "worker_ok w \<longleftrightarrow> given w = taken w @ queued_fds w \<and>
     mset (taken w) = mset (sessions w) + mset (closed_fds w) + mset (ended w) \<and>
     (queued_fds w \<noteq> [] \<longrightarrow> emplacing w \<or> signalled w \<or> draining w)"

lemma worker_step_ok: "worker_step w w' \<Longrightarrow> worker_ok w \<Longrightarrow> worker_ok w'"
  by (induction rule: worker_step.induct)
    (auto simp: worker_ok_def emplace_fd_def async_send_def try_dequeue_def accept_connection_def remove_session_def)

lemma worker_run_ok: "worker_run w \<Longrightarrow> worker_ok w"
proof (induction rule: worker_run.induct)
  case (more w w')
  then show ?case using worker_step_ok by blast
qed (simp add: worker_ok_def new_worker_def)

definition dealt :: "Server \<Rightarrow> nat \<Rightarrow> nat" where
  "dealt s i = length (given (workers s ! i))"

definition balanced :: "Server \<Rightarrow> bool" where
  "balanced s \<longleftrightarrow> length (workers s) = num_threads s \<and> next_worker s < num_threads s \<and>
     (\<exists>c. \<forall>i < num_threads s. dealt s i = c + (if i < next_worker s then 1 else 0))"

lemma add_connection_given [simp]: "given (add_connection fd w) = given w @ [fd]"
  by (simp add: add_connection_def emplace_fd_def async_send_def)

lemma acceptcb_balanced: "acceptcb fds s = Inr s' \<Longrightarrow> balanced s \<Longrightarrow> balanced s'"
proof (induction fds s rule: acceptcb.induct)
  case (2 fd fds s)
  show ?case
  proof (cases "fd = - 1")
    case False
    let ?s = "s\<lparr>workers := (workers s)[next_worker s := add_connection fd (workers s ! next_worker s)],
      next_worker := (next_worker s + 1) mod num_threads s\<rparr>"
    obtain c where c: "\<forall>i < num_threads s. dealt s i = c + (if i < next_worker s then 1 else 0)"
      using "2.prems"(2) by (auto simp: balanced_def)
    have ok: "length (workers s) = num_threads s" "next_worker s < num_threads s"
      using "2.prems"(2) by (auto simp: balanced_def)
    have d: "dealt ?s i = dealt s i + (if i = next_worker s then 1 else 0)" if "i < num_threads s" for i
      using ok that by (auto simp: dealt_def nth_list_update)
    have "balanced ?s"
    proof (cases "next_worker s + 1 = num_threads s")
      case True
      then have "\<forall>i < num_threads s. dealt ?s i = c + 1" using c d by auto
      then show ?thesis using ok True by (auto simp: balanced_def intro!: exI [of _ "c + 1"])
    next
      case False
      then have "(next_worker s + 1) mod num_threads s = next_worker s + 1" using ok by simp
      moreover have "\<forall>i < num_threads s. dealt ?s i = c + (if i < next_worker s + 1 then 1 else 0)" using c d by auto
      ultimately show ?thesis using ok False by (auto simp: balanced_def)
    qed
    then show ?thesis using 2 False ok by auto
  qed (use 2 in auto)
qed simp

lemma acceptcb_threads: "acceptcb fds s = Inr s' \<Longrightarrow> num_threads s' = num_threads s"
  by (induction fds s rule: acceptcb.induct) (auto split: if_splits)

lemma acceptcb_total:
  "balanced s \<Longrightarrow> \<exists>s'. acceptcb (fds @ [- 1]) s = Inr s'"
proof (induction fds arbitrary: s)
  case (Cons fd fds)
  show ?case
  proof (cases "fd = - 1")
    case False
    let ?s = "s\<lparr>workers := (workers s)[next_worker s := add_connection fd (workers s ! next_worker s)],
      next_worker := (next_worker s + 1) mod num_threads s\<rparr>"
    have "acceptcb [fd, - 1] s = Inr ?s" using Cons.prems False by (auto simp: balanced_def)
    then have "balanced ?s" using acceptcb_balanced Cons.prems by blast
    then show ?thesis using Cons False by (auto simp: balanced_def)
  qed simp
qed simp

section \<open>Properties\<close>

text \<open>
  C18. No connection is lost between the threads, however they interleave: every descriptor given to
  a worker is, in order, taken or still in the queue; each one taken is a session, closed, or a
  session that ended; and while the queue is not empty the worker is being or will be told, so
  that at rest the queue is empty.
\<close>

theorem no_connection_lost:
  assumes "worker_run w"
  shows "given w = taken w @ queued_fds w \<and>
    mset (taken w) = mset (sessions w) + mset (closed_fds w) + mset (ended w) \<and>
    (queued_fds w = [] \<or> emplacing w \<or> signalled w \<or> draining w)"
  using worker_run_ok [OF assms] by (auto simp: worker_ok_def)

theorem no_connection_lost_witness:
  "\<exists>w. worker_run w \<and> queued_fds w = [8] \<and> taken w = [7] \<and> sessions w = [7] \<and> (emplacing w \<or> signalled w \<or> draining w)"
proof -
  let ?w1 = "emplace_fd 7 new_worker"
  let ?w2 = "async_send ?w1"
  let ?w3 = "?w2\<lparr>signalled := False, draining := True\<rparr>"
  let ?w4 = "try_dequeue (\<lambda>_. True) 7 [] ?w3"
  let ?w5 = "emplace_fd 8 ?w4"
  note unf = emplace_fd_def async_send_def try_dequeue_def accept_connection_def new_worker_def
  have "worker_run ?w1"
    by (rule worker_run.more [OF worker_run.start worker_step.emplaces]) (simp add: unf)
  then have "worker_run ?w2"
    by (rule worker_run.more [OF _ worker_step.signals]) (simp add: unf)
  then have "worker_run ?w3"
    by (rule worker_run.more [OF _ worker_step.wakes]) (simp_all add: unf)
  then have "worker_run ?w4"
    by (rule worker_run.more [OF _ worker_step.takes]) (simp_all add: unf)
  then have run: "worker_run ?w5"
    by (rule worker_run.more [OF _ worker_step.emplaces]) (simp add: unf)
  have "queued_fds ?w5 = [8]" "taken ?w5 = [7]" "sessions ?w5 = [7]" by (simp_all add: unf)
  then show ?thesis using run no_connection_lost [OF run] by (intro exI [of _ ?w5]) simp
qed

text \<open>
  C31. Connections are dealt out evenly: a server with threads deals every connection accepted to a
  worker that exists, and at any time two workers differ by at most one.
\<close>

theorem connections_balanced:
  assumes "0 < n" and "i < n" and "j < n"
  shows "\<exists>s. accept_rounds (map (\<lambda>fds. fds @ [- 1]) rounds) (new_server n) = Inr s \<and>
    dealt s i \<le> dealt s j + 1 \<and> dealt s j \<le> dealt s i + 1"
proof -
  have "balanced s \<Longrightarrow> num_threads s = n \<Longrightarrow>
    \<exists>s'. accept_rounds (map (\<lambda>fds. fds @ [- 1]) rounds) s = Inr s' \<and> balanced s' \<and> num_threads s' = n" for s
  proof (induction rounds arbitrary: s)
    case (Cons fds rounds)
    then obtain s1 where s1: "acceptcb (fds @ [- 1]) s = Inr s1" using acceptcb_total by blast
    then show ?case using Cons acceptcb_balanced [OF s1] acceptcb_threads [OF s1] by auto
  qed simp
  from this [of "new_server n"] obtain s where s: "accept_rounds (map (\<lambda>fds. fds @ [- 1]) rounds) (new_server n) = Inr s"
    "balanced s" "num_threads s = n"
    using assms(1) by (auto simp: balanced_def new_server_def dealt_def new_worker_def)
  then obtain c where "\<forall>i < n. dealt s i = c + (if i < next_worker s then 1 else 0)" by (auto simp: balanced_def)
  then show ?thesis using s(1) assms(2,3) by auto
qed

theorem connections_balanced_witness:
  "\<exists>s. accept_rounds (map (\<lambda>fds. fds @ [- 1]) [[5, 6], [], [7]]) (new_server 2) = Inr s \<and>
     dealt s 0 \<le> dealt s 1 + 1 \<and> dealt s 1 \<le> dealt s 0 + 1"
  using connections_balanced [of 2 0 1 "[[5, 6], [], [7]]"] by simp

fun open_after :: "int multiset \<Rightarrow> socket_op list \<Rightarrow> int multiset" where
  "open_after M [] = M"
| "open_after M (Opened fd # ops) = open_after (add_mset fd M) ops"
| "open_after M (Closed fd # ops) = open_after (M - {#fd#}) ops"

lemma listen_on_sockets:
  "listen_on addresses = ((rv, fd), ops) \<Longrightarrow>
   open_after M ops = M + (case fd of None \<Rightarrow> {#} | Some x \<Rightarrow> {#x#}) \<and> rv = (if fd = None then - 1 else 0)"
  by (induction addresses arbitrary: ops M) (auto simp: Let_def split: if_splits prod.splits)

text \<open>
  Whatever the addresses and the calls on them answer, listening keeps exactly the socket it
  returns: every other one it opened is closed, and on failure none is left.
\<close>

theorem listen_keeps_one_socket:
  "\<exists>rv fd ops. start_listen 0 addresses = Inr ((rv, fd), ops) \<and> rv = (if fd = None then - 1 else 0) \<and>
     open_after {#} ops = (case fd of None \<Rightarrow> {#} | Some x \<Rightarrow> {#x#})"
proof -
  obtain rv fd ops where l: "listen_on addresses = ((rv, fd), ops)" by (metis prod.exhaust)
  then show ?thesis using listen_on_sockets [OF l, of "{#}"] by (simp add: start_listen_def)
qed

text \<open>
  The date header is never stale, but because nothing is ever cached: the time of the cache is
  never set, so each call formats the date anew.
\<close>

theorem date_formatted_every_time:
  assumes "cache_time cache \<le> now" and "http_date gmtime now = Inr d"
  shows "\<exists>cache'. get_cached_date gmtime now cache = Inr (d, cache') \<and> cache_time cache' = cache_time cache"
  using assms by (simp add: get_cached_date_def Let_def)

theorem date_formatted_every_time_witness:
  "\<exists>d cache'. get_cached_date (\<lambda>_. Some sample_tm) 784111777 \<lparr>cached_date = [], cache_time = - 9223372036854775808\<rparr>
     = Inr (d, cache') \<and> cache_time cache' = - 9223372036854775808"
proof -
  obtain d where d: "http_date (\<lambda>_. Some sample_tm) 784111777 = Inr d"
    by (cases "http_date (\<lambda>_. Some sample_tm) 784111777")
      (auto simp: http_date_def sample_tm_def entry_def DAY_OF_WEEK_def MONTH_def)
  show ?thesis
    using date_formatted_every_time [OF _ d, of "\<lparr>cached_date = [], cache_time = - 9223372036854775808\<rparr>"]
    by auto
qed

end
