(* ===== verification/Server_Setup.thy ===== *)
theory Server_Setup
  imports Complex_Main Workers Static_Files Tls_Check Event_Dispatcher
begin

text \<open>
  Setting the server up (\<open>server.cc\<close>, \<open>worker.cc\<close>): the configuration, the workers, the TLS context,
  the start of the threads, and how a thread finds its worker.

  The JSON document of the configuration is the function from its keys to their values; OpenSSL is
  the list of what its calls answer.
\<close>

section \<open>The configuration\<close>

datatype conf_value = Conf_int int | Conf_double real | Conf_string string

record Config =
  cfg_threads :: int
  cfg_timeout :: real
  cfg_port :: string
  cfg_dhparam_file :: string
  cfg_cert_file :: string
  cfg_key_file :: string
  cfg_static_dir :: string
  cfg_database :: string
  cfg_query_dir :: string

text \<open>
  Reading a value of the document throws when the key is missing or the value is of another type;
  \<open>Inl\<close> is the key. An integer of the document fits 64 bits.
\<close>

definition conf_int :: "(string \<rightharpoonup> conf_value) \<Rightarrow> string \<Rightarrow> string + int" where
  "conf_int conf key =
     (case conf key of Some (Conf_int t) \<Rightarrow> if - (2 ^ 63) \<le> t \<and> t < 2 ^ 63 then Inr t else Inl key | _ \<Rightarrow> Inl key)"

definition conf_double :: "(string \<rightharpoonup> conf_value) \<Rightarrow> string \<Rightarrow> string + real" where
  "conf_double conf key =
     (case conf key of Some (Conf_double t) \<Rightarrow> Inr t | Some (Conf_int t) \<Rightarrow> Inr (of_int t) | _ \<Rightarrow> Inl key)"

definition conf_string :: "(string \<rightharpoonup> conf_value) \<Rightarrow> string \<Rightarrow> string + string" where
  "conf_string conf key = (case conf key of Some (Conf_string s) \<Rightarrow> Inr s | _ \<Rightarrow> Inl key)"

text \<open>\<open>(int)threads\<close> keeps the low 32 bits.\<close>

definition as_int32 :: "int \<Rightarrow> int" where
  "as_int32 t = sint (word_of_int t :: 32 word)"

definition load_config :: "nat \<Rightarrow> (string \<rightharpoonup> conf_value) \<Rightarrow> string + Config" where
  "load_config hardware_concurrency conf =
     bindE (conf_int conf ''threads'') (\<lambda>threads.
     let threads = (if threads > 0 then threads else int hardware_concurrency) in
     bindE (conf_double conf ''timeout'') (\<lambda>timeout.
     bindE (conf_string conf ''port'') (\<lambda>port.
     bindE (conf_string conf ''dhparam'') (\<lambda>dhparam.
     bindE (conf_string conf ''certificate'') (\<lambda>cert.
     bindE (conf_string conf ''key'') (\<lambda>key.
     bindE (conf_string conf ''static'') (\<lambda>static.
     bindE (conf_string conf ''database'') (\<lambda>database.
     bindE (conf_string conf ''queries'') (\<lambda>queries.
       Inr \<lparr>cfg_threads = as_int32 threads, cfg_timeout = timeout, cfg_port = port, cfg_dhparam_file = dhparam,
         cfg_cert_file = cert, cfg_key_file = key, cfg_static_dir = static, cfg_database = database,
         cfg_query_dir = queries\<rparr>)))))))))"

section \<open>The TLS context\<close>

text \<open>What is allocated, and by what it is given back: a \<open>unique_ptr\<close>, or the context that took it.\<close>

datatype resource = Ssl_ctx | Bio | Decoder | Dh_key

datatype resource_op = Acquired resource | Released resource | Given_to_context resource

record SslCtx =
  ctx_no_versions :: "string list"
  ctx_curves :: string
  ctx_next_protos :: string

text \<open>
  The list of protocols: the length of the name and the name, which are nghttp2's constants 2
  and \<open>"h2"\<close>.
\<close>

definition next_proto_list :: string where
  "next_proto_list = CHR 0x02 # ''h2''"

text \<open>The callback of NPN, and of ALPN, where \<open>rv\<close> is what \<open>nghttp2_select_next_protocol\<close> answers.\<close>

datatype alpn_answer = TLSEXT_ERR_OK | TLSEXT_ERR_NOACK

definition npn_callback :: "string \<times> nat" where
  "npn_callback = (next_proto_list, 1 + length ''h2'')"

definition alpn_callback :: "int \<Rightarrow> alpn_answer" where
  "alpn_callback rv = (if rv \<noteq> 1 then TLSEXT_ERR_NOACK else TLSEXT_ERR_OK)"

text \<open>
  What the calls that can fail answer, in order: \<open>SSL_CTX_new\<close>, the cipher list, the curves, the file of
  the DH parameters, the decoder's constructor, decoding, \<open>set0_tmp_dh_pkey\<close>, the private key, the
  certificate, the check. The pointers of what was made are destroyed in reverse order; a key that
  was decoded belongs to no one until the context takes it.
\<close>

record SslAnswers =
  ans_ctx :: bool
  ans_ciphers :: bool
  ans_curves :: bool
  ans_bio :: bool
  ans_decoder :: bool
  ans_decoded :: bool
  ans_tmp_dh :: bool
  ans_key :: bool
  ans_cert :: bool
  ans_check :: bool

definition new_ctx :: SslCtx where
  "new_ctx = \<lparr>ctx_no_versions = [''SSLv2'', ''SSLv3'', ''TLSv1'', ''TLSv1_1''], ctx_curves = ''P-256'',
     ctx_next_protos = fst npn_callback\<rparr>"

definition create_ssl_ctx :: "SslAnswers \<Rightarrow> SslCtx option \<times> resource_op list" where
  "create_ssl_ctx a =
     (if \<not> ans_ctx a then (None, [])
      else let ops = [Acquired Ssl_ctx] in
      if \<not> ans_ciphers a then (None, ops @ [Released Ssl_ctx])
      else if \<not> ans_curves a then (None, ops @ [Released Ssl_ctx])
      else if \<not> ans_bio a then (None, ops @ [Released Ssl_ctx])
      else let ops = ops @ [Acquired Bio] @ (if ans_decoder a then [Acquired Decoder] else []);
               leave = (if ans_decoder a then [Released Decoder] else []) @ [Released Bio] in
      if \<not> (ans_decoder a \<and> ans_decoded a) then (None, ops @ leave @ [Released Ssl_ctx])
      else let ops = ops @ [Acquired Dh_key] in
      if \<not> ans_tmp_dh a then (None, ops @ leave @ [Released Ssl_ctx])
      else let ops = ops @ [Given_to_context Dh_key] in
      if \<not> ans_key a then (None, ops @ leave @ [Released Ssl_ctx])
      else if \<not> ans_cert a then (None, ops @ leave @ [Released Ssl_ctx])
      else if \<not> ans_check a then (None, ops @ leave @ [Released Ssl_ctx])
      else (Some new_ctx, ops @ leave))"

text \<open>What is still held after a sequence of these; what the context took goes with it.\<close>

fun held_after :: "resource multiset \<Rightarrow> resource_op list \<Rightarrow> resource multiset" where
  "held_after M [] = M"
| "held_after M (Acquired r # ops) = held_after (add_mset r M) ops"
| "held_after M (Released r # ops) = held_after (M - {#r#}) ops"
| "held_after M (Given_to_context r # ops) = held_after (M - {#r#}) ops"

section \<open>The server\<close>

text \<open>A worker with its thread: what the constructor of the server, \<open>run\<close> and \<open>cancel\<close> do to it.\<close>

record Thread =
  t_db :: DbWorker
  t_files :: FileStore
  t_loop_runs :: bool
  t_query_dir :: "string option"

definition new_thread :: Thread where
  "new_thread = \<lparr>t_db = \<lparr>dbsession = None, started = False, broken = False\<rparr>,
     t_files = \<lparr>static_root = [], files = [], opened = 0\<rparr>, t_loop_runs = False, t_query_dir = None\<rparr>"

definition cancel_worker :: "Thread \<Rightarrow> Thread" where
  "cancel_worker w = (if started (t_db w) then w\<lparr>t_loop_runs := False\<rparr> else w)"

definition run_worker :: "Thread \<Rightarrow> Thread" where
  "run_worker w = w\<lparr>t_db := (t_db w)\<lparr>started := True\<rparr>, t_loop_runs := True\<rparr>"

definition connect_worker :: "DbSession option \<Rightarrow> Thread \<Rightarrow> Thread" where
  "connect_worker created w =
     (let w = w\<lparr>t_db := start_db_session created (t_db w)\<rparr>
      in if created = None then cancel_worker w else w)"

text \<open>\<open>set_query_dir\<close>; opening the directory answers \<open>fd\<close>.\<close>

definition set_query_dir :: "string \<Rightarrow> int \<Rightarrow> Thread \<Rightarrow> Thread" where
  "set_query_dir dir fd w =
     w\<lparr>t_query_dir := Some dir,
       t_db := (t_db w)\<lparr>dbsession := map_option (\<lambda>s. snd (set_query_location fd s)) (dbsession (t_db w))\<rparr>\<rparr>"

text \<open>
  The constructor: \<open>instance_exists\<close> is whether there is a server, \<open>created i\<close> and \<open>dirs i\<close> what connecting
  worker \<open>i\<close> and opening its directory answer. The vector has a worker for every \<open>i\<close> below the
  number of threads, which is none when it is negative. Each file found is added to all workers,
  which share nothing, so that each has what it has if the directories are walked for it alone.
\<close>

definition build_workers :: "Config \<Rightarrow> Thread list" where
  "build_workers c = map (\<lambda>_. new_thread) [0..<nat (cfg_threads c)]"

fun serve_workers ::
  "file_system \<Rightarrow> (string \<rightharpoonup> string) \<Rightarrow> string \<Rightarrow> dirent list option \<Rightarrow> Thread list \<Rightarrow> Thread list res"
where
  "serve_workers fs dict path below [] = bindE (static_root_of path) (\<lambda>_. Inr [])"
| "serve_workers fs dict path below (w # ws) =
     bindE (serve_static_files fs dict path below (t_files w)) (\<lambda>f.
     bindE (serve_workers fs dict path below ws) (\<lambda>ws'. Inr (w\<lparr>t_files := f\<rparr> # ws')))"

definition connect_database :: "(nat \<Rightarrow> DbSession option) \<Rightarrow> Thread list \<Rightarrow> Thread list" where
  "connect_database created ws = map (\<lambda>i. connect_worker (created i) (ws ! i)) [0..<length ws]"

definition set_query_locations :: "string \<Rightarrow> (nat \<Rightarrow> int) \<Rightarrow> Thread list \<Rightarrow> Thread list" where
  "set_query_locations dir dirs ws = map (\<lambda>i. set_query_dir dir (dirs i) (ws ! i)) [0..<length ws]"

definition construct_server ::
  "bool \<Rightarrow> file_system \<Rightarrow> (string \<rightharpoonup> string) \<Rightarrow> dirent list option \<Rightarrow> (nat \<Rightarrow> DbSession option) \<Rightarrow> (nat \<Rightarrow> int) \<Rightarrow>
   Config \<Rightarrow> Thread list res"
where
  "construct_server instance_exists fs dict below created dirs c =
     (if instance_exists then Inl Assertion
      else bindE (serve_workers fs dict (cfg_static_dir c) below (build_workers c)) (\<lambda>ws.
        Inr (set_query_locations (cfg_query_dir c) dirs (connect_database created ws))))"

text \<open>
  \<open>listen\<close>: gives up without a context or without a socket; else all workers run, and the main loop
  accepts, with a timer when the timeout is positive.
\<close>

record Listening =
  l_workers :: "Thread list"
  l_fd :: "int option"
  l_accepting :: bool
  l_timer :: bool

definition server_listen ::
  "Config \<Rightarrow> SslCtx option \<Rightarrow> int \<Rightarrow> Address list \<Rightarrow> Thread list \<Rightarrow> (Listening \<times> socket_op list) res"
where
  "server_listen c ctx getaddrinfo addresses ws =
     (let stopped = \<lparr>l_workers = ws, l_fd = None, l_accepting = False, l_timer = False\<rparr> in
      if ctx = None then Inr (stopped, [])
      else bindE (start_listen getaddrinfo addresses) (\<lambda>((err, fd), ops).
        if err \<noteq> 0 then Inr (stopped, ops)
        else case fd of
               None \<Rightarrow> Inl Undefined
             | Some fd \<Rightarrow> Inr (\<lparr>l_workers = map run_worker ws, l_fd = Some fd, l_accepting = True,
                               l_timer = cfg_timeout c > 0\<rparr>, ops)))"

definition server_timeout :: "Listening \<Rightarrow> Listening" where
  "server_timeout l = l\<lparr>l_accepting := False\<rparr>"

section \<open>The worker of a thread\<close>

text \<open>
  \<open>Worker::get_worker\<close>: \<open>registered\<close> is the map \<open>workers_\<close> from threads to workers, filled by \<open>run\<close> after
  the thread has started, \<open>cached\<close> the variable of each thread.
\<close>

record ThreadMap =
  registered_workers :: "nat \<rightharpoonup> nat"
  cached_workers :: "nat \<rightharpoonup> nat"

definition get_worker :: "nat \<Rightarrow> ThreadMap \<Rightarrow> nat option \<times> ThreadMap" where
  "get_worker thread s =
     (case cached_workers s thread of
        Some w \<Rightarrow> (Some w, s)
      | None \<Rightarrow>
          (case registered_workers s thread of
             Some w \<Rightarrow> (Some w, s\<lparr>cached_workers := (cached_workers s)(thread \<mapsto> w)\<rparr>)
           | None \<Rightarrow> (None, s)))"

definition register_worker :: "nat \<Rightarrow> nat \<Rightarrow> ThreadMap \<Rightarrow> ThreadMap" where
  "register_worker thread w s =
     (if registered_workers s thread = None then s\<lparr>registered_workers := (registered_workers s)(thread \<mapsto> w)\<rparr> else s)"

text \<open>\<open>~EventStream\<close> stops its timer on, and leaves the dispatcher of, the worker of the thread it runs on.\<close>

definition destroy_event_stream :: "nat \<Rightarrow> nat \<Rightarrow> ThreadMap \<Rightarrow> (nat \<Rightarrow> Dispatcher) \<Rightarrow> (nat \<Rightarrow> Dispatcher) res" where
  "destroy_event_stream thread es s ds =
     (case fst (get_worker thread s) of
        None \<Rightarrow> Inl Undefined
      | Some w \<Rightarrow> Inr (ds(w := (ds w)\<lparr>registry_of := remove_pointer es (registry_of (ds w)), live := (live (ds w))(es := None)\<rparr>)))"

text \<open>What threads do with the map: a worker's thread is registered by the main thread, any thread asks.\<close>

inductive thread_run :: "ThreadMap \<Rightarrow> bool" where
  start: "thread_run \<lparr>registered_workers = Map.empty, cached_workers = Map.empty\<rparr>"
| registers: "thread_run s \<Longrightarrow> thread_run (register_worker thread w s)"
| asks: "thread_run s \<Longrightarrow> thread_run (snd (get_worker thread s))"

lemma cached_registered: "thread_run s \<Longrightarrow> cached_workers s t = Some w \<Longrightarrow> registered_workers s t = Some w"
proof (induction rule: thread_run.induct)
  case (registers s thread w')
  then show ?case by (auto simp: register_worker_def split: if_splits)
next
  case (asks s thread)
  then show ?case by (auto simp: get_worker_def split: option.splits if_splits)
qed simp

section \<open>Properties\<close>


definition sample_conf :: "int \<Rightarrow> string \<rightharpoonup> conf_value" where
  "sample_conf t = [''threads'' \<mapsto> Conf_int t, ''timeout'' \<mapsto> Conf_int 0, ''port'' \<mapsto> Conf_string ''443'',
     ''dhparam'' \<mapsto> Conf_string ''dh.pem'', ''certificate'' \<mapsto> Conf_string ''cert.pem'', ''key'' \<mapsto> Conf_string ''key.pem'',
     ''static'' \<mapsto> Conf_string ''static'', ''database'' \<mapsto> Conf_string ''dbname=x'', ''queries'' \<mapsto> Conf_string ''sql'']"

lemma sample_conf_loads: "- (2 ^ 63) \<le> t \<Longrightarrow> t < 2 ^ 63 \<Longrightarrow> \<exists>c. load_config 8 (sample_conf t) = Inr c"
  by (simp add: load_config_def conf_int_def conf_double_def conf_string_def sample_conf_def)


lemma serve_workers_new:
  assumes "serve_static_files fs dict path (Some des) (t_files new_thread) = Inr f"
  shows "serve_workers fs dict path (Some des) (map (\<lambda>_. new_thread) xs) = Inr (map (\<lambda>_. new_thread\<lparr>t_files := f\<rparr>) xs)"
proof (induction xs)
  case Nil
  obtain rt where "static_root_of path = Inr rt"
    using assms by (cases "static_root_of path") (auto simp: serve_static_files_def)
  then show ?case by simp
qed (simp add: assms)

lemma files_served:
  assumes "static_root_of path = Inr rt" and "list_all tame des" and "files w = []"
  shows "\<exists>f. serve_static_files fs dict path (Some des) w = Inr f \<and>
    served_paths f = filter (\<lambda>p. fs p \<noteq> None) (tree_files rt des)"
  using assms iterate_files(1) [of des "w\<lparr>static_root := rt\<rparr>" rt fs dict]
  by (auto simp: serve_static_files_def served_paths_def)

lemma connected_thread:
  "i < length ws \<Longrightarrow> set_query_locations dir dirs (connect_database created ws) ! i = set_query_dir dir (dirs i) (connect_worker (created i) (ws ! i))"
  by (simp add: set_query_locations_def connect_database_def)


definition sample_config :: Config where
  "sample_config = \<lparr>cfg_threads = 2, cfg_timeout = 0, cfg_port = ''443'', cfg_dhparam_file = ''dh.pem'',
     cfg_cert_file = ''cert.pem'', cfg_key_file = ''key.pem'', cfg_static_dir = ''www'', cfg_database = ''dbname=x'',
     cfg_query_dir = ''sql''\<rparr>"

definition sample_addresses :: "Address list" where
  "sample_addresses = [\<lparr>a_socket = 3, a_setsockopt = 0, a_bind = - 1, a_listen = 0\<rparr>,
     \<lparr>a_socket = 4, a_setsockopt = 0, a_bind = 0, a_listen = 0\<rparr>]"


text \<open>
  The context is there exactly when every call on OpenSSL succeeded, and whichever call fails, all that
  was made before it is given back, but for one case: when the context does not take the DH
  parameters they are lost.
\<close>

theorem tls_context_all_or_nothing:
  "case create_ssl_ctx a of (r, ops) \<Rightarrow>
     (r \<noteq> None \<longleftrightarrow> ans_ctx a \<and> ans_ciphers a \<and> ans_curves a \<and> ans_bio a \<and> ans_decoder a \<and> ans_decoded a \<and> ans_tmp_dh a \<and>
        ans_key a \<and> ans_cert a \<and> ans_check a) \<and>
     held_after {#} ops =
       (if r \<noteq> None then {#Ssl_ctx#}
        else if ans_ctx a \<and> ans_ciphers a \<and> ans_curves a \<and> ans_bio a \<and> ans_decoder a \<and> ans_decoded a \<and> \<not> ans_tmp_dh a
        then {#Dh_key#} else {#})"
  by (auto simp: create_ssl_ctx_def Let_def)

text \<open>
  \<open>listen\<close> is all or nothing: it accepts connections exactly when it has a TLS context and a socket that
  listens; then every worker's thread runs and that socket is the only one left open. Otherwise no
  worker is started and no socket is left.
\<close>

theorem listen_needs_everything:
  assumes "server_listen c ctx getaddrinfo addresses ws = Inr (l, ops)"
  shows "(l_accepting l \<longleftrightarrow> ctx \<noteq> None \<and> l_fd l \<noteq> None) \<and>
    (l_accepting l \<longrightarrow> (\<forall>w \<in> set (l_workers l). started (t_db w) \<and> t_loop_runs w)) \<and>
    (\<not> l_accepting l \<longrightarrow> l_workers l = ws) \<and>
    open_after {#} ops = (case l_fd l of None \<Rightarrow> {#} | Some fd \<Rightarrow> {#fd#})"
proof (cases "ctx = None")
  case False
  obtain err fd ops' where r: "start_listen getaddrinfo addresses = Inr ((err, fd), ops')"
    using assms False by (cases "start_listen getaddrinfo addresses") (auto simp: server_listen_def Let_def)
  then have "listen_on addresses = ((err, fd), ops')" by (simp add: start_listen_def split: if_splits)
  from listen_on_sockets [OF this, of "{#}"] r False assms show ?thesis
    by (cases fd) (auto simp: server_listen_def Let_def run_worker_def)
qed (use assms in \<open>auto simp: server_listen_def Let_def\<close>)

theorem listen_needs_everything_witness:
  "\<exists>l ops. server_listen sample_config (Some new_ctx) 0 sample_addresses [new_thread] = Inr (l, ops) \<and> l_accepting l \<and>
     open_after {#} ops = {#4#}"
proof -
  obtain l ops where l: "server_listen sample_config (Some new_ctx) 0 sample_addresses [new_thread] = Inr (l, ops)" "l_fd l = Some 4"
    by (simp add: server_listen_def start_listen_def sample_addresses_def Let_def)
  from listen_needs_everything [OF l(1)] l show ?thesis by auto
qed

text \<open>
  C33. An event stream can only be destroyed on a thread that is a worker's: there it leaves that worker's
  dispatcher, on any other thread the worker that is looked up is null. The destructor of a worker
  runs on the main thread and destroys the sessions that are left, so a server that ends
  while a client listens to events reads through null.
\<close>

theorem event_streams_need_their_thread:
  assumes "thread_run s"
  shows "(registered_workers s thread = None \<longrightarrow> destroy_event_stream thread es s ds = Inl Undefined) \<and>
    (\<forall>w. registered_workers s thread = Some w \<longrightarrow> (\<exists>ds'. destroy_event_stream thread es s ds = Inr ds' \<and>
       (\<forall>ch. es \<notin> set (subscribers (registry_of (ds' w)) ch)) \<and> live (ds' w) es = None \<and> (\<forall>v. v \<noteq> w \<longrightarrow> ds' v = ds v)))"
proof (intro conjI allI impI)
  assume none: "registered_workers s thread = None"
  then have "cached_workers s thread = None" using cached_registered [OF assms] by (cases "cached_workers s thread") auto
  then show "destroy_event_stream thread es s ds = Inl Undefined"
    using none by (simp add: destroy_event_stream_def get_worker_def)
next
  fix w assume w: "registered_workers s thread = Some w"
  then have "fst (get_worker thread s) = Some w"
    using cached_registered [OF assms] by (auto simp: get_worker_def split: option.splits)
  then show "\<exists>ds'. destroy_event_stream thread es s ds = Inr ds' \<and>
       (\<forall>ch. es \<notin> set (subscribers (registry_of (ds' w)) ch)) \<and> live (ds' w) es = None \<and> (\<forall>v. v \<noteq> w \<longrightarrow> ds' v = ds v)"
    using registry.gone by (simp add: destroy_event_stream_def)
qed

text \<open>Thread 1 is the worker's, thread 0 the main one.\<close>

theorem event_streams_need_their_thread_witness:
  "\<exists>s. thread_run s \<and> registered_workers s = [1 \<mapsto> 0] \<and> destroy_event_stream 0 7 s (\<lambda>_. new_dispatcher) = Inl Undefined"
proof -
  let ?s = "register_worker 1 0 \<lparr>registered_workers = Map.empty, cached_workers = Map.empty\<rparr>"
  have run: "thread_run ?s" by (rule thread_run.registers [OF thread_run.start])
  have "registered_workers ?s = [1 \<mapsto> 0]" by (simp add: register_worker_def)
  then show ?thesis using run event_streams_need_their_thread [OF run, of 0 7 "\<lambda>_. new_dispatcher"]
    by (intro exI [of _ ?s]) simp
qed

end
