(* ===== verification/Spec2Isabelle.thy ===== *)
theory Spec2Isabelle
  imports Route_Dispatch Base64 Worker_Sessions Request_Answer Session_Types Session_Events Worker_Events Db_Answers
    Db_Notify Db_Strings String_Helpers Hexdump Request_Access Resources Task_Objects Server_Setup
begin

text \<open>
  A verification library for harmony, an HTTP/2 server in C++ (\<open>src/src\<close>).

  \<^bold>\<open>The program.\<close> A main thread (\<open>server.cc\<close>) listens and deals connections to worker threads
  (\<open>worker.cc\<close>). A worker runs one event loop: per connection an \<open>HttpSession\<close>
  (\<open>httpsession.cc\<close>) that moves bytes between TLS, a write buffer (\<open>buffer.h\<close>) and nghttp2; per
  request a \<open>Stream\<close> (\<open>stream.cc\<close>) with the request's headers and body (\<open>httprequest.cc\<close>), the
  response's headers, and a data stream for the response's body (a string, a file, or server-sent
  events: \<open>stringstream.cc\<close>, \<open>filestream.cc\<close>, \<open>eventstream.cc\<close>). A request goes through the route
  tree (\<open>httprouter.cc\<close>) to a handler, or to a static file (\<open>fileentry.cc\<close>). A handler may ask the
  worker's database session (\<open>dbsession.cc\<close>, \<open>dbresult.cc\<close>), publish events
  (\<open>eventdispatcher.cc\<close>) and write JSON (\<open>json.cc\<close>). \<open>util.cc\<close> and \<open>common_util.cc\<close> hold the text
  routines all of this uses.

  \<^bold>\<open>The theories\<close>, in the order they build on each other:

  \<^item> \<open>Prelude\<close>: bytes, the ways a call fails (\<open>fault\<close>, \<open>bindE\<close>), the searches of \<open>string_view\<close>.
  \<^item> \<open>Header_Names\<close>: \<open>streq_l\<close>, and the switch of \<open>lookup_header\<close> against the table it encodes.
  \<^item> \<open>Route_Path\<close>, \<open>Router\<close>, \<open>Router_Facts\<close>, \<open>Route_Dispatch\<close>: path levels, the tree of
    \<open>RouteNode\<close>s, insertion, matching, \<open>dispatch_route\<close> and \<open>get_param\<close>. Dispatch is shown sound
    and complete for the registered patterns as far as it is; slots read without having been set
    are exhibited.
  \<^item> \<open>Byte_Buffer\<close>: the write buffer, refining a queue of bytes (\<open>pending\<close>).
  \<^item> \<open>Data_Streams\<close>: \<open>length\<close>, \<open>remaining\<close> and \<open>send\<close> of the three bodies, each of which appends
    the next bytes of what it has to say.
  \<^item> \<open>Message_Headers\<close>: received headers with the reference counts of their buffers, and the array
    of response headers.
  \<^item> \<open>Text_Codecs\<close>, \<open>Http_Date\<close>, \<open>Base64\<close>, \<open>Cookies_Mime\<close>, \<open>Json_Text\<close>: percent coding, the block
    memory, decimal numbers, dates, base64, cookies and MIME types, JSON. Round trips and
    agreement with reference definitions. \<open>Hexdump\<close>: the dump of bytes, line by line.
  \<^item> \<open>Request_Body\<close>: the ways a handler gets the body, by callback or coroutine. \<open>Request_Access\<close>: what
    it reads of the request else.
  \<^item> \<open>Static_Files\<close>: the files a worker knows and the ones it opens later.
  \<^item> \<open>Streams\<close>, \<open>Stream_Facts\<close>: parsing the target, the responses, and what a handler does on a
    response, up to the call that nghttp2 gets.
  \<^item> \<open>Tls_Check\<close>, \<open>Http_Session\<close>: the conditions of HTTP/2 over TLS; the callbacks and loops of a
    connection and its step relation (\<open>session_step\<close>, \<open>reachable\<close>).
  \<^item> \<open>Session_Output\<close>, \<open>Session_Frames\<close>, \<open>Session_Streams\<close>, \<open>Session_Types\<close>: what holds of a
    connection. The locale \<open>session_invariant\<close> carries a predicate through the loops; it is interpreted
    by the conservation of output bytes, by the registration of streams with the bound on their
    headers, and by the representation invariant of every stream. \<open>finite_body\<close> is the contract of a
    body that ends; frames cut from it are the body.
  \<^item> \<open>Request_Answer\<close>, \<open>Session_Events\<close>: the components put together, for a request from its first
    header to the last byte of its answer, and for events from the handler to the connection.
  \<^item> \<open>Worker_Sessions\<close>: all the connections of a worker, sharing the counter of serial numbers, the
    set of living streams and the files; a stream that is gone is never taken for another.
  \<^item> \<open>Event_Dispatcher\<close>: who listens to which channel; the contract \<open>subscriptions\<close> and the
    absence of dangling pointers. \<open>Worker_Events\<close> joins it with the connections whose streams the
    pointers point into.
  \<^item> \<open>Db_Result\<close>, \<open>Db_Session\<close>, \<open>Db_Facts\<close>, \<open>Db_Answers\<close>: results, the pipeline of queries, its
    invariants through \<open>db_invariant\<close> (first asked, first sent, first answered; nothing queued is
    forgotten), draining and delivery. \<open>String_Helpers\<close>: the arguments of a query, from values of any
    type to the strings queued.
  \<^item> \<open>Db_Ownership\<close>, \<open>Db_Strings\<close>, \<open>Db_Notify\<close>: who frees a \<open>PGresult\<close>, what the strings of a result
    look into, and the notifications, whose objects refine those of results and which become events.
  \<^item> \<open>Coroutines\<close>, \<open>Task_Objects\<close>: frames, promises and awaitables run by a machine with the native
    stack, shown to run programs as they are written; and the objects that own the frames.
  \<^item> \<open>Workers\<close>, \<open>Server_Setup\<close>: listening, dealing out, the queue between the threads, the cached date,
    the replacement of a database session; configuration, TLS context, the workers and their threads.
    \<open>Resources\<close>: the sockets, TLS objects, nghttp2 sessions and watchers of the connections, from
    \<open>accept\<close> to the destructors.

  This theory joins a worker's streams with its database.

  \<^bold>\<open>Conventions.\<close> A class is a record with the members that matter, a method a function returning
  the new record; a failed assertion, an exception and undefined behaviour are values of \<open>fault\<close>.
  Members that no constructor sets are \<open>None\<close> or arguments. History members (what was put out, sent,
  asked, delivered) are named as such where their record is declared and are read by no operation of
  the code. Words keep their width where it matters (serial numbers, method bits, handler
  indices); \<open>size_t\<close> counters that are bounded by memory are \<open>nat\<close>.

  \<^bold>\<open>Environment.\<close> nghttp2, OpenSSL, libpq, libev, the kernel and the application's handlers are
  not under \<open>src\<close>. They appear as arguments: scripts of answers or actions, consumed one per call,
  or functions. A loop whose script ends while the code would go on gives \<open>Unfinished\<close>, which is
  a failure no theorem hides behind: those about results either hold for every script on which the
  code returns, or give a script's length that is enough. The bounds are stated there: one answer
  of \<open>SSL_write\<close> per byte for \<open>write_loop\<close>, one flush per batch of 20 queries and one more for
  \<open>write_queries\<close>, answers of \<open>pread\<close> that get to the end of
  what is asked for \<open>fs_send\<close>. Every other recursion is
  structural or has a measure.

  \<^bold>\<open>Not modelled.\<close> \<open>uuidgenerator.h\<close>, which seeds and calls a random generator of a library;
  \<open>HttpRequest::json\<close>, which hands the body to simdjson; moves of \<open>RouteNode\<close>, which the tree of values
  does not need; constructors and destructors that only set up or stop watchers of libev elsewhere
  than in \<open>Resources\<close>; the sockets' options that are never used; console and debugging output but
  for the dump; and the programs \<open>exp.cc\<close> and \<open>test_db.cc\<close>.
\<close>

section \<open>Across components\<close>

lemma dead_stream_results: "get_results react query False results error db = Inr (sync, e, db') \<Longrightarrow> db' = db"
  by (induction react query False results error db rule: get_results.induct)
    (auto simp: handle_result_def split: PGStatus.splits)

text \<open>
  C14. A request that is over is never answered from the database: when at some time the stream that
  asked is among those of no connection of the worker, then whatever the worker's connections have
  done since, the results that come for its query change nothing, run no callback and resume no
  coroutine of the frame that is gone.
\<close>

theorem closed_stream_gets_no_answer:
  assumes "http_worker_run env router (new_http_worker fs) w" and "w_created w < 2 ^ 64"
    and "unat (d_serial query) < unat (w_serial w)"
    and "\<forall>n i st. stream_at w n i = Some st \<longrightarrow> st_serial st \<noteq> d_serial query"
    and "http_worker_run env router w w'" and "w_created w' < 2 ^ 64"
    and "get_results react query (is_stream_alive (d_serial query) w') results False db = Inr (sync, error, db')"
  shows "db' = db"
proof -
  have "\<not> is_stream_alive (d_serial query) w"
    using linked_alive(1) [OF run_linked [OF assms(1) new_linked] assms(2)] assms(4) by blast
  from gone_stays [OF assms(1-3) this assms(5,6)] show ?thesis using assms(7) dead_stream_results by simp
qed

text \<open>The connection of the stream with serial number 0 has ended; what comes for it is dropped.\<close>

theorem closed_stream_gets_no_answer_witness:
  "\<exists>w. http_worker_run sample_env sample_router (new_http_worker empty_store) w \<and> w_serial w = 1 \<and>
     (\<forall>db' sync error. get_results (\<lambda>_ _. []) \<lparr>d_serial = 0, d_sync = True, d_handler = Callback 0\<rparr>
        (is_stream_alive 0 w) [Some ok_result, None] False connected_session = Inr (sync, error, db') \<longrightarrow> db' = connected_session)"
proof -
  obtain w where w: "http_worker_run sample_env sample_router (new_http_worker empty_store) w" "w_sessions w = []"
    "w_created w = 1" "w_serial w = 1" using sample_worker_ended by blast
  have "db' = connected_session"
    if "get_results (\<lambda>_ _. []) \<lparr>d_serial = 0, d_sync = True, d_handler = Callback 0\<rparr>
      (is_stream_alive 0 w) [Some ok_result, None] False connected_session = Inr (sync, error, db')" for db' sync error
  proof -
    let ?q = "\<lparr>d_serial = 0, d_sync = True, d_handler = Callback 0\<rparr>"
    have "w_created w < 2 ^ 64" "unat (d_serial ?q) < unat (w_serial w)"
      "\<forall>n i st. stream_at w n i = Some st \<longrightarrow> st_serial st \<noteq> d_serial ?q"
      using w(2-4) by (simp_all add: stream_at_def)
    from closed_stream_gets_no_answer [OF w(1) this http_worker_run.start this(1)] that
    show ?thesis by (metis DispatchedQuery.select_convs(1))
  qed
  then show ?thesis using w(1,4) by blast
qed

end
